(* ===== verification/Prelude.thy ===== *)
theory Prelude
  imports Main "HOL-Library.Word" "HOL-Library.Multiset"
begin

text \<open>
  Shared vocabulary of the development: bytes and C integers, byte memories, the outcome of a
  C call, decimal printing (the \<open>%d\<close> of \<open>sprintf\<close>) and \<open>atoi\<close>.

  Conventions. A C \<open>char\<close> is an HOL \<open>char\<close>; \<open>c_char\<close> is its value as the signed \<open>char\<close> of the
  x86 target. C integers are HOL integers; where a value can leave its type's range the
  conversion (\<open>to_int\<close>, \<open>to_size_t\<close>, \<open>to_uint64\<close>) or the test \<open>is_int\<close> is written out.
  A buffer is a total function from indices to bytes together with a limit that every access is
  tested against, so the bytes that the code never wrote are arbitrary and an access outside
  the limit is undefined behaviour.
\<close>

named_theorems mem_simps \<open>rewriting of byte memories\<close>
named_theorems c_int \<open>conversions between C integer types\<close>

section \<open>Lists\<close>

lemma nth_map_upt [simp]: "i < n \<Longrightarrow> map f [0..<n] ! i = f i"
  by simp

lemma map_upt_Suc_tail: "map f [0..<Suc n] = f 0 # map (\<lambda>i. f (Suc i)) [0..<n]"
  by (induction n) auto

section \<open>C integers\<close>

definition INT_MAX :: int where "INT_MAX = 2147483647"

definition INT_MIN :: int where "INT_MIN = -2147483648"

definition is_int :: "int \<Rightarrow> bool" where
  "is_int x \<longleftrightarrow> INT_MIN \<le> x \<and> x \<le> INT_MAX"

definition to_int :: "int \<Rightarrow> int" where
  "to_int x = (x + 2 ^ 31) mod 2 ^ 32 - 2 ^ 31"

definition to_size_t :: "int \<Rightarrow> int" where
  "to_size_t x = x mod 2 ^ 64"

definition to_uint64 :: "int \<Rightarrow> int" where
  "to_uint64 x = x mod 2 ^ 64"

lemma to_int_id [c_int]: "is_int x \<Longrightarrow> to_int x = x"
  by (simp add: to_int_def is_int_def INT_MIN_def INT_MAX_def)

lemma is_int_small [c_int]: "-2147483648 \<le> x \<Longrightarrow> x \<le> 2147483647 \<Longrightarrow> is_int x"
  by (simp add: is_int_def INT_MIN_def INT_MAX_def)

lemma to_size_t_id [c_int]: "0 \<le> x \<Longrightarrow> x < 18446744073709551616 \<Longrightarrow> to_size_t x = x"
  by (simp add: to_size_t_def)

lemma to_uint64_id [c_int]: "0 \<le> x \<Longrightarrow> x < 18446744073709551616 \<Longrightarrow> to_uint64 x = x"
  by (simp add: to_uint64_def)

lemma sint_nonneg: "0 \<le> sint (w :: 'a::len word) \<Longrightarrow> sint w = uint w"
proof -
  assume "0 \<le> sint w"
  then have "\<not> bit (uint w) (LENGTH('a) - 1)"
    by (simp add: sint_uint signed_take_bit_nonnegative_iff)
  moreover have "take_bit LENGTH('a) (uint w) = uint w" by (simp add: take_bit_int_eq_self)
  moreover have "Suc (LENGTH('a) - 1) = LENGTH('a)" by simp
  ultimately show ?thesis
    by (simp only: sint_uint signed_take_bit_eq_take_bit_minus) simp
qed

section \<open>Bytes\<close>

type_synonym byte = char

abbreviation NUL :: byte where "NUL \<equiv> CHR 0x00"

abbreviation CR :: byte where "CR \<equiv> CHR 0x0D"

abbreviation LF :: byte where "LF \<equiv> CHR 0x0A"

abbreviation SP :: byte where "SP \<equiv> CHR 0x20"

definition c_char :: "byte \<Rightarrow> int" where
  "c_char c = (let v = of_char c in if v < 128 then v else v - 256)"

definition isdigit :: "byte \<Rightarrow> bool" where
  "isdigit c \<longleftrightarrow> 48 \<le> c_char c \<and> c_char c \<le> 57"

definition isspace :: "byte \<Rightarrow> bool" where
  "isspace c \<longleftrightarrow> c = SP \<or> (9 \<le> c_char c \<and> c_char c \<le> 13)"

definition digit_char :: "nat \<Rightarrow> byte" where
  "digit_char d = char_of (48 + d)"

lemma c_char_digit: "d < 10 \<Longrightarrow> c_char (digit_char d) = 48 + int d"
proof -
  assume d: "d < 10"
  have "(of_char (char_of (48 + d) :: char) :: int) = of_nat (of_char (char_of (48 + d) :: char))"
    by (simp only: of_nat_of_char)
  also have "(of_char (char_of (48 + d) :: char) :: nat) = 48 + d"
    using d by (simp only: of_char_of) simp
  finally show ?thesis using d by (simp add: c_char_def digit_char_def)
qed

lemma c_char_inj: "c_char a = c_char b \<longleftrightarrow> a = b"
proof
  assume eq: "c_char a = c_char b"
  have "(of_char c :: int) = int (of_char c)" "of_char c < (256 :: nat)" for c :: char
    by (simp_all only: of_nat_of_char nat_of_char_less_256)
  then have "0 \<le> (of_char c :: int) \<and> (of_char c :: int) < 256" for c :: char
    by (metis of_nat_0_le_iff of_nat_less_iff of_nat_numeral)
  from this [of a] this [of b] eq have "(of_char a :: int) = of_char b"
    by (auto simp: c_char_def Let_def split: if_splits)
  then show "a = b" by (simp only: of_char_eq_iff)
qed simp

lemma isdigit_digit: "d < 10 \<Longrightarrow> isdigit (digit_char d)"
  by (simp add: isdigit_def c_char_digit)

lemma not_isspace_digit: "d < 10 \<Longrightarrow> \<not> isspace (digit_char d)"
proof -
  assume "d < 10"
  moreover from this have "digit_char d \<noteq> SP"
    using c_char_digit [of d] by (auto simp: c_char_def)
  ultimately show ?thesis by (simp add: isspace_def c_char_digit)
qed

section \<open>Byte memories\<close>

type_synonym mem = "int \<Rightarrow> byte"

text \<open>The bytes of a C string, before its first zero byte.\<close>

definition cstr :: "byte list \<Rightarrow> byte list" where
  "cstr s = takeWhile (\<lambda>b. b \<noteq> NUL) s"

primrec holds :: "mem \<Rightarrow> int \<Rightarrow> byte list \<Rightarrow> bool" where
  "holds m i [] \<longleftrightarrow> True"
| "holds m i (x # xs) \<longleftrightarrow> m i = x \<and> holds m (i + 1) xs"

primrec poke :: "mem \<Rightarrow> int \<Rightarrow> byte list \<Rightarrow> mem" where
  "poke m i [] = m"
| "poke m i (x # xs) = poke (m(i := x)) (i + 1) xs"

primrec peek :: "mem \<Rightarrow> int \<Rightarrow> nat \<Rightarrow> byte list" where
  "peek m i 0 = []"
| "peek m i (Suc n) = m i # peek m (i + 1) n"

lemma holds_append [mem_simps]:
  "holds m i (xs @ ys) \<longleftrightarrow> holds m i xs \<and> holds m (i + int (length xs)) ys"
  by (induction xs arbitrary: i) (auto simp: ac_simps)

lemma length_peek [simp]: "length (peek m i n) = n"
  by (induction n arbitrary: i) auto

lemma holds_peek: "holds m i xs \<longleftrightarrow> peek m i (length xs) = xs"
  by (induction xs arbitrary: i) auto

lemma peek_append: "peek m i (a + b) = peek m i a @ peek m (i + int a) b"
  by (induction a arbitrary: i) (auto simp: ac_simps)

lemma poke_outside: "k < i \<or> i + int (length xs) \<le> k \<Longrightarrow> poke m i xs k = m k"
  by (induction xs arbitrary: m i) auto

lemma poke_append: "poke m i (xs @ ys) = poke (poke m i xs) (i + int (length xs)) ys"
  by (induction xs arbitrary: m i) (auto simp: ac_simps)

lemma peek_cong: "(\<And>k. i \<le> k \<Longrightarrow> k < i + int n \<Longrightarrow> m k = m' k) \<Longrightarrow> peek m i n = peek m' i n"
  by (induction n arbitrary: i) auto

lemma peek_poke_same: "peek (poke m i xs) i (length xs) = xs"
proof (induction xs arbitrary: m i)
  case (Cons x xs)
  then show ?case by (simp add: poke_outside)
qed simp

lemma peek_poke_before: "i + int n \<le> j \<Longrightarrow> peek (poke m j xs) i n = peek m i n"
  by (rule peek_cong) (auto intro: poke_outside)

lemma holds_cong:
  "(\<And>k. i \<le> k \<Longrightarrow> k < i + int (length xs) \<Longrightarrow> m k = m' k) \<Longrightarrow> holds m i xs = holds m' i xs"
proof (induction xs arbitrary: i)
  case (Cons x xs)
  have "holds m (i + 1) xs = holds m' (i + 1) xs"
    using Cons.prems by (intro Cons.IH) auto
  then show ?case using Cons.prems by auto
qed simp

lemma holds_upd [mem_simps]:
  "k < i \<or> i + int (length xs) \<le> k \<Longrightarrow> holds (m(k := b)) i xs = holds m i xs"
  by (rule holds_cong) auto

section \<open>The outcome of a C call\<close>

text \<open>
  \<open>Ret\<close>: the call returned. \<open>Exit\<close>: the process ended (\<open>exit\<close>, \<open>err\<close>). \<open>Undef\<close>: the call has
  undefined behaviour (an access out of bounds, a signed overflow, an indeterminate value).
  \<open>Loops\<close>: the call has not returned when the part of the environment that the model was given
  (the results of system calls) is used up.
\<close>

datatype 'a outcome = Ret 'a | Exit int | Undef | Loops

fun and_then :: "'a outcome \<Rightarrow> ('a \<Rightarrow> 'b outcome) \<Rightarrow> 'b outcome" where
  "and_then (Ret x) f = f x"
| "and_then (Exit n) f = Exit n"
| "and_then Undef f = Undef"
| "and_then Loops f = Loops"

lemma and_then_Ret [simp]: "and_then x f = Ret y \<longleftrightarrow> (\<exists>a. x = Ret a \<and> f a = Ret y)"
  by (cases x) auto

definition defined :: "'a option \<Rightarrow> 'a outcome" where
  "defined x = (case x of None \<Rightarrow> Undef | Some y \<Rightarrow> Ret y)"

lemma defined_simps [simp]: "defined None = Undef" "defined (Some y) = Ret y"
  by (simp_all add: defined_def)

section \<open>Decimal numbers\<close>

fun dec :: "nat \<Rightarrow> byte list" where
  "dec n = (if n < 10 then [digit_char n] else dec (n div 10) @ [digit_char (n mod 10)])"

declare dec.simps [simp del]

definition sprint_d :: "int \<Rightarrow> byte list" where
  "sprint_d x = (if x < 0 then CHR ''-'' # dec (nat (- x)) else dec (nat x))"

definition dec_value :: "int \<Rightarrow> byte list \<Rightarrow> int" where
  "dec_value a ds = foldl (\<lambda>a d. a * 10 + (c_char d - 48)) a ds"

lemma dec_value_simps [simp]:
  "dec_value a [] = a"
  "dec_value a (d # ds) = dec_value (a * 10 + (c_char d - 48)) ds"
  by (simp_all add: dec_value_def)

lemma dec_value_append: "dec_value a (xs @ ys) = dec_value (dec_value a xs) ys"
  by (simp add: dec_value_def)

lemma dec_nonempty [simp]: "dec n \<noteq> []"
  by (subst dec.simps) simp

lemma dec_digits: "\<forall>d \<in> set (dec n). \<exists>k < 10. d = digit_char k"
proof (induction n rule: dec.induct)
  case (1 n)
  show ?case
  proof (cases "n < 10")
    case True
    then show ?thesis by (subst dec.simps) auto
  next
    case False
    with 1 have "\<forall>d \<in> set (dec (n div 10)). \<exists>k < 10. d = digit_char k" by simp
    moreover have "\<exists>k < 10. digit_char (n mod 10) = digit_char k"
      by (rule exI [of _ "n mod 10"]) simp
    ultimately show ?thesis using False by (subst dec.simps) auto
  qed
qed

lemma dec_isdigit: "d \<in> set (dec n) \<Longrightarrow> isdigit d"
  by (metis dec_digits isdigit_digit)

lemma dec_value_dec: "dec_value 0 (dec n) = int n"
proof (induction n rule: dec.induct)
  case (1 n)
  show ?case
  proof (cases "n < 10")
    case True
    then show ?thesis by (subst dec.simps) (simp add: c_char_digit)
  next
    case False
    with 1 have "dec_value 0 (dec (n div 10)) = int (n div 10)" by simp
    moreover have "int (n div 10) * 10 + int (n mod 10) = int n" by presburger
    ultimately show ?thesis using False
      by (subst dec.simps) (simp add: dec_value_append c_char_digit)
  qed
qed

lemma digit_chars:
  "digit_char 0 = CHR ''0''" "digit_char (Suc 0) = CHR ''1''" "digit_char 2 = CHR ''2''"
  "digit_char 8 = CHR ''8''" "digit_char 9 = CHR ''9''"
  by code_simp+

text \<open>The size of a value as the replies print it.\<close>

lemma dec_0: "dec 0 = ''0''" "dec 1 = ''1''" "dec (Suc 0) = ''1''"
  by (simp_all add: dec.simps digit_chars)

lemma dec_8192: "dec 8192 = ''8192''"
  by (simp add: dec.simps digit_chars)

section \<open>The library function atoi\<close>

text \<open>
  \<open>atoi\<close> on a memory whose readable part ends at \<open>lim\<close>: leading white space, an optional sign,
  decimal digits. \<open>None\<close> is a read at or past \<open>lim\<close>, or a value that is no \<open>int\<close> (undefined
  behaviour of \<open>atoi\<close>).
\<close>

function skip_space :: "mem \<Rightarrow> int \<Rightarrow> int \<Rightarrow> int option" where
  "skip_space m lim i =
     (if i < lim then (if isspace (m i) then skip_space m lim (i + 1) else Some i) else None)"
  by pat_completeness auto
termination
  by (relation "measure (\<lambda>(m, lim, i). nat (lim - i))") auto

function read_digits :: "mem \<Rightarrow> int \<Rightarrow> int \<Rightarrow> int \<Rightarrow> int option" where
  "read_digits m lim i acc =
     (if i < lim
      then (if isdigit (m i) then read_digits m lim (i + 1) (acc * 10 + (c_char (m i) - 48))
            else Some acc)
      else None)"
  by pat_completeness auto
termination
  by (relation "measure (\<lambda>(m, lim, i, acc). nat (lim - i))") auto

declare skip_space.simps [simp del]

declare read_digits.simps [simp del]

definition in_int_range :: "int \<Rightarrow> int option" where
  "in_int_range x = (if is_int x then Some x else None)"

definition atoi :: "mem \<Rightarrow> int \<Rightarrow> int \<Rightarrow> int option" where
  "atoi m lim i =
     (case skip_space m lim i of
        None \<Rightarrow> None
      | Some j \<Rightarrow>
          if m j = CHR ''-'' then
            (case read_digits m lim (j + 1) 0 of None \<Rightarrow> None | Some v \<Rightarrow> in_int_range (- v))
          else
            (case read_digits m lim (if m j = CHR ''+'' then j + 1 else j) 0 of
               None \<Rightarrow> None | Some v \<Rightarrow> in_int_range v))"

lemma read_digits_run:
  assumes "holds m i ds" and "\<forall>d \<in> set ds. isdigit d" and "i + int (length ds) \<le> lim"
  shows "read_digits m lim i acc = read_digits m lim (i + int (length ds)) (dec_value acc ds)"
  using assms
proof (induction ds arbitrary: i acc)
  case (Cons d ds)
  then have "read_digits m lim i acc = read_digits m lim (i + 1) (acc * 10 + (c_char d - 48))"
    by (simp add: read_digits.simps [of m lim i acc])
  with Cons show ?case by (simp add: ac_simps)
qed simp

lemma read_digits_stop:
  "\<not> isdigit (m i) \<Longrightarrow> i < lim \<Longrightarrow> read_digits m lim i acc = Some acc"
  by (simp add: read_digits.simps)

lemma skip_space_stop: "\<not> isspace (m i) \<Longrightarrow> i < lim \<Longrightarrow> skip_space m lim i = Some i"
  by (simp add: skip_space.simps)

lemma atoi_digits:
  assumes "holds m i ds" and "ds \<noteq> []" and "\<forall>d \<in> set ds. \<exists>k < 10. d = digit_char k"
    and "\<not> isdigit (m (i + int (length ds)))" and "i + int (length ds) < lim"
  shows "atoi m lim i = in_int_range (dec_value 0 ds)"
proof -
  obtain d ds' where ds: "ds = d # ds'" using assms(2) by (cases ds) auto
  with assms(1,3) obtain k where k: "k < 10" "m i = digit_char k" by auto
  have "i < lim" using assms(5) ds by simp
  then have skip: "skip_space m lim i = Some i"
    using k by (intro skip_space_stop) (simp_all add: not_isspace_digit)
  have c: "c_char (m i) \<ge> 48" using k by (simp add: c_char_digit)
  have no_sign: "m i \<noteq> CHR ''-''" "m i \<noteq> CHR ''+''"
    using c by (auto simp: c_char_def)
  have "\<forall>d \<in> set ds. isdigit d" using assms(3) by (metis isdigit_digit)
  then have "read_digits m lim i 0 = Some (dec_value 0 ds)"
    using read_digits_run [OF assms(1), of lim 0] assms(4,5) read_digits_stop by simp
  then show ?thesis using skip no_sign by (simp add: atoi_def)
qed

lemma atoi_dec:
  assumes "holds m i (dec n)" and "\<not> isdigit (m (i + int (length (dec n))))"
    and "i + int (length (dec n)) < lim" and "int n \<le> INT_MAX"
  shows "atoi m lim i = Some (int n)"
  using atoi_digits [OF assms(1) _ dec_digits assms(2,3)] assms(4)
  by (simp add: dec_value_dec in_int_range_def is_int_def INT_MIN_def)

end
