(* ===== verification/Fifo.thy ===== *)
theory Fifo
  imports Prelude
begin

text \<open>
  The contract of a first-in first-out queue, which the three queues of the program keep: the
  linked queue of \<open>queue.c\<close>, the single-producer ring of \<open>lockfreeq.h\<close> and the ring of
  \<open>lfmpmc.h\<close> used by one thread at a time. \<open>contents\<close> reads the queued items off a state, oldest
  first; \<open>room\<close> says whether one more fits. The theory of each queue interprets the locale on its
  own operations. \<open>bounded_fifo\<close> is the contract with a fixed capacity. \<open>run_simulation\<close> relates the runs
  of threads that share a queue to runs in which each call on it is one step.
\<close>

datatype 'a qop = Enq 'a | Deq

text \<open>A run of a queue: the items accepted, in order, and the items handed out, in order.\<close>

fun qrun :: "('a \<Rightarrow> 's \<Rightarrow> bool \<times> 's) \<Rightarrow> ('s \<Rightarrow> 'a option \<times> 's) \<Rightarrow> 's \<Rightarrow> 'a qop list
    \<Rightarrow> 'a list \<times> 'a list \<times> 's" where
  "qrun enq deq s [] = ([], [], s)"
| "qrun enq deq s (Enq x # ops) =
     (let (ok, s1) = enq x s; (ins, outs, s2) = qrun enq deq s1 ops
      in (if ok then x # ins else ins, outs, s2))"
| "qrun enq deq s (Deq # ops) =
     (let (r, s1) = deq s; (ins, outs, s2) = qrun enq deq s1 ops
      in (ins, case r of None \<Rightarrow> outs | Some x \<Rightarrow> x # outs, s2))"

lemma qrun_append:
  "qrun enq deq s (ops @ ops') =
     (case qrun enq deq s ops of (ins, outs, s1) \<Rightarrow>
        case qrun enq deq s1 ops' of (ins', outs', s2) \<Rightarrow> (ins @ ins', outs @ outs', s2))"
  by (induction enq deq s ops rule: qrun.induct) (simp_all add: Let_def split: prod.splits option.splits)

text \<open>The arguments of the insertions of a run.\<close>

fun enq_args :: "'a qop list \<Rightarrow> 'a list" where
  "enq_args [] = []"
| "enq_args (Enq x # ops) = x # enq_args ops"
| "enq_args (Deq # ops) = enq_args ops"

locale fifo =
  fixes invar :: "'s \<Rightarrow> bool"
    and contents :: "'s \<Rightarrow> 'a list"
    and room :: "'s \<Rightarrow> bool"
    and enq :: "'a \<Rightarrow> 's \<Rightarrow> bool \<times> 's"
    and deq :: "'s \<Rightarrow> 'a option \<times> 's"
  assumes enq_room: "invar s \<Longrightarrow> room s \<Longrightarrow>
      fst (enq x s) \<and> invar (snd (enq x s)) \<and> contents (snd (enq x s)) = contents s @ [x]"
    and enq_full: "invar s \<Longrightarrow> \<not> room s \<Longrightarrow> enq x s = (False, s)"
    and deq_empty: "invar s \<Longrightarrow> contents s = [] \<Longrightarrow> deq s = (None, s)"
    and deq_some: "invar s \<Longrightarrow> contents s = x # xs \<Longrightarrow>
      fst (deq s) = Some x \<and> invar (snd (deq s)) \<and> contents (snd (deq s)) = xs"
begin

lemma enq_invar: "invar s \<Longrightarrow> invar (snd (enq x s))"
  using enq_room enq_full by (cases "room s") auto

lemma enq_contents:
  "invar s \<Longrightarrow> contents (snd (enq x s)) = (if fst (enq x s) then contents s @ [x] else contents s)"
  using enq_room enq_full by (cases "room s") auto

lemma deq_invar: "invar s \<Longrightarrow> invar (snd (deq s))"
  using deq_empty deq_some by (cases "contents s") auto

lemma deq_contents:
  "invar s \<Longrightarrow>
     contents s = (case fst (deq s) of None \<Rightarrow> [] | Some x \<Rightarrow> [x]) @ contents (snd (deq s))"
  using deq_empty deq_some by (cases "contents s") auto

lemma run_invar: "invar s \<Longrightarrow> invar (snd (snd (qrun enq deq s ops)))"
proof (induction enq\<equiv>enq deq\<equiv>deq s ops rule: qrun.induct)
  case (2 s x ops)
  then show ?case using enq_invar [of s x] by (auto simp: Let_def split: prod.splits)
next
  case (3 s ops)
  then show ?case using deq_invar [of s] by (auto simp: Let_def split: prod.splits)
qed simp

text \<open>Nothing is lost, duplicated or reordered, whatever the operations.\<close>

lemma run_fifo:
  "invar s \<Longrightarrow> (case qrun enq deq s ops of (ins, outs, s') \<Rightarrow>
     contents s @ ins = outs @ contents s')"
proof (induction enq\<equiv>enq deq\<equiv>deq s ops rule: qrun.induct)
  case (2 s x ops)
  obtain ok s1 where e: "enq x s = (ok, s1)" by fastforce
  with 2(2) have inv: "invar s1" and c: "contents s1 = (if ok then contents s @ [x] else contents s)"
    using enq_invar [of s x] enq_contents [of s x] by simp_all
  obtain ins outs s2 where r: "qrun enq deq s1 ops = (ins, outs, s2)" by (metis prod_cases3)
  with 2(1) [OF e [symmetric] refl inv] c e show ?case by (auto split: if_splits)
next
  case (3 s ops)
  obtain v s1 where d: "deq s = (v, s1)" by fastforce
  with 3(2) have inv: "invar s1"
    and c: "contents s = (case v of None \<Rightarrow> [] | Some x \<Rightarrow> [x]) @ contents s1"
    using deq_invar [of s] deq_contents [of s] by simp_all
  obtain ins outs s2 where r: "qrun enq deq s1 ops = (ins, outs, s2)" by (metis prod_cases3)
  with 3(1) [OF d [symmetric] refl inv] c d show ?case by (auto split: option.splits)
qed simp

end

locale bounded_fifo = fifo invar contents room enq deq
  for invar :: "'s \<Rightarrow> bool" and contents :: "'s \<Rightarrow> 'a list" and room :: "'s \<Rightarrow> bool"
    and enq :: "'a \<Rightarrow> 's \<Rightarrow> bool \<times> 's" and deq :: "'s \<Rightarrow> 'a option \<times> 's" +
  fixes capacity :: "'s \<Rightarrow> nat"
  assumes within: "invar s \<Longrightarrow> length (contents s) \<le> capacity s"
    and room_iff: "invar s \<Longrightarrow> room s \<longleftrightarrow> length (contents s) < capacity s"
    and enq_capacity: "invar s \<Longrightarrow> capacity (snd (enq x s)) = capacity s"
    and deq_capacity: "invar s \<Longrightarrow> capacity (snd (deq s)) = capacity s"
begin

lemma enq_accepts_iff: "invar s \<Longrightarrow> fst (enq x s) \<longleftrightarrow> length (contents s) < capacity s"
  using room_iff enq_room enq_full by (cases "room s") auto

lemma enq_below:
  assumes "invar s" and "length (contents s) < capacity s"
  shows "\<exists>s'. enq x s = (True, s') \<and> invar s' \<and> contents s' = contents s @ [x] \<and> capacity s' = capacity s"
proof -
  have "room s" using assms room_iff by blast
  then have "fst (enq x s)" "invar (snd (enq x s))" "contents (snd (enq x s)) = contents s @ [x]"
    using enq_room [OF assms(1), of x] by simp_all
  then show ?thesis using enq_capacity [OF assms(1), of x] by (cases "enq x s") simp
qed

lemma deq_item:
  assumes "invar s" and "contents s = x # xs"
  shows "\<exists>s'. deq s = (Some x, s') \<and> invar s' \<and> contents s' = xs \<and> capacity s' = capacity s"
  using deq_some [OF assms] deq_capacity [OF assms(1)] by (cases "deq s") simp

lemma run_capacity: "invar s \<Longrightarrow> capacity (snd (snd (qrun enq deq s ops))) = capacity s"
proof (induction enq\<equiv>enq deq\<equiv>deq s ops rule: qrun.induct)
  case (2 s x ops)
  then show ?case using enq_invar [of s x] enq_capacity [of s x]
    by (auto simp: Let_def split: prod.splits)
next
  case (3 s ops)
  then show ?case using deq_invar [of s] deq_capacity [of s]
    by (auto simp: Let_def split: prod.splits)
qed simp

lemma run_bounded:
  "invar s \<Longrightarrow> length (contents (snd (snd (qrun enq deq s ops)))) \<le> capacity s"
  using within [OF run_invar] run_capacity by metis

end

section \<open>Simulation of runs\<close>

text \<open>
  Every concrete step from related states is matched by abstract steps. \<open>ok\<close> restricts the runs
  considered; it holds before a step if it holds after it.
\<close>

locale run_simulation =
  fixes cinit :: "'c \<Rightarrow> bool" and cstep :: "'c \<Rightarrow> 'c \<Rightarrow> bool" and ok :: "'c \<Rightarrow> bool"
    and areach :: "'c \<Rightarrow> 'a \<Rightarrow> bool" and related :: "'c \<Rightarrow> 'a \<Rightarrow> bool"
  assumes start: "cinit c0 \<Longrightarrow> \<exists>a. areach c0 a \<and> related c0 a"
    and earlier: "cstep c c' \<Longrightarrow> ok c' \<Longrightarrow> ok c"
    and match: "cstep c c' \<Longrightarrow> ok c' \<Longrightarrow> cinit c0 \<Longrightarrow> areach c0 a \<Longrightarrow> related c a \<Longrightarrow>
      \<exists>a'. areach c0 a' \<and> related c' a'"
begin

lemma reach_related:
  assumes "cstep\<^sup>*\<^sup>* c0 c" and "ok c" and "cinit c0"
  shows "\<exists>a. areach c0 a \<and> related c a"
  using assms
proof (induction rule: rtranclp_induct)
  case base
  then show ?case using start by blast
next
  case (step c c')
  then show ?case using earlier match by blast
qed

end

end
