(* ===== verification/LinkedQueue.thy ===== *)
theory LinkedQueue
  imports Fifo
begin

text \<open>
  \<open>queue.c\<close>, \<open>queue.h\<close>: a queue as a singly linked list with a count, a front and a rear pointer.
  Addresses are naturals with 0 for \<open>NULL\<close>; the nodes live in a store that \<open>malloc\<close> extends and
  \<open>free\<close> shrinks. The address that \<open>malloc\<close> returns is an argument of \<open>add_rear\<close>. \<open>None\<close> is
  undefined behaviour: a \<open>NULL\<close> or dangling pointer that is dereferenced, or \<open>count\<close> leaving
  \<open>int\<close>.
\<close>

type_synonym addr = nat

record 'v node =
  node_value :: 'v
  node_next :: addr

record queue =
  count :: int
  front :: addr
  rear :: addr

type_synonym 'v store = "addr \<rightharpoonup> 'v node"

definition create_queue :: queue where
  "create_queue = \<lparr>count = 0, front = 0, rear = 0\<rparr>"

definition add_rear :: "addr \<Rightarrow> 'v \<Rightarrow> queue \<times> 'v store \<Rightarrow> (queue \<times> 'v store) option" where
  "add_rear new_node v s =
     (case s of (q, h) \<Rightarrow>
        if new_node = 0 then None
        else let h1 = h(new_node \<mapsto> \<lparr>node_value = v, node_next = 0\<rparr>)
             in if \<not> is_int (count q + 1) then None
                else if count q = 0
                then Some (q\<lparr>front := new_node, rear := new_node, count := count q + 1\<rparr>, h1)
                else (case h1 (rear q) of
                        None \<Rightarrow> None
                      | Some r \<Rightarrow> Some (q\<lparr>rear := new_node, count := count q + 1\<rparr>,
                                        h1(rear q \<mapsto> r\<lparr>node_next := new_node\<rparr>))))"

definition remove_front :: "queue \<times> 'v store \<Rightarrow> ('v option \<times> queue \<times> 'v store) option" where
  "remove_front s =
     (case s of (q, h) \<Rightarrow>
        if count q = 0 then Some (None, q, h)
        else (case h (front q) of
                None \<Rightarrow> None
              | Some tmp \<Rightarrow> Some (Some (node_value tmp),
                                 q\<lparr>front := node_next tmp, count := count q - 1\<rparr>,
                                 h(front q := None))))"

text \<open>The loop of \<open>destroy_queue\<close>; \<open>None\<close> also stands for a loop that never ends.\<close>

partial_function (option) remove_all :: "queue \<times> 'v store \<Rightarrow> (queue \<times> 'v store) option" where
  "remove_all s =
     (if count (fst s) \<noteq> 0
      then Option.bind (remove_front s) (\<lambda>r. remove_all (snd r))
      else Some s)"

definition destroy_queue :: "queue \<times> 'v store \<Rightarrow> 'v store option" where
  "destroy_queue s = map_option snd (remove_all s)"

section \<open>The list that a queue represents\<close>

primrec chain :: "'v store \<Rightarrow> addr \<Rightarrow> addr list \<Rightarrow> bool" where
  "chain h p [] \<longleftrightarrow> p = 0"
| "chain h p (a # as) \<longleftrightarrow> p = a \<and> a \<noteq> 0 \<and> (\<exists>n. h a = Some n \<and> chain h (node_next n) as)"

primrec walk :: "'v store \<Rightarrow> addr \<Rightarrow> nat \<Rightarrow> addr list" where
  "walk h p 0 = []"
| "walk h p (Suc n) = (case h p of None \<Rightarrow> [] | Some nd \<Rightarrow> p # walk h (node_next nd) n)"

definition queue_cells :: "queue \<times> 'v store \<Rightarrow> addr list" where
  "queue_cells s = walk (snd s) (front (fst s)) (nat (count (fst s)))"

definition queue_items :: "queue \<times> 'v store \<Rightarrow> 'v list" where
  "queue_items s = map (\<lambda>a. node_value (the (snd s a))) (queue_cells s)"

definition cells_inv :: "queue \<times> 'v store \<Rightarrow> addr list \<Rightarrow> bool" where
  "cells_inv s as \<longleftrightarrow> chain (snd s) (front (fst s)) as \<and> distinct as \<and>
     count (fst s) = int (length as) \<and> (as \<noteq> [] \<longrightarrow> rear (fst s) = last as)"

definition queue_inv :: "queue \<times> 'v store \<Rightarrow> bool" where
  "queue_inv s \<longleftrightarrow> (\<exists>as. cells_inv s as) \<and> finite (dom (snd s))"

lemma chain_walk: "chain h p as \<Longrightarrow> walk h p (length as) = as"
  by (induction as arbitrary: p) auto

lemma chain_dom: "chain h p as \<Longrightarrow> set as \<subseteq> dom h \<and> 0 \<notin> set as"
  by (induction as arbitrary: p) auto

lemma chain_upd: "a \<notin> set as \<Longrightarrow> chain (h(a := x)) p as = chain h p as"
  by (induction as arbitrary: p) auto

lemma chain_snoc:
  assumes "chain h p (as @ [b])" and "a \<noteq> 0" and "node_next nb = a" and "node_next na = 0"
    and "h' a = Some na" and "h' b = Some nb" and "\<And>x. x \<in> set as \<Longrightarrow> h' x = h x"
  shows "chain h' p (as @ [b, a])"
  using assms by (induction as arbitrary: p) auto

lemma cells_inv_cells: "cells_inv s as \<Longrightarrow> queue_cells s = as"
  by (auto simp: cells_inv_def queue_cells_def dest: chain_walk)

lemma queue_invE:
  assumes "queue_inv s"
  obtains "cells_inv s (queue_cells s)" and "finite (dom (snd s))"
  using assms by (auto simp: queue_inv_def cells_inv_cells)

section \<open>Each operation\<close>

lemma create_queue_inv:
  "finite (dom h) \<Longrightarrow> queue_inv (create_queue, h)" "queue_items (create_queue, h) = []"
  by (auto simp: queue_inv_def cells_inv_def create_queue_def queue_items_def queue_cells_def
      intro!: exI [of _ "[]"])

lemma add_rear_cells:
  assumes inv: "cells_inv (q, h) as" and fresh: "a \<notin> dom h" "a \<noteq> 0" and cnt: "count q < INT_MAX"
  obtains q' h' where "add_rear a v (q, h) = Some (q', h')" "cells_inv (q', h') (as @ [a])"
    "map (\<lambda>x. node_value (the (h' x))) (as @ [a]) = map (\<lambda>x. node_value (the (h x))) as @ [v]"
    "dom h' = insert a (dom h)"
proof -
  let ?na = "\<lparr>node_value = v, node_next = 0\<rparr>"
  have ch: "chain h (front q) as" "distinct as" "count q = int (length as)"
    "as \<noteq> [] \<Longrightarrow> rear q = last as"
    using inv by (auto simp: cells_inv_def)
  have ok: "is_int (count q + 1)" using ch(3) cnt by (simp add: is_int_def INT_MIN_def)
  have nin: "a \<notin> set as" using chain_dom [OF ch(1)] fresh by auto
  show ?thesis
  proof (cases as rule: rev_cases)
    case Nil
    then show ?thesis
      using that [of "q\<lparr>front := a, rear := a, count := count q + 1\<rparr>" "h(a \<mapsto> ?na)"] ch ok fresh
      by (simp add: add_rear_def cells_inv_def Let_def)
  next
    case (snoc bs b)
    then have rear: "rear q = b" and bdom: "b \<in> dom h" "b \<noteq> a" and c0: "count q \<noteq> 0"
      using ch chain_dom [OF ch(1)] nin by auto
    then obtain nb where nb: "h b = Some nb" by auto
    let ?h' = "h(a \<mapsto> ?na, b \<mapsto> nb\<lparr>node_next := a\<rparr>)"
    have "add_rear a v (q, h) = Some (q\<lparr>rear := a, count := count q + 1\<rparr>, ?h')"
      using c0 ok fresh rear bdom nb by (simp add: add_rear_def Let_def)
    moreover have "chain ?h' (front q) (bs @ [b, a])"
      using ch nin fresh bdom snoc
      by (intro chain_snoc [where h = h and na = ?na and nb = "nb\<lparr>node_next := a\<rparr>"]) auto
    moreover have "map (\<lambda>x. node_value (the (?h' x))) (as @ [a]) = map (\<lambda>x. node_value (the (h x))) as @ [v]"
      using nin bdom nb by auto
    ultimately show ?thesis
      using that [of "q\<lparr>rear := a, count := count q + 1\<rparr>" ?h'] ch nin snoc nb
      by (auto simp: cells_inv_def)
  qed
qed

lemma remove_front_cells:
  assumes inv: "cells_inv (q, h) (a # as)"
  obtains q' where "remove_front (q, h) = Some (Some (node_value (the (h a))), q', h(a := None))"
    "cells_inv (q', h(a := None)) as"
proof -
  from inv obtain n where n: "h a = Some n" "front q = a" "chain h (node_next n) as" "a \<notin> set as"
    "distinct as" "count q = int (length as) + 1" "as \<noteq> [] \<longrightarrow> rear q = last as"
    by (auto simp: cells_inv_def)
  then show ?thesis
    using that [of "q\<lparr>front := node_next n, count := count q - 1\<rparr>"]
    by (auto simp: remove_front_def cells_inv_def chain_upd)
qed

lemma remove_all_cells:
  "cells_inv (q, h) as \<Longrightarrow> \<exists>q'. remove_all (q, h) = Some (q', h |` (- set as)) \<and> count q' = 0"
proof (induction as arbitrary: q h)
  case Nil
  then show ?case by (auto simp: cells_inv_def remove_all.simps)
next
  case (Cons a as)
  obtain q1 where r: "remove_front (q, h) = Some (Some (node_value (the (h a))), q1, h(a := None))"
    and inv: "cells_inv (q1, h(a := None)) as"
    using remove_front_cells [OF Cons.prems] by blast
  have "count q \<noteq> 0" using Cons.prems by (simp add: cells_inv_def)
  moreover have "(h(a := None)) |` (- set as) = h |` (- set (a # as))"
    by (auto simp: restrict_map_def fun_eq_iff)
  moreover have "\<exists>q'. remove_all (q1, h(a := None)) = Some (q', (h(a := None)) |` (- set as)) \<and>
      count q' = 0"
    using Cons.IH inv by blast
  ultimately show ?case using r
    by (simp only: remove_all.simps [of "(q, h)"]) simp
qed

text \<open>The same without the cells: what each operation does to the list.\<close>

lemma add_rear_items:
  assumes "queue_inv s" and "a \<notin> dom (snd s)" and "a \<noteq> 0" and "count (fst s) < INT_MAX"
  shows "\<exists>s'. add_rear a v s = Some s' \<and> queue_inv s' \<and> queue_items s' = queue_items s @ [v]"
proof -
  obtain q h where s: "s = (q, h)" by fastforce
  have inv: "cells_inv (q, h) (queue_cells (q, h))" and fin: "finite (dom h)"
    using assms(1) s by (auto elim: queue_invE)
  obtain q' h' where r: "add_rear a v (q, h) = Some (q', h')"
    "cells_inv (q', h') (queue_cells (q, h) @ [a])"
    "map (\<lambda>x. node_value (the (h' x))) (queue_cells (q, h) @ [a]) =
       map (\<lambda>x. node_value (the (h x))) (queue_cells (q, h)) @ [v]"
    "dom h' = insert a (dom h)"
    by (rule add_rear_cells [OF inv, of a v]) (use assms(2-4) s in simp_all)
  then have "queue_inv (q', h')" using fin by (auto simp: queue_inv_def)
  then show ?thesis using r(1,3) s cells_inv_cells [OF r(2)] by (simp add: queue_items_def)
qed

lemma remove_front_items:
  assumes "queue_inv s"
  shows "\<exists>s'. remove_front s = Some (case queue_items s of [] \<Rightarrow> None | x # xs \<Rightarrow> Some x, s') \<and>
    queue_inv s' \<and> queue_items s' = tl (queue_items s) \<and> (queue_items s = [] \<longrightarrow> s' = s)"
proof -
  obtain q h where s: "s = (q, h)" by fastforce
  have inv: "cells_inv (q, h) (queue_cells (q, h))" and fin: "finite (dom h)"
    using assms s by (auto elim: queue_invE)
  show ?thesis
  proof (cases "queue_cells (q, h)")
    case Nil
    then have "count q = 0" "queue_items s = []" using inv s by (simp_all add: cells_inv_def queue_items_def)
    then show ?thesis using assms s by (simp add: remove_front_def)
  next
    case (Cons a as)
    obtain q' where r: "remove_front (q, h) = Some (Some (node_value (the (h a))), q', h(a := None))"
      and inv': "cells_inv (q', h(a := None)) as"
      using remove_front_cells inv Cons by metis
    have "a \<notin> set as" using inv Cons by (simp add: cells_inv_def)
    then have "map (\<lambda>b. node_value (the ((h(a := None)) b))) as = map (\<lambda>b. node_value (the (h b))) as"
      by auto
    with r inv' fin Cons s show ?thesis
      by (auto simp: queue_inv_def queue_items_def cells_inv_cells)
  qed
qed

section \<open>The linked queue keeps the queue contract\<close>

text \<open>
  The contract is stated for one allocator, which returns a free address. \<open>queue_enq\<close> and \<open>queue_deq\<close> make
  \<open>add_rear\<close> and \<open>remove_front\<close> total for it: where these are undefined, which the invariant excludes
  (\<open>add_rear_items\<close>, \<open>remove_front_items\<close>), they refuse and leave the queue alone.
\<close>

definition fresh_addr :: "'v store \<Rightarrow> addr" where
  "fresh_addr h = Suc (Max (insert 0 (dom h)))"

lemma fresh_addr: "finite (dom h) \<Longrightarrow> fresh_addr h \<notin> dom h \<and> fresh_addr h \<noteq> 0"
proof -
  assume "finite (dom h)"
  then have "x \<le> Max (insert 0 (dom h))" if "x \<in> dom h" for x
    using that by (intro Max_ge) auto
  then show ?thesis by (fastforce simp: fresh_addr_def)
qed

definition queue_enq :: "'v \<Rightarrow> queue \<times> 'v store \<Rightarrow> bool \<times> queue \<times> 'v store" where
  "queue_enq v s =
     (case add_rear (fresh_addr (snd s)) v s of None \<Rightarrow> (False, s) | Some s' \<Rightarrow> (True, s'))"

definition queue_deq :: "queue \<times> 'v store \<Rightarrow> 'v option \<times> queue \<times> 'v store" where
  "queue_deq s = (case remove_front s of None \<Rightarrow> (None, s) | Some r \<Rightarrow> r)"

definition queue_room :: "queue \<times> 'v store \<Rightarrow> bool" where
  "queue_room s \<longleftrightarrow> count (fst s) < INT_MAX"

lemma queue_enq_room:
  assumes "queue_inv s" and "queue_room s"
  shows "fst (queue_enq v s) \<and> queue_inv (snd (queue_enq v s)) \<and>
    queue_items (snd (queue_enq v s)) = queue_items s @ [v]"
proof -
  have "finite (dom (snd s))" using assms(1) by (auto elim: queue_invE)
  from fresh_addr [OF this] obtain s' where "add_rear (fresh_addr (snd s)) v s = Some s'" "queue_inv s'"
    "queue_items s' = queue_items s @ [v]"
    using add_rear_items [OF assms(1), of "fresh_addr (snd s)" v] assms(2) by (auto simp: queue_room_def)
  then show ?thesis by (simp add: queue_enq_def)
qed

lemma queue_deq_some:
  assumes "queue_inv s" and "queue_items s = x # xs"
  shows "fst (queue_deq s) = Some x \<and> queue_inv (snd (queue_deq s)) \<and>
    queue_items (snd (queue_deq s)) = xs"
  using remove_front_items [OF assms(1)] assms(2) by (auto simp: queue_deq_def)

interpretation linked: fifo queue_inv queue_items queue_room queue_enq queue_deq
proof unfold_locales
  fix s :: "queue \<times> 'a store" and x
  assume "queue_inv s" "\<not> queue_room s"
  then show "queue_enq x s = (False, s)"
    by (cases s) (auto simp: queue_enq_def add_rear_def queue_room_def Let_def is_int_def)
next
  fix s :: "queue \<times> 'a store"
  assume "queue_inv s" "queue_items s = []"
  then show "queue_deq s = (None, s)"
    using remove_front_items [of s] by (auto simp: queue_deq_def)
qed (simp_all add: queue_enq_room queue_deq_some)

section \<open>Properties\<close>

lemma queue_count_items: "queue_inv s \<Longrightarrow> count (fst s) = int (length (queue_items s))"
  by (auto elim!: queue_invE simp: queue_items_def cells_inv_def)

text \<open>
  A run of \<open>add_rear\<close> and \<open>remove_front\<close> with the answers of the latter, undefined as soon as one of the
  calls is; \<open>alloc\<close> is \<open>malloc\<close>. \<open>list_run\<close> is the same on a list.
\<close>

fun queue_run :: "('v store \<Rightarrow> addr) \<Rightarrow> queue \<times> 'v store \<Rightarrow> 'v qop list \<Rightarrow>
    ('v option list \<times> queue \<times> 'v store) option" where
  "queue_run alloc s [] = Some ([], s)"
| "queue_run alloc s (Enq x # ops) = Option.bind (add_rear (alloc (snd s)) x s) (\<lambda>s1. queue_run alloc s1 ops)"
| "queue_run alloc s (Deq # ops) =
     Option.bind (remove_front s) (\<lambda>(r, s1). map_option (\<lambda>(rs, s2). (r # rs, s2)) (queue_run alloc s1 ops))"

fun list_run :: "'v list \<Rightarrow> 'v qop list \<Rightarrow> 'v option list \<times> 'v list" where
  "list_run xs [] = ([], xs)"
| "list_run xs (Enq x # ops) = list_run (xs @ [x]) ops"
| "list_run [] (Deq # ops) = (let (rs, ys) = list_run [] ops in (None # rs, ys))"
| "list_run (x # xs) (Deq # ops) = (let (rs, ys) = list_run xs ops in (Some x # rs, ys))"

lemma queue_run_list:
  assumes fresh: "\<And>h. finite (dom h) \<Longrightarrow> alloc h \<notin> dom h \<and> alloc h \<noteq> 0"
  shows "queue_inv s \<Longrightarrow> int (length (queue_items s)) + int (length ops) \<le> INT_MAX \<Longrightarrow>
    \<exists>s'. queue_run alloc s ops = Some (fst (list_run (queue_items s) ops), s') \<and> queue_inv s' \<and>
      queue_items s' = snd (list_run (queue_items s) ops)"
proof (induction ops arbitrary: s)
  case (Cons op ops)
  show ?case
  proof (cases op)
    case (Enq x)
    have "finite (dom (snd s))" using Cons.prems(1) by (auto elim: queue_invE)
    then obtain s1 where s1: "add_rear (alloc (snd s)) x s = Some s1" "queue_inv s1"
      "queue_items s1 = queue_items s @ [x]"
      using add_rear_items [OF Cons.prems(1), of "alloc (snd s)" x] fresh Cons.prems
      by (auto simp: queue_count_items)
    then show ?thesis using Cons.IH [OF s1(2)] Cons.prems(2) Enq by simp
  next
    case Deq
    obtain s1 where s1: "remove_front s = Some (case queue_items s of [] \<Rightarrow> None | x # xs \<Rightarrow> Some x, s1)"
      "queue_inv s1" "queue_items s1 = tl (queue_items s)"
      using remove_front_items [OF Cons.prems(1)] by blast
    then obtain s' where "queue_run alloc s1 ops = Some (fst (list_run (queue_items s1) ops), s')"
      "queue_inv s'" "queue_items s' = snd (list_run (queue_items s1) ops)"
    proof -
      have "int (length (queue_items s1)) + int (length ops) \<le> INT_MAX"
        using Cons.prems(2) s1(3) by simp
      from Cons.IH [OF s1(2) this] show ?thesis using that by blast
    qed
    then show ?thesis using Deq s1
      by (cases "queue_items s") (auto simp: Let_def case_prod_unfold)
  qed
qed simp

text \<open>
  On a well-formed queue whose count can still grow, \<open>add_rear\<close> with the address of a fresh
  node succeeds, keeps the queue well formed and puts the value at the rear of the list.
\<close>

theorem add_rear_correct:
  assumes "queue_inv (q, h)" and "a \<notin> dom h" and "a \<noteq> 0" and "count q < INT_MAX"
  shows "\<exists>s'. add_rear a v (q, h) = Some s' \<and> queue_inv s' \<and> queue_items s' = queue_items (q, h) @ [v]"
  using add_rear_items [OF assms(1)] assms(2-4) by simp

theorem add_rear_correct_witness:
  "\<exists>s'. add_rear 8 (5 :: int) (create_queue, Map.empty) = Some s' \<and> queue_items s' = [5]"
proof -
  have inv: "queue_inv (create_queue, Map.empty :: int store)"
    "queue_items (create_queue, Map.empty :: int store) = []"
    by (simp_all add: create_queue_inv)
  have "count create_queue < INT_MAX" by (simp add: create_queue_def INT_MAX_def)
  from add_rear_correct [OF inv(1) _ _ this, of 8 5] inv(2) show ?thesis by auto
qed

text \<open>
  C36: any sequence of insertions and removals on a new queue, with any allocator that returns
  addresses not in use and while the count stays an \<open>int\<close>, is defined throughout, gives removal by
  removal the answers of a list used first in, first out, the empty ones included, and leaves that list
  in the queue.
\<close>

theorem queue_run_fifo:
  assumes "finite (dom h)" and "int (length ops) \<le> INT_MAX"
    and "\<forall>h. finite (dom h) \<longrightarrow> alloc h \<notin> dom h \<and> alloc h \<noteq> 0"
  shows "\<exists>s'. queue_run alloc (create_queue, h) ops = Some (fst (list_run [] ops), s') \<and> queue_inv s' \<and>
    queue_items s' = snd (list_run [] ops)"
proof -
  have inv: "queue_inv (create_queue, h)" "queue_items (create_queue, h) = []"
    using create_queue_inv assms(1) by auto
  have "\<And>h. finite (dom h) \<Longrightarrow> alloc h \<notin> dom h \<and> alloc h \<noteq> 0" using assms(3) by blast
  from queue_run_list [OF this inv(1)] show ?thesis using inv(2) assms(2) by simp
qed

theorem queue_run_fifo_witness:
  "\<exists>s'. queue_run fresh_addr (create_queue, Map.empty) [Enq (7 :: int), Deq, Deq, Enq 8, Enq 9] =
     Some ([Some 7, None], s') \<and> queue_items s' = [8, 9]"
proof -
  have "\<forall>h :: int store. finite (dom h) \<longrightarrow> fresh_addr h \<notin> dom h \<and> fresh_addr h \<noteq> 0" using fresh_addr by blast
  from queue_run_fifo [OF _ _ this, of Map.empty "[Enq 7, Deq, Deq, Enq 8, Enq 9]"] show ?thesis
    by (auto simp: INT_MAX_def)
qed

text \<open>
  \<open>destroy_queue\<close> ends, and frees the nodes of the queue and nothing else.
\<close>

theorem destroy_queue_frees:
  assumes "queue_inv (q, h)"
  shows "destroy_queue (q, h) = Some (h |` (- set (queue_cells (q, h))))"
proof -
  from assms have "cells_inv (q, h) (queue_cells (q, h))" by (auto elim: queue_invE)
  from remove_all_cells [OF this] show ?thesis by (auto simp: destroy_queue_def)
qed

theorem destroy_queue_frees_witness:
  "destroy_queue (\<lparr>count = 1, front = 8, rear = 8\<rparr>, [8 \<mapsto> \<lparr>node_value = 5 :: int, node_next = 0\<rparr>]) =
     Some Map.empty"
proof -
  have "queue_inv (\<lparr>count = 1, front = 8, rear = 8\<rparr>, [8 \<mapsto> \<lparr>node_value = 5 :: int, node_next = 0\<rparr>])"
    by (auto simp: queue_inv_def cells_inv_def intro!: exI [of _ "[8]"])
  from destroy_queue_frees [OF this] show ?thesis
    by (simp add: queue_cells_def restrict_map_def fun_eq_iff)
qed

end
