(* ===== verification/PriorityQueue.thy ===== *)
theory PriorityQueue
  imports Prelude
begin

text \<open>
  \<open>priority_queue.c\<close>: a binary heap in an array, the root at index 1. A priority is a 32-bit word:
  \<open>PQ_push\<close> takes it as \<open>unsigned int\<close> and its comparison is unsigned (the stored \<open>int\<close> is
  converted), \<open>PQ_pop\<close> compares the stored \<open>int\<close>s signed. \<open>len\<close> and \<open>size\<close> are never negative and
  are naturals, with the \<open>int\<close> overflows of the code tested. The array is a function with the bound
  \<open>size\<close>; the cells that \<open>realloc\<close> adds are arbitrary. \<open>None\<close> is an access outside the array or an
  overflow.
\<close>

record 'd pnode =
  priority :: "32 word"
  pdata :: 'd

record 'd heap =
  nodes :: "nat \<Rightarrow> 'd pnode"
  heap_len :: nat
  heap_size :: nat

abbreviation sprio :: "'d pnode \<Rightarrow> int" where
  "sprio n \<equiv> sint (priority n)"

definition create_PQ :: "(nat \<Rightarrow> 'd pnode) \<Rightarrow> 'd heap" where
  "create_PQ junk = \<lparr>nodes = junk, heap_len = 0, heap_size = 0\<rparr>"

function push_loop :: "nat \<Rightarrow> 32 word \<Rightarrow> (nat \<Rightarrow> 'd pnode) \<Rightarrow> nat
    \<Rightarrow> ((nat \<Rightarrow> 'd pnode) \<times> nat) option" where
  "push_loop sz p ns i =
     (let j = i div 2
      in if \<not> i < sz then None
         else if 1 < i \<and> p < priority (ns j) then push_loop sz p (ns(i := ns j)) j
         else Some (ns, i))"
  by pat_completeness auto
termination
  by (relation "measure (\<lambda>(sz, p, ns, i). i)") auto

definition PQ_push :: "'d heap \<Rightarrow> 32 word \<Rightarrow> 'd \<Rightarrow> 'd heap option" where
  "PQ_push h p d =
     (let sz = (if heap_len h + 1 \<ge> heap_size h
                then (if heap_size h \<noteq> 0 then heap_size h * 2 else 4) else heap_size h)
      in if INT_MAX < int sz then None
         else case push_loop sz p (nodes h) (heap_len h + 1) of
           None \<Rightarrow> None
         | Some (ns, i) \<Rightarrow>
             Some \<lparr>nodes = ns(i := \<lparr>priority = p, pdata = d\<rparr>), heap_len = heap_len h + 1,
                   heap_size = sz\<rparr>)"

definition min_child :: "(nat \<Rightarrow> 'd pnode) \<Rightarrow> nat \<Rightarrow> nat \<Rightarrow> nat" where
  "min_child ns len i =
     (let j = 2 * i;
          k = (if j \<le> len \<and> sprio (ns j) < sprio (ns i) then j else i)
      in if j + 1 \<le> len \<and> sprio (ns (j + 1)) < sprio (ns k) then j + 1 else k)"

lemma min_child_cases:
  "min_child ns len i = i \<or> (min_child ns len i = 2 * i \<and> 2 * i \<le> len) \<or>
   (min_child ns len i = 2 * i + 1 \<and> 2 * i + 1 \<le> len)"
  by (simp add: min_child_def Let_def)

function pop_loop :: "nat \<Rightarrow> nat \<Rightarrow> (nat \<Rightarrow> 'd pnode) \<Rightarrow> nat
    \<Rightarrow> ((nat \<Rightarrow> 'd pnode) \<times> nat) option" where
  "pop_loop sz len ns i =
     (let k = min_child ns len i
      in if INT_MAX < int (2 * i + 1) \<or>
            \<not> i < sz \<or> (2 * i \<le> len \<and> \<not> 2 * i < sz) \<or> (2 * i + 1 \<le> len \<and> \<not> 2 * i + 1 < sz)
         then None
         else if k = i then Some (ns, i)
         else pop_loop sz len (ns(i := ns k)) k)"
  by pat_completeness auto
termination
proof (relation "measure (\<lambda>(sz, len, ns, i). Suc len - i)")
  fix sz len i :: nat and ns :: "nat \<Rightarrow> 'd pnode" and k
  assume "k = min_child ns len i" "k \<noteq> i"
  then show "((sz, len, ns(i := ns k), k), sz, len, ns, i) \<in> measure (\<lambda>(sz, len, ns, i). Suc len - i)"
    using min_child_cases [of ns len i] by auto
qed simp

declare push_loop.simps [simp del]

declare pop_loop.simps [simp del]

definition PQ_pop :: "'d heap \<Rightarrow> 'd heap option" where
  "PQ_pop h =
     (if heap_len h = 0 then Some h
      else if \<not> (1 < heap_size h \<and> heap_len h < heap_size h) then None
      else let ns = (nodes h)(1 := nodes h (heap_len h)); len = heap_len h - 1
           in case pop_loop (heap_size h) len ns 1 of
                None \<Rightarrow> None
              | Some (ns', i) \<Rightarrow>
                  Some (h\<lparr>nodes := ns'(i := ns' (len + 1)), heap_len := len\<rparr>))"

definition PQ_front :: "'d heap \<Rightarrow> 'd pnode option" where
  "PQ_front h = (if heap_len h = 0 then None else Some (nodes h 1))"

section \<open>Contents, heap order, bounds\<close>

definition pq_items :: "'d heap \<Rightarrow> 'd pnode multiset" where
  "pq_items h = image_mset (nodes h) (mset_set {1..heap_len h})"

definition heap_ordered :: "(nat \<Rightarrow> 'd pnode) \<Rightarrow> nat \<Rightarrow> bool" where
  "heap_ordered ns len \<longleftrightarrow> (\<forall>i \<in> {2..len}. sprio (ns (i div 2)) \<le> sprio (ns i))"

text \<open>
  The array is allocated beyond the last node and small enough for the \<open>int\<close> arithmetic, and
  priorities are below \<open>2 ^ 31\<close>.
\<close>

definition pq_inv :: "'d heap \<Rightarrow> bool" where
  "pq_inv h \<longleftrightarrow> (heap_len h = 0 \<and> heap_size h = 0) \<or> 
     (heap_len h < heap_size h \<and> 4 \<le> heap_size h \<and> heap_size h \<le> 2 ^ 30)"

definition prio_ok :: "32 word \<Rightarrow> bool" where
  "prio_ok p \<longleftrightarrow> 0 \<le> sint p"

lemma prio_ok_less: "prio_ok p \<Longrightarrow> prio_ok q \<Longrightarrow> p < q \<longleftrightarrow> sint p < sint q"
proof -
  assume "prio_ok p" "prio_ok q"
  then have "sint p = uint p" "sint q = uint q"
    by (simp_all add: prio_ok_def sint_nonneg)
  then show ?thesis by (simp add: word_less_def)
qed

lemma hole_move:
  assumes "finite S" "i \<in> S" "j \<in> S" "i \<noteq> j"
  shows "image_mset (ns(i := ns j)) (mset_set (S - {j})) = image_mset ns (mset_set (S - {i}))"
proof -
  have "mset_set (S - {j}) = add_mset i (mset_set (S - {i, j}))"
    "mset_set (S - {i}) = add_mset j (mset_set (S - {i, j}))"
    using mset_set.remove [of "S - {j}" i] mset_set.remove [of "S - {i}" j] assms
    by (simp_all add: insert_commute set_diff_eq ac_simps)
  moreover have "image_mset (ns(i := ns j)) (mset_set (S - {i, j})) = image_mset ns (mset_set (S - {i, j}))"
    by (rule image_mset_cong) (use assms(1) in auto)
  ultimately show ?thesis by simp
qed

lemma hole_fill:
  assumes "finite S" "i \<in> S"
  shows "image_mset (ns(i := x)) (mset_set S) = add_mset x (image_mset ns (mset_set (S - {i})))"
proof -
  have "mset_set S = add_mset i (mset_set (S - {i}))"
    using assms by (rule mset_set.remove)
  moreover have "image_mset (ns(i := x)) (mset_set (S - {i})) = image_mset ns (mset_set (S - {i}))"
    by (rule image_mset_cong) (use assms(1) in auto)
  ultimately show ?thesis by simp
qed

section \<open>PQ_push\<close>

lemma push_loop_items:
  "push_loop sz p ns i = Some (ns', i') \<Longrightarrow> 1 \<le> i \<Longrightarrow> i \<le> n \<Longrightarrow>
     1 \<le> i' \<and> i' \<le> n \<and>
     image_mset ns' (mset_set ({1..n} - {i'})) = image_mset ns (mset_set ({1..n} - {i}))"
proof (induction sz p ns i rule: push_loop.induct)
  case (1 sz p ns i)
  show ?case
  proof (cases "1 < i \<and> p < priority (ns (i div 2)) \<and> i < sz")
    case True
    then have "push_loop sz p (ns(i := ns (i div 2))) (i div 2) = Some (ns', i')"
      using 1(2) by (simp add: push_loop.simps [of sz p ns i] Let_def)
    then have "1 \<le> i' \<and> i' \<le> n \<and> image_mset ns' (mset_set ({1..n} - {i'})) =
        image_mset (ns(i := ns (i div 2))) (mset_set ({1..n} - {i div 2}))"
      using True 1(4) by (intro 1(1)) (auto simp: fun_upd_def)
    also have "image_mset (ns(i := ns (i div 2))) (mset_set ({1..n} - {i div 2})) =
        image_mset ns (mset_set ({1..n} - {i}))"
      using True 1(4) by (intro hole_move) auto
    finally show ?thesis .
  next
    case False
    then show ?thesis using 1(2-4) by (auto simp: push_loop.simps [of sz p ns i] Let_def split: if_splits)
  qed
qed

lemma push_loop_some: "i < sz \<Longrightarrow> \<exists>r. push_loop sz p ns i = Some r"
proof (induction sz p ns i rule: push_loop.induct)
  case (1 sz p ns i)
  show ?case
  proof (cases "1 < i \<and> p < priority (ns (i div 2))")
    case True
    then have "\<exists>r. push_loop sz p (ns(i := ns (i div 2))) (i div 2) = Some r"
      using 1(2) by (intro 1(1)) auto
    then show ?thesis using True 1(2) by (simp add: push_loop.simps [of sz p ns i] Let_def)
  next
    case False
    then show ?thesis using 1(2) by (auto simp: push_loop.simps [of sz p ns i] Let_def)
  qed
qed

text \<open>Heap order of the array with a hole at \<open>i\<close> into which \<open>p\<close> will go.\<close>

definition hole_ordered :: "(nat \<Rightarrow> 'd pnode) \<Rightarrow> nat \<Rightarrow> nat \<Rightarrow> int \<Rightarrow> bool" where
  "hole_ordered ns n i p \<longleftrightarrow>
     (\<forall>k \<in> {2..n}. k \<noteq> i \<longrightarrow> k div 2 \<noteq> i \<longrightarrow> sprio (ns (k div 2)) \<le> sprio (ns k)) \<and>
     (\<forall>k \<in> {2..n}. k div 2 = i \<longrightarrow> p \<le> sprio (ns k) \<and>
        (2 \<le> i \<longrightarrow> sprio (ns (i div 2)) \<le> sprio (ns k)))"

lemma hole_ordered_up:
  assumes "hole_ordered ns n i p" "2 \<le> i" "i \<le> n" "p \<le> sprio (ns (i div 2))"
  shows "hole_ordered (ns(i := ns (i div 2))) n (i div 2) p"
proof -
  have ne: "k div 2 \<noteq> k" if "2 \<le> k" for k :: nat using that by auto
  have 1: "sprio (ns (k div 2)) \<le> sprio (ns k)" if "k \<in> {2..n}" "k \<noteq> i" "k div 2 \<noteq> i" for k
    using assms(1) that by (simp add: hole_ordered_def)
  have 2: "sprio (ns (i div 2)) \<le> sprio (ns k)" if "k \<in> {2..n}" "k div 2 = i" for k
    using assms(1,2) that by (simp add: hole_ordered_def)
  have 3: "sprio (ns (i div 2 div 2)) \<le> sprio (ns (i div 2))" if "2 \<le> i div 2"
    using that assms(2,3) by (intro 1) auto
  let ?ns = "ns(i := ns (i div 2))"
  have "sprio (?ns (k div 2)) \<le> sprio (?ns k)"
    if k: "k \<in> {2..n}" "k \<noteq> i div 2" "k div 2 \<noteq> i div 2" for k
    using k 1 [of k] 2 [of k] by (cases "k div 2 = i") auto
  moreover have "p \<le> sprio (?ns k) \<and> (2 \<le> i div 2 \<longrightarrow> sprio (?ns (i div 2 div 2)) \<le> sprio (?ns k))"
    if k: "k \<in> {2..n}" "k div 2 = i div 2" for k
  proof (cases "k = i")
    case True
    then show ?thesis using assms(4) 3 by auto
  next
    case False
    have "i div 2 \<noteq> i" "i div 2 div 2 \<noteq> i" using assms(2) by auto
    then have "sprio (ns (i div 2)) \<le> sprio (ns k)"
      using 1 [of k] False k assms(2) by auto
    then show ?thesis using assms(4) 3 False \<open>i div 2 div 2 \<noteq> i\<close> by auto
  qed
  ultimately show ?thesis by (simp add: hole_ordered_def)
qed

lemma push_loop_ordered:
  assumes "push_loop sz p ns i = Some (ns', i')" and "1 \<le> i" "i \<le> n"
    and "hole_ordered ns n i (sint p)" and "prio_ok p"
    and "\<forall>k \<in> {1..n}. k \<noteq> i \<longrightarrow> prio_ok (priority (ns k))"
  shows "heap_ordered (ns'(i' := \<lparr>priority = p, pdata = d\<rparr>)) n"
  using assms
proof (induction sz p ns i rule: push_loop.induct)
  case (1 sz p ns i)
  have ok: "prio_ok (priority (ns (i div 2)))" if "1 < i"
    using that 1(4) by (intro 1(7) [rule_format]) auto
  show ?case
  proof (cases "1 < i \<and> p < priority (ns (i div 2)) \<and> i < sz")
    case True
    then have rec: "push_loop sz p (ns(i := ns (i div 2))) (i div 2) = Some (ns', i')"
      using 1(2) by (simp add: push_loop.simps [of sz p ns i] Let_def)
    have "sint p \<le> sprio (ns (i div 2))"
      using True ok prio_ok_less [OF 1(6), of "priority (ns (i div 2))"] by simp
    then have "hole_ordered (ns(i := ns (i div 2))) n (i div 2) (sint p)"
      using hole_ordered_up [OF 1(5)] True 1(4) by simp
    moreover have "\<forall>k \<in> {1..n}. k \<noteq> i div 2 \<longrightarrow> prio_ok (priority ((ns(i := ns (i div 2))) k))"
      using 1(7) ok True by auto
    ultimately show ?thesis using True 1(4,6) rec by (intro 1(1)) (auto simp: fun_upd_def)
  next
    case False
    then have r: "ns' = ns" "i' = i" "1 < i \<longrightarrow> \<not> p < priority (ns (i div 2))"
      using 1(2) by (auto simp: push_loop.simps [of sz p ns i] Let_def split: if_splits)
    have "sprio (ns (i div 2)) \<le> sint p" if "1 < i"
      using r(3) that ok prio_ok_less [OF 1(6), of "priority (ns (i div 2))"] by simp
    then show ?thesis using 1(3-5) r(1,2)
      by (fastforce simp: heap_ordered_def hole_ordered_def)
  qed
qed

lemma PQ_push_some: "pq_inv h \<Longrightarrow> heap_len h < 2 ^ 29 \<Longrightarrow> \<exists>h'. PQ_push h p d = Some h' \<and> pq_inv h' \<and> heap_len h' = heap_len h + 1"
proof -
  assume inv: "pq_inv h" and len: "heap_len h < 2 ^ 29"
  define sz where "sz = (if heap_len h + 1 \<ge> heap_size h
      then (if heap_size h \<noteq> 0 then heap_size h * 2 else 4) else heap_size h)"
  have sz: "heap_len h + 1 < sz" "4 \<le> sz" "sz \<le> 2 ^ 30" using inv len by (auto simp: sz_def pq_inv_def)
  then have int: "\<not> INT_MAX < int sz" by (simp add: INT_MAX_def)
  obtain ns i where "push_loop sz p (nodes h) (heap_len h + 1) = Some (ns, i)"
    using push_loop_some [OF sz(1)] by fastforce
  then show ?thesis using sz int unfolding PQ_push_def Let_def sz_def [symmetric]
    by (simp add: pq_inv_def)
qed

lemma PQ_push_items:
  assumes "PQ_push h p d = Some h'"
  shows "pq_items h' = add_mset \<lparr>priority = p, pdata = d\<rparr> (pq_items h)"
proof -
  let ?n = "heap_len h + 1"
  obtain ns i sz where loop: "push_loop sz p (nodes h) ?n = Some (ns, i)"
    and h': "h' = \<lparr>nodes = ns(i := \<lparr>priority = p, pdata = d\<rparr>), heap_len = ?n, heap_size = sz\<rparr>"
    using assms by (auto simp: PQ_push_def Let_def split: option.splits if_splits)
  have i: "1 \<le> i" "i \<le> ?n" and
    m: "image_mset ns (mset_set ({1..?n} - {i})) = image_mset (nodes h) (mset_set ({1..?n} - {?n}))"
    using push_loop_items [OF loop, of ?n] by auto
  have "{1..?n} - {?n} = {1..heap_len h}" by auto
  then show ?thesis using hole_fill [of "{1..?n}" i ns] i m h' by (simp add: pq_items_def)
qed

lemma PQ_push_ordered:
  assumes "PQ_push h p d = Some h'" and "heap_ordered (nodes h) (heap_len h)" and "prio_ok p"
    and "\<forall>x \<in># pq_items h. prio_ok (priority x)"
  shows "heap_ordered (nodes h') (heap_len h')"
proof -
  let ?n = "heap_len h + 1"
  obtain ns i sz where loop: "push_loop sz p (nodes h) ?n = Some (ns, i)"
    and h': "h' = \<lparr>nodes = ns(i := \<lparr>priority = p, pdata = d\<rparr>), heap_len = ?n, heap_size = sz\<rparr>"
    using assms(1) by (auto simp: PQ_push_def Let_def split: option.splits if_splits)
  have "hole_ordered (nodes h) ?n ?n (sint p)"
    using assms(2) by (auto simp: heap_ordered_def hole_ordered_def)
  moreover have "\<forall>k \<in> {1..?n}. k \<noteq> ?n \<longrightarrow> prio_ok (priority (nodes h k))"
    using assms(4) by (auto simp: pq_items_def)
  ultimately show ?thesis using push_loop_ordered [OF loop, of ?n d] assms(3) h' by simp
qed

section \<open>PQ_front and PQ_pop\<close>

lemma heap_ordered_root:
  assumes "heap_ordered ns len"
  shows "1 \<le> k \<Longrightarrow> k \<le> len \<Longrightarrow> sprio (ns 1) \<le> sprio (ns k)"
proof (induction k rule: less_induct)
  case (less k)
  show ?case
  proof (cases "k = 1")
    case False
    then have "sprio (ns (k div 2)) \<le> sprio (ns k)" using assms less by (simp add: heap_ordered_def)
    moreover have "sprio (ns 1) \<le> sprio (ns (k div 2))" using False less by (intro less.IH) auto
    ultimately show ?thesis by simp
  qed simp
qed

lemma pop_loop_items:
  "pop_loop sz len ns i = Some (ns', i') \<Longrightarrow> 1 \<le> i \<Longrightarrow> i \<le> len \<Longrightarrow>
     1 \<le> i' \<and> i' \<le> len \<and> (\<forall>k > len. ns' k = ns k) \<and>
     image_mset ns' (mset_set ({1..len} - {i'})) = image_mset ns (mset_set ({1..len} - {i}))"
proof (induction sz len ns i rule: pop_loop.induct)
  case (1 sz len ns i)
  define k where "k = min_child ns len i"
  show ?case
  proof (cases "k = i")
    case True
    then show ?thesis using 1(2-4)
      by (auto simp: pop_loop.simps [of sz len ns i] k_def [symmetric] Let_def split: if_splits)
  next
    case False
    then have k: "1 \<le> k" "k \<le> len" using min_child_cases [of ns len i] 1(3) by (auto simp: k_def)
    have rec: "pop_loop sz len (ns(i := ns k)) k = Some (ns', i')"
      and ok: "\<not> (INT_MAX < int (2 * i + 1) \<or> \<not> i < sz \<or> (2 * i \<le> len \<and> \<not> 2 * i < sz) \<or> (2 * i + 1 \<le> len \<and> \<not> 2 * i + 1 < sz))"
      using 1(2) False
      by (auto simp: pop_loop.simps [of sz len ns i] k_def [symmetric] Let_def split: if_splits)
    have "1 \<le> i' \<and> i' \<le> len \<and> (\<forall>l > len. ns' l = (ns(i := ns k)) l) \<and>
        image_mset ns' (mset_set ({1..len} - {i'})) =
        image_mset (ns(i := ns k)) (mset_set ({1..len} - {k}))"
      by (rule 1(1) [OF k_def ok]) (use False rec k in \<open>auto simp: fun_upd_def\<close>)
    moreover have "image_mset (ns(i := ns k)) (mset_set ({1..len} - {k})) =
        image_mset ns (mset_set ({1..len} - {i}))"
      using False k 1(3,4) by (intro hole_move) auto
    ultimately show ?thesis using 1(4) by simp
  qed
qed

lemma pop_loop_some: "i < sz \<Longrightarrow> len < sz \<Longrightarrow> sz \<le> 2 ^ 30 \<Longrightarrow> \<exists>r. pop_loop sz len ns i = Some r"
proof (induction sz len ns i rule: pop_loop.induct)
  case (1 sz len ns i)
  define k where "k = min_child ns len i"
  have ok: "\<not> (INT_MAX < int (2 * i + 1) \<or>
      \<not> i < sz \<or> (2 * i \<le> len \<and> \<not> 2 * i < sz) \<or> (2 * i + 1 \<le> len \<and> \<not> 2 * i + 1 < sz))"
    using 1(2-4) by (auto simp: INT_MAX_def)
  have eq: "pop_loop sz len ns i = (if k = i then Some (ns, i) else pop_loop sz len (ns(i := ns k)) k)"
    using ok by (subst pop_loop.simps) (auto simp: k_def Let_def)
  show ?case
  proof (cases "k = i")
    case False
    then have "k \<le> len" using min_child_cases [of ns len i] by (auto simp: k_def)
    then have "\<exists>r. pop_loop sz len (ns(i := ns k)) k = Some r"
      by (intro 1(1) [OF k_def ok False]) (use 1(3,4) in auto)
    then show ?thesis using False eq by simp
  qed (simp add: eq)
qed

lemma PQ_pop_some:
  assumes "pq_inv h"
  shows "\<exists>h'. PQ_pop h = Some h' \<and> pq_inv h' \<and> heap_len h' = heap_len h - 1"
proof (cases "heap_len h = 0")
  case True
  then show ?thesis using assms by (simp add: PQ_pop_def)
next
  case False
  then have sz: "heap_len h < heap_size h" "4 \<le> heap_size h" "heap_size h \<le> 2 ^ 30"
    using assms by (auto simp: pq_inv_def)
  obtain ns i where "pop_loop (heap_size h) (heap_len h - 1)
      ((nodes h)(1 := nodes h (heap_len h))) 1 = Some (ns, i)"
    using pop_loop_some [of 1 "heap_size h" "heap_len h - 1"] sz by fastforce
  then show ?thesis using False sz by (auto simp: PQ_pop_def Let_def pq_inv_def)
qed

lemma PQ_pop_items:
  assumes "PQ_pop h = Some h'" and "heap_len h \<noteq> 0"
  shows "pq_items h = add_mset (nodes h 1) (pq_items h')"
proof -
  define n where "n = heap_len h - 1"
  have n: "heap_len h = n + 1" using assms(2) by (simp add: n_def)
  let ?ns = "(nodes h)(1 := nodes h (n + 1))"
  obtain ns i where loop: "pop_loop (heap_size h) n ?ns 1 = Some (ns, i)"
    and h': "h' = h\<lparr>nodes := ns(i := ns (n + 1)), heap_len := n\<rparr>"
    using assms n by (auto simp: PQ_pop_def Let_def split: if_splits option.splits)
  have whole: "pq_items h = add_mset (nodes h 1) (image_mset (nodes h) (mset_set {2..n + 1}))"
  proof -
    have "{1..n + 1} = insert 1 {2..n + 1}" by auto
    then show ?thesis by (simp add: pq_items_def n)
  qed
  show ?thesis
  proof (cases "n = 0")
    case True
    then show ?thesis using whole h' by (simp add: pq_items_def)
  next
    case False
    then have i: "1 \<le> i" "i \<le> n" "ns (n + 1) = nodes h (n + 1)"
      and m: "image_mset ns (mset_set ({1..n} - {i})) = image_mset ?ns (mset_set ({1..n} - {1}))"
      using pop_loop_items [OF loop] by auto
    have "image_mset ?ns (mset_set {2..n}) = image_mset (nodes h) (mset_set {2..n})"
      by (rule image_mset_cong) auto
    moreover have "{1..n} - {1} = {2..n}" by auto
    moreover have "{2..n + 1} = insert (n + 1) {2..n}" using False by auto
    then have "image_mset (nodes h) (mset_set {2..n + 1}) =
        add_mset (nodes h (n + 1)) (image_mset (nodes h) (mset_set {2..n}))"
      by simp
    ultimately show ?thesis
      using whole m h' i hole_fill [of "{1..n}" i ns "ns (n + 1)"]
      by (simp add: pq_items_def del: fun_upd_apply)
  qed
qed

text \<open>
  On an ordered heap the loop of \<open>PQ_pop\<close> leaves after the first level: the node moved up is
  compared with its own children instead of the node that is to be placed.
\<close>

lemma PQ_pop_one_level:
  assumes inv: "pq_inv h" and ord: "heap_ordered (nodes h) (heap_len h)" and len: "2 \<le> heap_len h"
  defines "k \<equiv> min_child ((nodes h)(1 := nodes h (heap_len h))) (heap_len h - 1) 1"
  shows "PQ_pop h = Some (h\<lparr>nodes := (nodes h)(1 := nodes h k, k := nodes h (heap_len h)),
                            heap_len := heap_len h - 1\<rparr>)"
proof -
  let ?n = "heap_len h" and ?ns = "(nodes h)(1 := nodes h (heap_len h))"
  have sz: "?n < heap_size h" "4 \<le> heap_size h" "heap_size h \<le> 2 ^ 30" using inv len by (auto simp: pq_inv_def)
  have step: "pop_loop (heap_size h) (?n - 1) ns i =
      (let k = min_child ns (?n - 1) i in
       if k = i then Some (ns, i) else pop_loop (heap_size h) (?n - 1) (ns(i := ns k)) k)"
    if "i < heap_size h" for ns i
    using that sz by (subst pop_loop.simps) (auto simp: Let_def INT_MAX_def)
  have "pop_loop (heap_size h) (?n - 1) ?ns 1 = Some (if k = 1 then ?ns else ?ns(1 := ?ns k), k)"
  proof (cases "k = 1")
    case True
    then show ?thesis using step [of 1 ?ns] sz by (simp add: k_def Let_def)
  next
    case False
    then have k: "k = 2 \<or> k = 3" "k \<le> ?n - 1"
      using min_child_cases [of ?ns "?n - 1" 1] by (auto simp: k_def)
    have "min_child (?ns(1 := ?ns k)) (?n - 1) k = k"
    proof -
      have "sprio (nodes h k) \<le> sprio (nodes h (2 * k))" if "2 * k \<le> ?n - 1"
        using ord that k by (auto simp: heap_ordered_def dest: bspec [of _ _ "2 * k"])
      moreover have "sprio (nodes h k) \<le> sprio (nodes h (2 * k + 1))" if "2 * k + 1 \<le> ?n - 1"
        using ord that k by (auto simp: heap_ordered_def dest: bspec [of _ _ "2 * k + 1"])
      ultimately show ?thesis using k(1) by (auto simp: min_child_def Let_def)
    qed
    moreover have "k < heap_size h" using k sz by auto
    ultimately have "pop_loop (heap_size h) (?n - 1) (?ns(1 := ?ns k)) k = Some (?ns(1 := ?ns k), k)"
      using step [of k "?ns(1 := ?ns k)"] by simp
    moreover have "pop_loop (heap_size h) (?n - 1) ?ns 1 =
        pop_loop (heap_size h) (?n - 1) (?ns(1 := ?ns k)) k"
      using step [of 1 ?ns, folded k_def] False sz by simp
    ultimately show ?thesis using False by simp
  qed
  moreover have "k \<le> ?n - 1 \<or> k = 1" using min_child_cases [of ?ns "?n - 1" 1] by (auto simp: k_def)
  ultimately show ?thesis using sz len
    by (auto simp: PQ_pop_def Let_def fun_eq_iff)
qed

lemma min_child_least:
  assumes "k = min_child ns len i"
  shows "sprio (ns k) \<le> sprio (ns i)" "2 * i \<le> len \<Longrightarrow> sprio (ns k) \<le> sprio (ns (2 * i))"
    "2 * i + 1 \<le> len \<Longrightarrow> sprio (ns k) \<le> sprio (ns (2 * i + 1))"
  using assms by (auto simp: min_child_def Let_def)

lemma heap_ordered_child:
  assumes "heap_ordered ns len"
  shows "2 \<le> j \<Longrightarrow> j \<le> len \<Longrightarrow> \<exists>c \<in> {2, 3}. c \<le> j \<and> sprio (ns c) \<le> sprio (ns j)"
proof (induction j rule: less_induct)
  case (less j)
  show ?case
  proof (cases "j \<le> 3")
    case True
    then have "j \<in> {2, 3}" using less.prems(1) by auto
    then show ?thesis by (intro bexI [of _ j]) auto
  next
    case False
    then have "j div 2 < j" "2 \<le> j div 2" "j div 2 \<le> len" using less.prems(2) by simp_all
    then obtain c where "c \<in> {2, 3}" "c \<le> j div 2" "sprio (ns c) \<le> sprio (ns (j div 2))"
      using less.IH [of "j div 2"] by blast
    moreover have "sprio (ns (j div 2)) \<le> sprio (ns j)" using assms less.prems by (simp add: heap_ordered_def)
    ultimately show ?thesis by (intro bexI [of _ c]) auto
  qed
qed

text \<open>After the pop the order is broken at most between the moved node and its new children.\<close>

lemma PQ_pop_order:
  assumes inv: "pq_inv h" and ord: "heap_ordered (nodes h) (heap_len h)" and len: "2 \<le> heap_len h"
  shows "let k = min_child ((nodes h)(1 := nodes h (heap_len h))) (heap_len h - 1) 1 in k \<in> {1, 2, 3} \<and>
    (\<exists>h'. PQ_pop h = Some h' \<and> heap_len h' = heap_len h - 1 \<and>
      nodes h' = (nodes h)(1 := nodes h k, k := nodes h (heap_len h)) \<and>
      (\<forall>j \<in> {1..heap_len h'}. sprio (nodes h' 1) \<le> sprio (nodes h' j)) \<and>
      (heap_ordered (nodes h') (heap_len h') \<longleftrightarrow>
        (\<forall>c \<in> {2 * k, 2 * k + 1}. c < heap_len h \<longrightarrow> sprio (nodes h (heap_len h)) \<le> sprio (nodes h c))))"
proof -
  let ?ns = "(nodes h)(1 := nodes h (heap_len h))" and ?n = "heap_len h - 1"
  define k where "k = min_child ?ns ?n 1"
  define ns' where "ns' = (nodes h)(1 := nodes h k, k := nodes h (heap_len h))"
  note least = min_child_least [OF k_def]
  have k: "k = 1 \<or> k = 2 \<and> 2 \<le> ?n \<or> k = 3 \<and> 3 \<le> ?n" using min_child_cases [of ?ns ?n 1] by (auto simp: k_def)
  have pop: "PQ_pop h = Some (h\<lparr>nodes := ns', heap_len := ?n\<rparr>)"
    using PQ_pop_one_level [OF inv ord len] by (simp add: k_def ns'_def)
  have old: "sprio (nodes h (j div 2)) \<le> sprio (nodes h j)" if "2 \<le> j" "j \<le> heap_len h" for j
    using ord that by (simp add: heap_ordered_def)
  have root: "ns' 1 = ?ns k" using k by (auto simp: ns'_def)
  have two: "sprio (ns' 1) \<le> sprio (ns' j)" if "j \<in> {2, 3}" "j \<le> ?n" for j
    using that k least by (auto simp: root ns'_def split: if_splits)
  have below: "sprio (ns' (j div 2)) \<le> sprio (ns' j)" if "j div 2 \<noteq> k" "2 \<le> j" "j \<le> ?n" for j
  proof (cases "j \<le> 3")
    case True
    then have "j \<in> {2, 3}" "j div 2 = 1" using that(2) by auto
    then show ?thesis using two [of j] that(3) by simp
  next
    case False
    then have "j div 2 \<noteq> 1" "j \<noteq> 1" "j \<noteq> k" using k by auto
    then show ?thesis using that old [of j] by (simp add: ns'_def)
  qed
  have child: "ns' (j div 2) = nodes h (heap_len h) \<and> (j \<noteq> k \<longrightarrow> j \<noteq> 1 \<longrightarrow> ns' j = nodes h j)" if "j div 2 = k" for j
    using that by (simp add: ns'_def)
  have "heap_ordered ns' ?n \<longleftrightarrow> (\<forall>j \<in> {2..?n}. j div 2 = k \<longrightarrow> sprio (ns' (j div 2)) \<le> sprio (ns' j))"
    using below unfolding heap_ordered_def by (metis atLeastAtMost_iff)
  also have "\<dots> \<longleftrightarrow> (\<forall>j \<in> {2..?n}. j div 2 = k \<longrightarrow> sprio (nodes h (heap_len h)) \<le> sprio (nodes h j))"
  proof -
    have "j \<noteq> k \<and> j \<noteq> 1" if "j \<in> {2..?n}" "j div 2 = k" for j using that by auto
    then show ?thesis using child by auto
  qed
  also have "\<dots> \<longleftrightarrow> (\<forall>c \<in> {2 * k, 2 * k + 1}. c < heap_len h \<longrightarrow> sprio (nodes h (heap_len h)) \<le> sprio (nodes h c))"
  proof -
    have "j \<in> {2..?n} \<and> j div 2 = k \<longleftrightarrow> j \<in> {2 * k, 2 * k + 1} \<and> j < heap_len h" for j
      using k len by auto
    then show ?thesis by blast
  qed
  finally have iff: "heap_ordered ns' ?n \<longleftrightarrow>
    (\<forall>c \<in> {2 * k, 2 * k + 1}. c < heap_len h \<longrightarrow> sprio (nodes h (heap_len h)) \<le> sprio (nodes h c))" .
  have "sprio (ns' 1) \<le> sprio (ns' j)" if j: "1 \<le> j" "j \<le> ?n" for j
  proof (cases "j \<le> 3")
    case True
    then have "j = 1 \<or> j \<in> {2, 3}" using j by auto
    then show ?thesis using two [of j] j by blast
  next
    case False
    then have "j \<noteq> 1" "j \<noteq> k" using k by auto
    then have nj: "ns' j = nodes h j" by (simp add: ns'_def)
    obtain c where c: "c \<in> {2, 3}" "c \<le> j" "sprio (nodes h c) \<le> sprio (nodes h j)"
    proof -
      have "2 \<le> j" "j \<le> heap_len h" using j False by simp_all
      then show ?thesis using heap_ordered_child [OF ord] that by blast
    qed
    have "sprio (ns' 1) \<le> sprio (?ns c)" unfolding root using least c(1,2) j(2) by auto
    also have "?ns c = nodes h c" using c(1) by auto
    finally show ?thesis using c(3) nj by simp
  qed
  then show ?thesis using pop k iff unfolding k_def [symmetric] Let_def by (auto simp: ns'_def)
qed

section \<open>The bag contract\<close>

text \<open>
  What \<open>PQ_push\<close>, \<open>PQ_front\<close> and \<open>PQ_pop\<close> keep even though the order of removal is not sorted:
  the queue is a bag, \<open>pop\<close> removes exactly the node that \<open>front\<close> shows, nothing else is lost.
\<close>

fun drain :: "('q \<Rightarrow> 'a option) \<Rightarrow> ('q \<Rightarrow> 'q) \<Rightarrow> nat \<Rightarrow> 'q \<Rightarrow> 'a list" where
  "drain front pop 0 q = []"
| "drain front pop (Suc n) q =
     (case front q of None \<Rightarrow> [] | Some x \<Rightarrow> x # drain front pop n (pop q))"

locale bag =
  fixes invar :: "'q \<Rightarrow> bool"
    and items :: "'q \<Rightarrow> 'a multiset"
    and front :: "'q \<Rightarrow> 'a option"
    and pop :: "'q \<Rightarrow> 'q"
  assumes front_none: "invar q \<Longrightarrow> front q = None \<longleftrightarrow> items q = {#}"
    and pop_invar: "invar q \<Longrightarrow> invar (pop q)"
    and pop_items: "invar q \<Longrightarrow> front q = Some x \<Longrightarrow> items q = add_mset x (items (pop q))"
begin

lemma drain_all: "invar q \<Longrightarrow> size (items q) \<le> n \<Longrightarrow> mset (drain front pop n q) = items q"
proof (induction n arbitrary: q)
  case (Suc n)
  show ?case
  proof (cases "front q")
    case (Some x)
    then show ?thesis using Suc pop_invar pop_items [of q x] by simp
  next
    case None
    then show ?thesis using Suc.prems front_none [of q] by simp
  qed
qed simp

end

definition pop_or_same :: "'d heap \<Rightarrow> 'd heap" where
  "pop_or_same h = (case PQ_pop h of None \<Rightarrow> h | Some h' \<Rightarrow> h')"

interpretation pq: bag pq_inv pq_items PQ_front pop_or_same
proof unfold_locales
  fix h :: "'a heap"
  assume inv: "pq_inv h"
  have "mset_set {1..heap_len h} = {#} \<longleftrightarrow> heap_len h = 0"
    by (auto simp: mset_set_empty_iff)
  then show "PQ_front h = None \<longleftrightarrow> pq_items h = {#}"
    by (simp add: PQ_front_def pq_items_def)
  obtain h' where h': "PQ_pop h = Some h'" "pq_inv h'" using PQ_pop_some [OF inv] by blast
  then show "pq_inv (pop_or_same h)" by (simp add: pop_or_same_def)
  fix x
  assume "PQ_front h = Some x"
  then have "heap_len h \<noteq> 0" "x = nodes h 1" by (auto simp: PQ_front_def split: if_splits)
  then show "pq_items h = add_mset x (pq_items (pop_or_same h))"
    using PQ_pop_items [OF h'(1)] h' by (simp add: pop_or_same_def)
qed

fun push_all :: "'d heap \<Rightarrow> (32 word \<times> 'd) list \<Rightarrow> 'd heap option" where
  "push_all h [] = Some h"
| "push_all h ((p, d) # xs) = (case PQ_push h p d of None \<Rightarrow> None | Some h' \<Rightarrow> push_all h' xs)"

lemma push_all_items:
  "pq_inv h \<Longrightarrow> heap_len h + length xs \<le> 2 ^ 29 \<Longrightarrow> \<exists>h'. push_all h xs = Some h' \<and> pq_inv h' \<and>
     pq_items h' = pq_items h + mset (map (\<lambda>(p, d). \<lparr>priority = p, pdata = d\<rparr>) xs)"
proof (induction h xs rule: push_all.induct)
  case (2 h p d xs)
  obtain h1 where h1: "PQ_push h p d = Some h1" "pq_inv h1" "heap_len h1 = heap_len h + 1"
    using PQ_push_some [OF 2(2), of p d] 2(3) by auto
  with 2(1) [OF h1(1,2)] 2(3) PQ_push_items [OF h1(1)] show ?case by auto
qed simp

lemma create_PQ_empty [simp]:
  "pq_inv (create_PQ junk)" "pq_items (create_PQ junk) = {#}" "heap_len (create_PQ junk) = 0"
  by (simp_all add: create_PQ_def pq_inv_def pq_items_def)

section \<open>Properties\<close>

text \<open>
  C37: \<open>PQ_push\<close> never leaves the array, keeps the allocation invariant and the heap order for
  priorities below \<open>2 ^ 31\<close>, and adds exactly the pushed node.
\<close>

theorem pq_push_correct:
  assumes "pq_inv h" and "heap_ordered (nodes h) (heap_len h)"
    and "\<forall>x \<in># pq_items h. prio_ok (priority x)" and "prio_ok p" and "heap_len h < 2 ^ 29"
  shows "\<exists>h'. PQ_push h p d = Some h' \<and> pq_inv h' \<and> heap_ordered (nodes h') (heap_len h') \<and>
    pq_items h' = add_mset \<lparr>priority = p, pdata = d\<rparr> (pq_items h) \<and>
    (\<exists>x. PQ_front h' = Some x \<and> (\<forall>y \<in># pq_items h'. sprio x \<le> sprio y))"
proof -
  obtain h' where h': "PQ_push h p d = Some h'" "pq_inv h'" "heap_len h' = heap_len h + 1"
    using PQ_push_some [OF assms(1,5)] by blast
  have ord: "heap_ordered (nodes h') (heap_len h')"
    using PQ_push_ordered [OF h'(1)] assms by blast
  have "PQ_front h' = Some (nodes h' 1)" using h'(3) by (simp add: PQ_front_def)
  moreover have "\<forall>y \<in># pq_items h'. sprio (nodes h' 1) \<le> sprio y"
    using heap_ordered_root [OF ord] by (auto simp: pq_items_def)
  ultimately show ?thesis using h' ord PQ_push_items [OF h'(1)] by blast
qed

definition example_heap :: "nat heap" where
  "example_heap = \<lparr>nodes = (\<lambda>i. \<lparr>priority = word_of_nat (3 * i), pdata = i\<rparr>), heap_len = 2,
     heap_size = 4\<rparr>"

lemma example_heap_ok:
  "pq_inv example_heap" "heap_ordered (nodes example_heap) (heap_len example_heap)"
  "\<forall>x \<in># pq_items example_heap. prio_ok (priority x)"
proof -
  have two: "{1..2::nat} = {1, 2}" "{Suc 0..2} = {1, 2}" "{2..2::nat} = {2}" by auto
  show "pq_inv example_heap" by (simp add: example_heap_def pq_inv_def)
  show "heap_ordered (nodes example_heap) (heap_len example_heap)"
    by (simp add: example_heap_def heap_ordered_def two)
  show "\<forall>x \<in># pq_items example_heap. prio_ok (priority x)"
    by (simp add: example_heap_def pq_items_def two prio_ok_def)
qed

theorem pq_push_correct_witness:
  "\<exists>h'. PQ_push example_heap 1 7 = Some h' \<and> pq_inv h' \<and> heap_ordered (nodes h') (heap_len h') \<and>
    pq_items h' = add_mset \<lparr>priority = 1, pdata = 7\<rparr> (pq_items example_heap) \<and>
    (\<exists>x. PQ_front h' = Some x \<and> (\<forall>y \<in># pq_items h'. sprio x \<le> sprio y))"
  by (rule pq_push_correct [OF example_heap_ok]) (simp_all add: prio_ok_def example_heap_def)

text \<open>
  C38: everything pushed comes out exactly once: after any pushes onto a new queue, taking
  \<open>PQ_front\<close> and calling \<open>PQ_pop\<close> as often as there were pushes hands out the pushed nodes as a
  bag (no loss, no duplicate), never touching memory outside the array, for up to \<open>2 ^ 29\<close> nodes:
  beyond, the size of the array is no longer an \<open>int\<close>.
\<close>

theorem pq_drain_permutation:
  assumes "length xs \<le> 2 ^ 29"
  shows "\<exists>h. push_all (create_PQ junk) xs = Some h \<and>
     mset (drain PQ_front pop_or_same (length xs) h) =
     mset (map (\<lambda>(p, d). \<lparr>priority = p, pdata = d\<rparr>) xs)"
proof -
  obtain h where h: "push_all (create_PQ junk) xs = Some h" "pq_inv h"
    "pq_items h = mset (map (\<lambda>(p, d). \<lparr>priority = p, pdata = d\<rparr>) xs)"
    using push_all_items [of "create_PQ junk" xs] assms by auto
  then have "size (pq_items h) = length xs" by simp
  with pq.drain_all [OF h(2)] h show ?thesis by auto
qed

theorem pq_drain_permutation_witness:
  "\<exists>h. push_all (create_PQ (\<lambda>_. \<lparr>priority = 0, pdata = []\<rparr>)) [(3, ''a''), (1, ''b''), (2, ''c'')] = Some h \<and>
     mset (drain PQ_front pop_or_same 3 h) =
     {#\<lparr>priority = 3, pdata = ''a''\<rparr>, \<lparr>priority = 1, pdata = ''b''\<rparr>, \<lparr>priority = 2, pdata = ''c''\<rparr>#}"
  using pq_drain_permutation [of "[(3, ''a''), (1, ''b''), (2, ''c'')]" "\<lambda>_. \<lparr>priority = 0, pdata = []\<rparr>"] by (simp add: numeral_3_eq_3)

text \<open>
  C39: \<open>PQ_pop\<close> on an ordered heap takes the last node to the place of the root and exchanges it there with
  the child \<open>k\<close> of the root of least priority, or leaves it (\<open>k = 1\<close>) when no child has less. Nothing else moves. The new
  front has the least priority of what is left, and the order is kept exactly when the moved node has no
  child of less priority at its place \<open>k\<close>.
\<close>

theorem pq_pop_order:
  assumes "pq_inv h" and "heap_ordered (nodes h) (heap_len h)" and "2 \<le> heap_len h"
  shows "let k = min_child ((nodes h)(1 := nodes h (heap_len h))) (heap_len h - 1) 1 in k \<in> {1, 2, 3} \<and>
    (\<exists>h'. PQ_pop h = Some h' \<and> heap_len h' = heap_len h - 1 \<and>
      nodes h' = (nodes h)(1 := nodes h k, k := nodes h (heap_len h)) \<and>
      (\<forall>j \<in> {1..heap_len h'}. sprio (nodes h' 1) \<le> sprio (nodes h' j)) \<and>
      (heap_ordered (nodes h') (heap_len h') \<longleftrightarrow>
        (\<forall>c \<in> {2 * k, 2 * k + 1}. c < heap_len h \<longrightarrow> sprio (nodes h (heap_len h)) \<le> sprio (nodes h c))))"
  by (rule PQ_pop_order [OF assms])

text \<open>A heap whose order a pop breaks: the last node is moved above two lesser ones.\<close>

definition breaking_heap :: "nat heap" where
  "breaking_heap = \<lparr>nodes = (\<lambda>i. \<lparr>priority = word_of_nat ([0, 1, 2, 9, 3, 4, 10] ! i), pdata = i\<rparr>), heap_len = 6,
     heap_size = 8\<rparr>"

theorem pq_pop_order_witness:
  "\<exists>h'. PQ_pop breaking_heap = Some h' \<and> heap_len h' = 5 \<and> nodes h' 2 = nodes breaking_heap 6 \<and>
    nodes h' 1 = nodes breaking_heap 2 \<and> \<not> heap_ordered (nodes h') (heap_len h')"
proof -
  have sets: "{2..6::nat} = {2, 3, 4, 5, 6}" by auto
  have inv: "pq_inv breaking_heap" by (simp add: breaking_heap_def pq_inv_def)
  have ord: "heap_ordered (nodes breaking_heap) (heap_len breaking_heap)"
    by (simp add: breaking_heap_def heap_ordered_def sets)
  have k: "min_child ((nodes breaking_heap)(1 := nodes breaking_heap 6)) 5 1 = 2"
    by (simp add: breaking_heap_def min_child_def Let_def)
  have len: "heap_len breaking_heap = 6" by (simp add: breaking_heap_def)
  have "\<not> (\<forall>c \<in> {2 * 2, 2 * 2 + 1}. c < 6 \<longrightarrow> sprio (nodes breaking_heap 6) \<le> sprio (nodes breaking_heap c))"
    by (simp add: breaking_heap_def)
  then show ?thesis using pq_pop_order [OF inv ord] k len by (auto simp: Let_def)
qed

text \<open>
  The queue does not hand its nodes out in priority order: with the priorities 1 to 7 pushed
  in that order, the fronts are 1, 2, 3, 5, 4, 6, 7.
\<close>

theorem pq_pop_out_of_order:
  "map_option (\<lambda>h. map priority (drain PQ_front pop_or_same 7 h))
     (push_all (create_PQ junk) (map (\<lambda>p. (p, ())) [1, 2, 3, 4, 5, 6, 7])) =
   Some [1, 2, 3, 5, 4, 6, 7]"
  by code_simp

end
