(* ===== verification/Ring.thy ===== *)
theory Ring
  imports Fifo
begin

unbundle bit_operations_syntax

text \<open>
  Index arithmetic shared by the two ring buffers (\<open>lockfreeq.h\<close>, \<open>lfmpmc.h\<close>): 64-bit sequence
  numbers that wrap, a power-of-two size, and the slot \<open>seq & mask\<close>.
\<close>

definition slot :: "64 word \<Rightarrow> 64 word \<Rightarrow> nat" where
  "slot msk x = unat (x AND msk)"

text \<open>The constructors' assertion \<open>(_size != 0) && ((_size & (~_size + 1)) == _size)\<close>.\<close>

definition pow2_size :: "64 word \<Rightarrow> bool" where
  "pow2_size n \<longleftrightarrow> n \<noteq> 0 \<and> (n AND (NOT n + 1)) = n"

lemma slot_pow2: "slot (2 ^ k - 1) x = unat x mod 2 ^ k"
proof -
  have x: "x AND (2 ^ k - 1) = take_bit k x" by (simp only: take_bit_eq_mask mask_eq_exp_minus_1)
  have "unat (take_bit k x) = take_bit k (unat x)" by (rule unsigned_take_bit_eq)
  then show ?thesis by (simp only: slot_def x take_bit_eq_mod)
qed

lemma slot_bound: "slot (2 ^ k - 1) x < 2 ^ k"
  by (simp add: slot_pow2)

lemma slot_add: "k \<le> 64 \<Longrightarrow> slot (2 ^ k - 1) (x + of_nat i) = (unat x + i) mod 2 ^ k"
proof -
  assume k: "k \<le> 64"
  have "unat (x + of_nat i) = (unat x + i) mod 2 ^ 64"
    by (simp add: unat_word_ariths unat_of_nat mod_simps)
  moreover have "(2 ^ k :: nat) dvd 2 ^ 64" using k by (rule le_imp_power_dvd)
  ultimately show ?thesis by (simp add: slot_pow2 mod_mod_cancel)
qed

lemma add_mod_inj: "(a + i) mod m = (a + j) mod m \<Longrightarrow> i < m \<Longrightarrow> j < m \<Longrightarrow> i = (j :: nat)"
proof (induction i j rule: linorder_wlog)
  case (le i j)
  then have "m dvd (a + j) - (a + i)" by (metis mod_eq_dvd_iff_nat add_left_mono)
  then have "m dvd j - i" by simp
  then show ?case using le by (auto dest: dvd_imp_le)
qed simp

lemma slot_add_inj:
  "k \<le> 64 \<Longrightarrow> slot (2 ^ k - 1) (x + of_nat i) = slot (2 ^ k - 1) (x + of_nat j) \<Longrightarrow>
     i < 2 ^ k \<Longrightarrow> j < 2 ^ k \<Longrightarrow> i = j"
  by (rule add_mod_inj [of "unat x" i "2 ^ k" j]) (simp_all only: slot_add)

lemma unat_pow2: "k < 64 \<Longrightarrow> unat (2 ^ k :: 64 word) = 2 ^ k"
proof -
  assume "k < 64"
  then have "(2 ^ k :: nat) < 2 ^ 64" by (intro power_strict_increasing) auto
  moreover have "(2 ^ k :: 64 word) = of_nat (2 ^ k)" by simp
  ultimately show ?thesis by (simp only: unat_of_nat) simp
qed

lemma pow2_size_pow2: "k < 64 \<Longrightarrow> pow2_size (2 ^ k)"
proof -
  assume k: "k < 64"
  have "(2 ^ k :: 64 word) \<noteq> 0" using unat_pow2 [OF k] by (metis power_not_zero unat_0 zero_neq_numeral)
  moreover have "(NOT (2 ^ k) + 1 :: 64 word) = - (2 ^ k)" by (simp add: minus_eq_not_plus_1)
  moreover have "(2 ^ k :: 64 word) AND - (2 ^ k) = 2 ^ k"
    by (rule bit_word_eqI) (auto simp only: bit_and_iff bit_exp_iff bit_minus_exp_iff)
  ultimately show ?thesis by (simp add: pow2_size_def)
qed

end
