(* ===== verification/SpscQueue.thy ===== *)
theory SpscQueue
  imports Ring
begin

text \<open>
  \<open>lockfreeq.h\<close>: the single-producer single-consumer ring \<open>spsc_bounded_queue_t\<close>. \<open>_head\<close> counts
  insertions and \<open>_tail\<close> removals, both 64-bit and wrapping; the slot is the counter masked. The
  operations are modelled as one call after the other (\<open>SpscThreads\<close> interleaves their accesses);
  contents that were never written are
  arbitrary. The constructor's assertion is the option of \<open>spsc_new\<close>.
\<close>

record 'a spsc =
  sp_size :: "64 word"
  sp_mask :: "64 word"
  sp_buffer :: "nat \<Rightarrow> 'a"
  sp_head :: "64 word"
  sp_tail :: "64 word"

definition spsc_new :: "(nat \<Rightarrow> 'a) \<Rightarrow> 64 word \<Rightarrow> 'a spsc option" where
  "spsc_new junk n =
     (if pow2_size n
      then Some \<lparr>sp_size = n, sp_mask = n - 1, sp_buffer = junk, sp_head = 0, sp_tail = 0\<rparr>
      else None)"

definition spsc_enqueue :: "'a \<Rightarrow> 'a spsc \<Rightarrow> bool \<times> 'a spsc" where
  "spsc_enqueue input q =
     (let head = sp_head q
      in if ((sp_tail q - (head + 1)) AND sp_mask q) \<ge> 1
         then (True, q\<lparr>sp_buffer := (sp_buffer q)(slot (sp_mask q) head := input),
                       sp_head := head + 1\<rparr>)
         else (False, q))"

definition spsc_isempty :: "'a spsc \<Rightarrow> bool" where
  "spsc_isempty q =
     (let tail = sp_tail q in if ((sp_head q - tail) AND sp_mask q) \<ge> 1 then False else True)"

definition spsc_dequeue :: "'a spsc \<Rightarrow> 'a option \<times> 'a spsc" where
  "spsc_dequeue q =
     (let tail = sp_tail q
      in if ((sp_head q - tail) AND sp_mask q) \<ge> 1
         then (Some (sp_buffer q (slot (sp_mask q) (sp_tail q))), q\<lparr>sp_tail := tail + 1\<rparr>)
         else (None, q))"

section \<open>Contents and invariant\<close>

definition spsc_count :: "'a spsc \<Rightarrow> nat" where
  "spsc_count q = unat (sp_head q - sp_tail q)"

definition spsc_items :: "'a spsc \<Rightarrow> 'a list" where
  "spsc_items q =
     map (\<lambda>i. sp_buffer q (slot (sp_mask q) (sp_tail q + of_nat i))) [0..<spsc_count q]"

definition spsc_inv :: "'a spsc \<Rightarrow> bool" where
  "spsc_inv q \<longleftrightarrow> (\<exists>k < 64. sp_size q = 2 ^ k) \<and> sp_mask q = sp_size q - 1 \<and>
     spsc_count q < unat (sp_size q)"

definition spsc_capacity :: "'a spsc \<Rightarrow> nat" where
  "spsc_capacity q = unat (sp_size q) - 1"

definition spsc_room :: "'a spsc \<Rightarrow> bool" where
  "spsc_room q \<longleftrightarrow> spsc_count q < spsc_capacity q"

lemma ge1_slot: "(x AND m) \<ge> 1 \<longleftrightarrow> slot m x \<noteq> 0"
  by (simp add: slot_def unat_eq_zero linorder_class.not_less [symmetric] word_less_1)

lemma head_eq: "sp_head q = sp_tail q + of_nat (spsc_count q)"
  by (simp add: spsc_count_def)

lemma used_slots:
  assumes "k < 64" "spsc_count q < 2 ^ k"
  shows "slot (2 ^ k - 1) (sp_head q - sp_tail q) = spsc_count q"
  using assms by (simp add: slot_pow2 spsc_count_def)

lemma free_slots:
  assumes k: "k < 64" and n: "n < 2 ^ k" and h: "h - t = (of_nat n :: 64 word)"
  shows "slot (2 ^ k - 1) (t - (h + 1)) = 2 ^ k - 1 - n"
proof -
  have dv: "(2 ^ k :: nat) dvd 2 ^ 64" using k by (intro le_imp_power_dvd) simp
  have lt: "(2 ^ k :: nat) < 2 ^ 64" using k by (intro power_strict_increasing) auto
  have "t - (h + 1) = of_nat (2 ^ 64 - (n + 1))"
  proof -
    have "of_nat (2 ^ 64 - (n + 1)) = (of_nat (2 ^ 64) - of_nat (n + 1) :: 64 word)"
      using lt n by (intro of_nat_diff) simp
    also have "(of_nat (2 ^ 64) :: 64 word) = 0" by simp
    finally show ?thesis using h by (simp add: algebra_simps)
  qed
  then have "unat (t - (h + 1)) = 2 ^ 64 - (n + 1)" by (simp add: unat_of_nat)
  moreover obtain c where c: "(2 ^ 64 :: nat) = 2 ^ k * c" using dv by auto
  moreover have "c \<noteq> 0" using c by (cases c) auto
  then have "2 ^ k * c - (n + 1) = (2 ^ k - 1 - n) + 2 ^ k * (c - 1)"
    using n by (cases c) (auto simp: algebra_simps)
  then have "(2 ^ k * c - (n + 1)) mod 2 ^ k = (2 ^ k - 1 - n) mod 2 ^ k"
    by simp
  ultimately show ?thesis using n by (simp only: slot_pow2) simp
qed

lemma spsc_invE:
  assumes "spsc_inv q"
  obtains k where "k < 64" "sp_size q = 2 ^ k" "sp_mask q = 2 ^ k - 1" "spsc_count q < 2 ^ k"
    "spsc_capacity q = 2 ^ k - 1"
  using assms by (auto simp: spsc_inv_def spsc_capacity_def unat_pow2)

lemma spsc_new_inv:
  "k < 64 \<Longrightarrow> \<exists>q. spsc_new junk (2 ^ k) = Some q \<and> spsc_inv q \<and> spsc_items q = [] \<and>
     spsc_capacity q = 2 ^ k - 1"
  by (auto simp: spsc_new_def pow2_size_pow2 spsc_inv_def spsc_count_def spsc_items_def
      unat_pow2 spsc_capacity_def)

lemma spsc_enqueue_room:
  assumes "spsc_inv q" and "spsc_room q"
  shows "fst (spsc_enqueue x q) \<and> spsc_inv (snd (spsc_enqueue x q)) \<and>
    spsc_items (snd (spsc_enqueue x q)) = spsc_items q @ [x] \<and>
    sp_size (snd (spsc_enqueue x q)) = sp_size q"
proof -
  obtain k where k: "k < 64" "sp_size q = 2 ^ k" "sp_mask q = 2 ^ k - 1" "spsc_count q < 2 ^ k"
    "spsc_capacity q = 2 ^ k - 1" using assms(1) by (rule spsc_invE)
  let ?n = "spsc_count q"
  have n: "?n + 1 < 2 ^ k" using assms(2) k by (simp add: spsc_room_def)
  have lt: "(2 ^ k :: nat) < 2 ^ 64" using k by (intro power_strict_increasing) auto
  let ?q = "q\<lparr>sp_buffer := (sp_buffer q)(slot (sp_mask q) (sp_head q) := x), sp_head := sp_head q + 1\<rparr>"
  have enq: "spsc_enqueue x q = (True, ?q)"
    using n k free_slots [OF k(1,4), of "sp_head q" "sp_tail q"] head_eq [of q]
    by (simp add: spsc_enqueue_def Let_def ge1_slot)
  have "sp_head q + 1 - sp_tail q = of_nat (Suc ?n)" using head_eq [of q] by simp
  then have cnt: "spsc_count ?q = Suc ?n"
    using n lt by (simp add: spsc_count_def unat_of_nat del: of_nat_Suc)
  have other: "slot (sp_mask q) (sp_tail q + of_nat i) \<noteq> slot (sp_mask q) (sp_head q)"
    if "i < ?n" for i
    using slot_add_inj [of k "sp_tail q" i ?n] that k head_eq [of q] by auto
  have "spsc_items ?q = spsc_items q @ [x]"
    using other by (auto simp: spsc_items_def cnt head_eq [of q, symmetric])
  then show ?thesis using enq cnt n k by (auto simp: spsc_inv_def unat_pow2)
qed

lemma spsc_dequeue_some:
  assumes "spsc_inv q" and "spsc_items q = x # xs"
  shows "fst (spsc_dequeue q) = Some x \<and> spsc_inv (snd (spsc_dequeue q)) \<and>
    spsc_items (snd (spsc_dequeue q)) = xs"
proof -
  obtain k where k: "k < 64" "sp_size q = 2 ^ k" "sp_mask q = 2 ^ k - 1" "spsc_count q < 2 ^ k"
    using assms(1) by (rule spsc_invE)
  obtain n where n: "spsc_count q = Suc n"
    using assms(2) by (cases "spsc_count q") (auto simp: spsc_items_def)
  have lt: "(2 ^ k :: nat) < 2 ^ 64" using k by (intro power_strict_increasing) auto
  let ?q = "q\<lparr>sp_tail := sp_tail q + 1\<rparr>"
  have deq: "spsc_dequeue q = (Some (sp_buffer q (slot (sp_mask q) (sp_tail q))), ?q)"
    using k used_slots [OF k(1,4)] n by (simp add: spsc_dequeue_def Let_def ge1_slot)
  have "sp_head q - (sp_tail q + 1) = of_nat n" using head_eq [of q] n by simp
  then have cnt: "spsc_count ?q = n" using k(4) n lt by (simp add: spsc_count_def unat_of_nat)
  have "spsc_items q = sp_buffer q (slot (sp_mask q) (sp_tail q)) # spsc_items ?q"
    unfolding spsc_items_def n cnt by (subst map_upt_Suc_tail) (simp add: ac_simps)
  then show ?thesis using deq assms(2) cnt n k by (auto simp: spsc_inv_def unat_pow2)
qed

interpretation spsc: bounded_fifo spsc_inv spsc_items spsc_room spsc_enqueue spsc_dequeue spsc_capacity
proof unfold_locales
  fix q :: "'a spsc" and x
  assume inv: "spsc_inv q"
  obtain k where k: "k < 64" "sp_size q = 2 ^ k" "sp_mask q = 2 ^ k - 1" "spsc_count q < 2 ^ k"
    "spsc_capacity q = 2 ^ k - 1" using inv by (rule spsc_invE)
  show "length (spsc_items q) \<le> spsc_capacity q" using k by (simp add: spsc_items_def)
  show "spsc_room q \<longleftrightarrow> length (spsc_items q) < spsc_capacity q"
    by (simp add: spsc_room_def spsc_items_def)
  show "spsc_capacity (snd (spsc_enqueue x q)) = spsc_capacity q"
    by (simp add: spsc_enqueue_def spsc_capacity_def Let_def)
  show "spsc_capacity (snd (spsc_dequeue q)) = spsc_capacity q"
    by (simp add: spsc_dequeue_def spsc_capacity_def Let_def)
  show "\<not> spsc_room q \<Longrightarrow> spsc_enqueue x q = (False, q)"
    using k free_slots [OF k(1,4), of "sp_head q" "sp_tail q"] head_eq [of q]
    by (simp add: spsc_enqueue_def Let_def ge1_slot spsc_room_def)
  show "spsc_items q = [] \<Longrightarrow> spsc_dequeue q = (None, q)"
    using k used_slots [OF k(1,4)] by (simp add: spsc_dequeue_def Let_def ge1_slot spsc_items_def)
qed (simp_all add: spsc_enqueue_room spsc_dequeue_some)

lemma spsc_isempty_iff: "spsc_inv q \<Longrightarrow> spsc_isempty q \<longleftrightarrow> spsc_items q = []"
  by (erule spsc_invE) (simp add: spsc_isempty_def Let_def ge1_slot used_slots spsc_items_def)

section \<open>Properties\<close>

text \<open>
  Whatever the calls, the ring hands out what it accepted, in that order, without loss or
  duplicate, and never holds more than \<open>size - 1\<close> items. The counters may wrap.
\<close>

theorem spsc_run_is_fifo:
  assumes "k < 64" and "spsc_new junk (2 ^ k) = Some q"
    and "qrun spsc_enqueue spsc_dequeue q ops = (ins, outs, q')"
  shows "ins = outs @ spsc_items q' \<and> length (spsc_items q') \<le> 2 ^ k - 1"
proof -
  have q: "spsc_inv q" "spsc_items q = []" "spsc_capacity q = 2 ^ k - 1"
    using spsc_new_inv [OF assms(1), of junk] assms(2) by auto
  show ?thesis using spsc.run_fifo [OF q(1), of ops] spsc.run_bounded [OF q(1), of ops] q assms(3)
    by simp
qed

theorem spsc_run_is_fifo_witness:
  "(11 :: nat) < 64 \<and>
   (case spsc_new (\<lambda>_. 0 :: nat) 2048 of None \<Rightarrow> False | Some q \<Rightarrow>
      (case qrun spsc_enqueue spsc_dequeue q [Enq 7, Deq, Deq, Enq 8] of (ins, outs, q') \<Rightarrow>
         ins = outs @ spsc_items q' \<and> length (spsc_items q') \<le> 2047))"
proof -
  obtain q where q: "spsc_new (\<lambda>_. 0 :: nat) (2 ^ 11) = Some q"
    using spsc_new_inv [of 11] by auto
  obtain ins outs q' where r: "qrun spsc_enqueue spsc_dequeue q [Enq 7, Deq, Deq, Enq 8] = (ins, outs, q')"
    by (metis prod_cases3)
  show ?thesis using spsc_run_is_fifo [OF _ q r] q r by simp
qed

text \<open>
  In every state the calls can reach, \<open>enqueue\<close> accepts exactly when fewer than \<open>size - 1\<close>
  items are queued, \<open>dequeue\<close> returns the oldest item or fails on the empty ring, and \<open>isempty\<close>
  tells which.
\<close>

theorem spsc_answers:
  assumes "k < 64" and "spsc_new junk (2 ^ k) = Some q"
    and "qrun spsc_enqueue spsc_dequeue q ops = (ins, outs, q')"
  shows "(fst (spsc_enqueue x q') \<longleftrightarrow> length (spsc_items q') < 2 ^ k - 1) \<and>
    fst (spsc_dequeue q') = (case spsc_items q' of [] \<Rightarrow> None | y # _ \<Rightarrow> Some y) \<and>
    (spsc_isempty q' \<longleftrightarrow> spsc_items q' = [])"
proof -
  have q: "spsc_inv q" "spsc_capacity q = 2 ^ k - 1"
    using spsc_new_inv [OF assms(1), of junk] assms(2) by auto
  then have q': "spsc_inv q'" "spsc_capacity q' = 2 ^ k - 1"
    using spsc.run_invar [OF q(1), of ops] spsc.run_capacity [OF q(1), of ops] assms(3) by auto
  have "fst (spsc_dequeue q') = (case spsc_items q' of [] \<Rightarrow> None | y # _ \<Rightarrow> Some y)"
    using spsc.deq_empty [OF q'(1)] spsc.deq_some [OF q'(1)] by (cases "spsc_items q'") auto
  then show ?thesis using spsc.enq_accepts_iff [OF q'(1), of x] spsc_isempty_iff [OF q'(1)] q'(2)
    by simp
qed

theorem spsc_answers_witness:
  "case spsc_new (\<lambda>_. 0 :: nat) 2048 of None \<Rightarrow> False | Some q \<Rightarrow>
     (case qrun spsc_enqueue spsc_dequeue q [Enq 7, Enq 8] of (ins, outs, q') \<Rightarrow>
       (fst (spsc_enqueue 9 q') \<longleftrightarrow> length (spsc_items q') < 2047) \<and>
       fst (spsc_dequeue q') = (case spsc_items q' of [] \<Rightarrow> None | y # _ \<Rightarrow> Some y) \<and>
       (spsc_isempty q' \<longleftrightarrow> spsc_items q' = []))"
proof -
  obtain q where q: "spsc_new (\<lambda>_. 0 :: nat) (2 ^ 11) = Some q"
    using spsc_new_inv [of 11] by auto
  obtain ins outs q' where r: "qrun spsc_enqueue spsc_dequeue q [Enq 7, Enq 8] = (ins, outs, q')"
    by (metis prod_cases3)
  show ?thesis using spsc_answers [OF _ q r, of 9] q r by simp
qed

end
