(* ===== verification/SpscThreads.thy ===== *)
theory SpscThreads
  imports SpscQueue
begin

text \<open>
  The ring of \<open>lockfreeq.h\<close> shared by one producer and one consumer. The load of the other thread's
  counter with the test on it, the access to the slot and the store of the own counter are steps of
  their own, and the steps of the two threads interleave freely. The interleaving is sequentially
  consistent. \<open>pushed\<close> and \<open>popped\<close> record the finished calls and do not influence any step.
\<close>

datatype 'a producer_pc = PStart | PSlot 'a "64 word" | PPublish "64 word"

datatype 'a consumer_pc = CStart | CSlot "64 word" | CRelease 'a "64 word"

record 'a spsc_system =
  shared :: "'a spsc"
  producer :: "'a producer_pc"
  consumer :: "'a consumer_pc"
  pushed :: "'a list"
  popped :: "'a list"

inductive spsc_step :: "'a spsc_system \<Rightarrow> 'a spsc_system \<Rightarrow> bool" where
  push_test: "producer s = PStart \<Longrightarrow> q = shared s \<Longrightarrow>
    ((sp_tail q - (sp_head q + 1)) AND sp_mask q) \<ge> 1 \<Longrightarrow>
    spsc_step s (s\<lparr>producer := PSlot x (sp_head q)\<rparr>)"
| push_full: "producer s = PStart \<Longrightarrow> q = shared s \<Longrightarrow>
    \<not> ((sp_tail q - (sp_head q + 1)) AND sp_mask q) \<ge> 1 \<Longrightarrow> spsc_step s s"
| push_write: "producer s = PSlot x h \<Longrightarrow> q = shared s \<Longrightarrow>
    spsc_step s (s\<lparr>shared := q\<lparr>sp_buffer := (sp_buffer q)(slot (sp_mask q) h := x)\<rparr>,
                   producer := PPublish h, pushed := pushed s @ [x]\<rparr>)"
| push_store: "producer s = PPublish h \<Longrightarrow>
    spsc_step s (s\<lparr>shared := (shared s)\<lparr>sp_head := h + 1\<rparr>, producer := PStart\<rparr>)"
| pop_test: "consumer s = CStart \<Longrightarrow> q = shared s \<Longrightarrow> ((sp_head q - sp_tail q) AND sp_mask q) \<ge> 1 \<Longrightarrow>
    spsc_step s (s\<lparr>consumer := CSlot (sp_tail q)\<rparr>)"
| pop_empty: "consumer s = CStart \<Longrightarrow> q = shared s \<Longrightarrow> \<not> ((sp_head q - sp_tail q) AND sp_mask q) \<ge> 1 \<Longrightarrow>
    spsc_step s s"
| pop_read: "consumer s = CSlot t \<Longrightarrow> q = shared s \<Longrightarrow>
    spsc_step s (s\<lparr>consumer := CRelease (sp_buffer q (slot (sp_mask q) (sp_tail q))) t\<rparr>)"
| pop_store: "consumer s = CRelease x t \<Longrightarrow>
    spsc_step s (s\<lparr>shared := (shared s)\<lparr>sp_tail := t + 1\<rparr>, consumer := CStart, popped := popped s @ [x]\<rparr>)"

definition spsc_start :: "'a spsc \<Rightarrow> 'a spsc_system" where
  "spsc_start q = \<lparr>shared = q, producer = PStart, consumer = CStart, pushed = [], popped = []\<rparr>"

inductive spsc_reachable :: "'a spsc \<Rightarrow> 'a spsc_system \<Rightarrow> bool" for q where
  init: "spsc_reachable q (spsc_start q)"
| step: "spsc_reachable q s \<Longrightarrow> spsc_step s s' \<Longrightarrow> spsc_reachable q s'"

section \<open>The slots\<close>

lemma test_room: "spsc_inv q \<Longrightarrow> ((sp_tail q - (sp_head q + 1)) AND sp_mask q) \<ge> 1 \<longleftrightarrow> spsc_room q"
proof (erule spsc_invE)
  fix k
  assume k: "k < 64" "sp_mask q = 2 ^ k - 1" "spsc_count q < 2 ^ k" "spsc_capacity q = 2 ^ k - 1"
  show ?thesis using k free_slots [OF k(1,3), of "sp_head q" "sp_tail q"] head_eq [of q]
    by (simp add: ge1_slot spsc_room_def) arith
qed

lemma test_items: "spsc_inv q \<Longrightarrow> ((sp_head q - sp_tail q) AND sp_mask q) \<ge> 1 \<longleftrightarrow> spsc_items q \<noteq> []"
  by (erule spsc_invE) (simp add: ge1_slot used_slots spsc_items_def)

text \<open>Writing the slot at \<open>_head\<close> changes none of the items; then the producer publishes it.\<close>

lemma write_slot:
  fixes q :: "'a spsc" and x :: 'a
  assumes inv: "spsc_inv q" and room: "spsc_room q"
  defines "q' \<equiv> q\<lparr>sp_buffer := (sp_buffer q)(slot (sp_mask q) (sp_head q) := x)\<rparr>"
  shows "spsc_inv q' \<and> spsc_room q' \<and> spsc_items q' = spsc_items q"
proof -
  obtain k where k: "k < 64" "sp_mask q = 2 ^ k - 1" "spsc_count q < 2 ^ k" using inv by (rule spsc_invE)
  have "slot (sp_mask q) (sp_tail q + of_nat i) \<noteq> slot (sp_mask q) (sp_head q)" if "i < spsc_count q" for i
    using slot_add_inj [of k "sp_tail q" i "spsc_count q"] that k head_eq [of q] by auto
  then have "spsc_items q' = spsc_items q" by (simp add: spsc_items_def q'_def spsc_count_def)
  then show ?thesis using inv room
    by (simp add: q'_def spsc_inv_def spsc_room_def spsc_count_def spsc_capacity_def)
qed

lemma publish_slot:
  assumes inv: "spsc_inv q" and room: "spsc_room q" and x: "sp_buffer q (slot (sp_mask q) (sp_head q)) = x"
  shows "spsc_inv (q\<lparr>sp_head := sp_head q + 1\<rparr>) \<and> spsc_items (q\<lparr>sp_head := sp_head q + 1\<rparr>) = spsc_items q @ [x]"
proof -
  have "snd (spsc_enqueue x q) = q\<lparr>sp_head := sp_head q + 1\<rparr>"
    using test_room [OF inv] room x by (auto simp: spsc_enqueue_def Let_def)
  then show ?thesis using spsc_enqueue_room [OF inv room, of x] by simp
qed

lemma release_slot:
  assumes inv: "spsc_inv q" and items: "spsc_items q = x # xs"
  shows "sp_buffer q (slot (sp_mask q) (sp_tail q)) = x"
    and "spsc_inv (q\<lparr>sp_tail := sp_tail q + 1\<rparr>)" and "spsc_items (q\<lparr>sp_tail := sp_tail q + 1\<rparr>) = xs"
proof -
  have "spsc_dequeue q = (Some (sp_buffer q (slot (sp_mask q) (sp_tail q))), q\<lparr>sp_tail := sp_tail q + 1\<rparr>)"
    using test_items [OF inv] items by (simp add: spsc_dequeue_def Let_def)
  then show "sp_buffer q (slot (sp_mask q) (sp_tail q)) = x" "spsc_inv (q\<lparr>sp_tail := sp_tail q + 1\<rparr>)"
    "spsc_items (q\<lparr>sp_tail := sp_tail q + 1\<rparr>) = xs"
    using spsc_dequeue_some [OF inv items] by simp_all
qed

lemma capacity_upd [simp]:
  "spsc_capacity (q\<lparr>sp_head := h\<rparr>) = spsc_capacity q" "spsc_capacity (q\<lparr>sp_tail := t\<rparr>) = spsc_capacity q"
  "spsc_capacity (q\<lparr>sp_buffer := b\<rparr>) = spsc_capacity q"
  by (simp_all add: spsc_capacity_def)

text \<open>The two ends are different slots while the ring is neither empty nor full.\<close>

lemma ends_differ:
  assumes inv: "spsc_inv q" and "spsc_items q \<noteq> []"
  shows "slot (sp_mask q) (sp_head q) \<noteq> slot (sp_mask q) (sp_tail q)"
proof -
  obtain k where k: "k < 64" "sp_mask q = 2 ^ k - 1" "spsc_count q < 2 ^ k" using inv by (rule spsc_invE)
  have "spsc_count q \<noteq> 0" using assms(2) by (simp add: spsc_items_def)
  then show ?thesis using slot_add_inj [of k "sp_tail q" "spsc_count q" 0] k head_eq [of q] by auto
qed

section \<open>The invariant\<close>

text \<open>What is written but not yet published.\<close>

definition pending :: "'a spsc_system \<Rightarrow> 'a list" where
  "pending s = (case producer s of
      PPublish h \<Rightarrow> [sp_buffer (shared s) (slot (sp_mask (shared s)) h)] | _ \<Rightarrow> [])"

definition producer_ok :: "'a spsc_system \<Rightarrow> bool" where
  "producer_ok s \<longleftrightarrow> (case producer s of
      PStart \<Rightarrow> True
    | PSlot x h \<Rightarrow> h = sp_head (shared s) \<and> spsc_room (shared s)
    | PPublish h \<Rightarrow> h = sp_head (shared s) \<and> spsc_room (shared s))"

definition consumer_ok :: "'a spsc_system \<Rightarrow> bool" where
  "consumer_ok s \<longleftrightarrow> (case consumer s of
      CStart \<Rightarrow> True
    | CSlot t \<Rightarrow> t = sp_tail (shared s) \<and> spsc_items (shared s) \<noteq> []
    | CRelease x t \<Rightarrow> t = sp_tail (shared s) \<and> (\<exists>xs. spsc_items (shared s) = x # xs))"

definition threads_inv :: "nat \<Rightarrow> 'a spsc_system \<Rightarrow> bool" where
  "threads_inv cap s \<longleftrightarrow> spsc_inv (shared s) \<and> spsc_capacity (shared s) = cap \<and>
     producer_ok s \<and> consumer_ok s \<and> pushed s = popped s @ spsc_items (shared s) @ pending s"

lemma room_iff_items: "spsc_room q \<longleftrightarrow> length (spsc_items q) < spsc_capacity q"
  by (simp add: spsc_room_def spsc_items_def)

lemma threads_inv_step: "spsc_step s s' \<Longrightarrow> threads_inv cap s \<Longrightarrow> threads_inv cap s'"
proof (induction rule: spsc_step.induct)
  case (push_test s q x)
  then show ?case
    by (cases "consumer s") (simp_all add: threads_inv_def producer_ok_def consumer_ok_def pending_def test_room)
next
  case (push_write s x h q)
  then have "spsc_inv q" "spsc_room q" "h = sp_head q" by (simp_all add: threads_inv_def producer_ok_def)
  with write_slot [OF this(1,2), of x] push_write show ?case
    by (cases "consumer s") (simp_all add: threads_inv_def producer_ok_def consumer_ok_def pending_def)
next
  case (push_store s h)
  let ?q = "shared s" and ?x = "sp_buffer (shared s) (slot (sp_mask (shared s)) h)"
  have "spsc_inv ?q" "spsc_room ?q" "h = sp_head ?q" using push_store by (simp_all add: threads_inv_def producer_ok_def)
  with publish_slot [OF this(1,2)] push_store show ?case
    by (cases "consumer s") (auto simp: threads_inv_def producer_ok_def consumer_ok_def pending_def)
next
  case (pop_test s q)
  then show ?case
    by (cases "producer s") (simp_all add: threads_inv_def producer_ok_def consumer_ok_def pending_def test_items)
next
  case (pop_read s t q)
  then have "spsc_inv q" "spsc_items q \<noteq> []" by (simp_all add: threads_inv_def consumer_ok_def)
  then show ?case using pop_read release_slot(1) [OF \<open>spsc_inv q\<close>]
    by (cases "spsc_items q"; cases "producer s") (auto simp: threads_inv_def producer_ok_def consumer_ok_def pending_def)
next
  case (pop_store s x t)
  let ?q = "shared s"
  obtain xs where i: "spsc_inv ?q" "t = sp_tail ?q" "spsc_items ?q = x # xs"
    using pop_store by (auto simp: threads_inv_def consumer_ok_def)
  have "spsc_room (?q\<lparr>sp_tail := t + 1\<rparr>)" if "spsc_room ?q"
    using that release_slot(3) [OF i(1,3)] i(2,3) by (simp add: room_iff_items)
  with release_slot(2,3) [OF i(1,3)] i pop_store show ?case
    by (cases "producer s") (simp_all add: threads_inv_def producer_ok_def consumer_ok_def pending_def)
qed simp_all

lemma threads_inv_reachable: "spsc_reachable q s \<Longrightarrow> threads_inv cap (spsc_start q) \<Longrightarrow> threads_inv cap s"
  by (induction rule: spsc_reachable.induct) (auto intro: threads_inv_step)

lemma threads_inv_start: "k < 64 \<Longrightarrow> spsc_new junk (2 ^ k) = Some q \<Longrightarrow> threads_inv (2 ^ k - 1) (spsc_start q)"
  using spsc_new_inv [of k junk] by (auto simp: threads_inv_def spsc_start_def producer_ok_def consumer_ok_def pending_def)

section \<open>Properties\<close>

text \<open>
  C34: however the steps of a producer and a consumer interleave, the items handed out are the first
  of those written, in order and each once, at most \<open>size - 1\<close> are published and not yet handed out,
  and the two threads are never about to access the same slot. The counters may wrap.
\<close>

theorem spsc_threads_fifo:
  assumes "k < 64" and "spsc_new junk (2 ^ k) = Some q" and "spsc_reachable q s"
  shows "pushed s = popped s @ spsc_items (shared s) @ pending s \<and> length (spsc_items (shared s)) \<le> 2 ^ k - 1 \<and>
    (case (producer s, consumer s) of
       (PSlot x h, CSlot t) \<Rightarrow> slot (sp_mask (shared s)) h \<noteq> slot (sp_mask (shared s)) t
     | _ \<Rightarrow> True)"
proof -
  have inv: "threads_inv (2 ^ k - 1) s"
    using threads_inv_reachable [OF assms(3) threads_inv_start [OF assms(1,2)]] .
  then have "slot (sp_mask (shared s)) h \<noteq> slot (sp_mask (shared s)) t"
    if "producer s = PSlot x h" "consumer s = CSlot t" for x h t
    using that ends_differ [of "shared s"] by (simp add: threads_inv_def producer_ok_def consumer_ok_def)
  then show ?thesis using inv spsc.within [of "shared s"]
    by (auto simp: threads_inv_def split: producer_pc.splits consumer_pc.splits)
qed

theorem spsc_threads_fifo_witness:
  "case spsc_new (\<lambda>_. 0 :: nat) 2048 of None \<Rightarrow> False | Some q \<Rightarrow>
     \<exists>s. spsc_reachable q s \<and> producer s = PSlot 7 0 \<and>
       pushed s = popped s @ spsc_items (shared s) @ pending s \<and> length (spsc_items (shared s)) \<le> 2047"
proof -
  obtain q where q: "spsc_new (\<lambda>_. 0 :: nat) (2 ^ 11) = Some q" using spsc_new_inv [of 11] by auto
  have inv: "threads_inv (2 ^ 11 - 1) (spsc_start q)" using threads_inv_start [OF _ q] by simp
  have "spsc_inv q" using inv by (simp add: threads_inv_def spsc_start_def)
  moreover have "spsc_room q" "sp_head q = 0"
    using q inv by (auto simp: room_iff_items threads_inv_def spsc_start_def pending_def spsc_new_def split: if_splits)
  ultimately have "spsc_step (spsc_start q) ((spsc_start q)\<lparr>producer := PSlot 7 0\<rparr>)"
    using spsc_step.push_test [of "spsc_start q" q 7] test_room [of q] by (simp add: spsc_start_def)
  then have r: "spsc_reachable q ((spsc_start q)\<lparr>producer := PSlot 7 0\<rparr>)"
    using spsc_reachable.step [OF spsc_reachable.init] by blast
  show ?thesis using spsc_threads_fifo [OF _ q r] r q by force
qed

end
