(* ===== verification/MpmcQueue.thy ===== *)
theory MpmcQueue
  imports Ring
begin

text \<open>
  \<open>lfmpmc.h\<close>: the ring \<open>mpmc_bounded_queue_t\<close>, run by one thread at a time. Each slot has a
  sequence number; \<open>_head_seq\<close> and \<open>_tail_seq\<close> are tickets. All counters are 64-bit and wrap, and
  \<open>seq_dif\<close> is the two's complement difference that the code compares with 0.

  \<open>compare_exchange_weak\<close> may fail although the value is the expected one: a call takes a list
  with one entry per pass of its \<open>for (;;)\<close> loop, \<open>False\<close> for a spurious failure in that pass.
  \<open>None\<close>: the call has not returned after that many passes.
\<close>

record 'a mpmc =
  mp_size :: "64 word"
  mp_mask :: "64 word"
  mp_seq :: "nat \<Rightarrow> 64 word"
  mp_data :: "nat \<Rightarrow> 'a"
  mp_head :: "64 word"
  mp_tail :: "64 word"

definition mpmc_new :: "(nat \<Rightarrow> 64 word) \<Rightarrow> (nat \<Rightarrow> 'a) \<Rightarrow> 64 word \<Rightarrow> 'a mpmc option" where
  "mpmc_new junk_seq junk n =
     (if pow2_size n
      then Some \<lparr>mp_size = n, mp_mask = n - 1,
                 mp_seq = (\<lambda>i. if i < unat n then of_nat i else junk_seq i),
                 mp_data = junk, mp_head = 0, mp_tail = 0\<rparr>
      else None)"

definition seq_dif :: "64 word \<Rightarrow> 64 word \<Rightarrow> int" where
  "seq_dif a b = sint (a - b)"

fun mpmc_enqueue_loop :: "bool list \<Rightarrow> 64 word \<Rightarrow> 'a \<Rightarrow> 'a mpmc \<Rightarrow> (bool \<times> 'a mpmc) option" where
  "mpmc_enqueue_loop [] head_seq x q = None"
| "mpmc_enqueue_loop (cas # passes) head_seq x q =
     (let s = slot (mp_mask q) head_seq; dif = seq_dif (mp_seq q s) head_seq
      in if dif = 0 then
           (if mp_head q = head_seq \<and> cas
            then Some (True, q\<lparr>mp_head := head_seq + 1, mp_data := (mp_data q)(s := x),
                               mp_seq := (mp_seq q)(s := head_seq + 1)\<rparr>)
            else mpmc_enqueue_loop passes (mp_head q) x q)
         else if dif < 0 then Some (False, q)
         else mpmc_enqueue_loop passes (mp_head q) x q)"

definition mpmc_enqueue :: "bool list \<Rightarrow> 'a \<Rightarrow> 'a mpmc \<Rightarrow> (bool \<times> 'a mpmc) option" where
  "mpmc_enqueue passes x q = mpmc_enqueue_loop passes (mp_head q) x q"

fun mpmc_dequeue_loop :: "bool list \<Rightarrow> 64 word \<Rightarrow> 'a mpmc \<Rightarrow> ('a option \<times> 'a mpmc) option" where
  "mpmc_dequeue_loop [] tail_seq q = None"
| "mpmc_dequeue_loop (cas # passes) tail_seq q =
     (let s = slot (mp_mask q) tail_seq; dif = seq_dif (mp_seq q s) (tail_seq + 1)
      in if dif = 0 then
           (if mp_tail q = tail_seq \<and> cas
            then Some (Some (mp_data q s),
                       q\<lparr>mp_tail := tail_seq + 1,
                         mp_seq := (mp_seq q)(s := tail_seq + mp_mask q + 1)\<rparr>)
            else mpmc_dequeue_loop passes (mp_tail q) q)
         else if dif < 0 then Some (None, q)
         else mpmc_dequeue_loop passes (mp_tail q) q)"

definition mpmc_dequeue :: "bool list \<Rightarrow> 'a mpmc \<Rightarrow> ('a option \<times> 'a mpmc) option" where
  "mpmc_dequeue passes q = mpmc_dequeue_loop passes (mp_tail q) q"

text \<open>\<open>isempty\<close> takes a ticket as \<open>dequeue\<close> does, but neither reads nor releases the slot.\<close>

fun mpmc_isempty_loop :: "bool list \<Rightarrow> 64 word \<Rightarrow> 'a mpmc \<Rightarrow> (bool \<times> 'a mpmc) option" where
  "mpmc_isempty_loop [] tail_seq q = None"
| "mpmc_isempty_loop (cas # passes) tail_seq q =
     (let s = slot (mp_mask q) tail_seq; dif = seq_dif (mp_seq q s) (tail_seq + 1)
      in if dif = 0 then
           (if mp_tail q = tail_seq \<and> cas
            then Some (False, q\<lparr>mp_tail := tail_seq + 1\<rparr>)
            else mpmc_isempty_loop passes (mp_tail q) q)
         else if dif < 0 then Some (True, q)
         else mpmc_isempty_loop passes tail_seq q)"

definition mpmc_isempty :: "bool list \<Rightarrow> 'a mpmc \<Rightarrow> (bool \<times> 'a mpmc) option" where
  "mpmc_isempty passes q = mpmc_isempty_loop passes (mp_tail q) q"

section \<open>Contents and invariant\<close>

definition mpmc_count :: "'a mpmc \<Rightarrow> nat" where
  "mpmc_count q = unat (mp_head q - mp_tail q)"

definition mpmc_items :: "'a mpmc \<Rightarrow> 'a list" where
  "mpmc_items q =
     map (\<lambda>i. mp_data q (slot (mp_mask q) (mp_tail q + of_nat i))) [0..<mpmc_count q]"

definition mpmc_slots :: "nat \<Rightarrow> 'a mpmc \<Rightarrow> bool" where
  "mpmc_slots k q \<longleftrightarrow>
     (\<forall>i < 2 ^ k. mp_seq q (slot (2 ^ k - 1) (mp_tail q + of_nat i)) =
        mp_tail q + of_nat i + (if i < mpmc_count q then 1 else 0))"

definition mpmc_inv :: "'a mpmc \<Rightarrow> bool" where
  "mpmc_inv q \<longleftrightarrow> (\<exists>k. 1 \<le> k \<and> k \<le> 62 \<and> mp_size q = 2 ^ k \<and> mp_mask q = 2 ^ k - 1 \<and>
     mpmc_count q \<le> 2 ^ k \<and> mpmc_slots k q)"

definition mpmc_capacity :: "'a mpmc \<Rightarrow> nat" where
  "mpmc_capacity q = unat (mp_size q)"

definition mpmc_room :: "'a mpmc \<Rightarrow> bool" where
  "mpmc_room q \<longleftrightarrow> mpmc_count q < mpmc_capacity q"

lemma mpmc_head_eq: "mp_head q = mp_tail q + of_nat (mpmc_count q)"
  by (simp add: mpmc_count_def)

lemma mpmc_slotsD:
  "mpmc_slots k q \<Longrightarrow> i < 2 ^ k \<Longrightarrow> mp_seq q (slot (2 ^ k - 1) (mp_tail q + of_nat i)) =
     mp_tail q + of_nat i + (if i < mpmc_count q then 1 else 0)"
  by (simp add: mpmc_slots_def)

lemma pow2_lt_64: "k \<le> 62 \<Longrightarrow> (2 ^ k :: nat) < 2 ^ 64"
  by (rule power_strict_increasing) auto

lemma mpmc_invE:
  assumes "mpmc_inv q"
  obtains k where "1 \<le> k" "k \<le> 62" "mp_size q = 2 ^ k" "mp_mask q = 2 ^ k - 1"
    "mpmc_count q \<le> 2 ^ k" "mpmc_slots k q" "mpmc_capacity q = 2 ^ k"
  using assms by (auto simp: mpmc_inv_def mpmc_capacity_def unat_pow2)

lemma mpmc_new_inv:
  assumes "1 \<le> k" "k \<le> 62"
  shows "\<exists>q. mpmc_new js junk (2 ^ k) = Some q \<and> mpmc_inv q \<and> mpmc_items q = [] \<and>
    mpmc_capacity q = 2 ^ k"
proof -
  let ?q = "\<lparr>mp_size = 2 ^ k, mp_mask = 2 ^ k - 1,
     mp_seq = (\<lambda>i. if i < unat (2 ^ k :: 64 word) then of_nat i else js i),
     mp_data = junk, mp_head = 0, mp_tail = 0\<rparr>"
  have "mpmc_slots k ?q"
    using assms pow2_lt_64 [of k] by (simp add: mpmc_slots_def mpmc_count_def slot_pow2 unat_of_nat unat_pow2)
  then have "mpmc_inv ?q" using assms by (auto simp: mpmc_inv_def mpmc_count_def)
  moreover have "mpmc_new js junk (2 ^ k) = Some ?q"
    using assms pow2_size_pow2 [of k] by (simp add: mpmc_new_def)
  ultimately show ?thesis using assms
    by (simp add: mpmc_items_def mpmc_count_def mpmc_capacity_def unat_pow2)
qed

lemma seq_dif_self: "seq_dif x x = 0"
  by (simp add: seq_dif_def)

lemma seq_dif_behind: "k \<le> 62 \<Longrightarrow> 1 \<le> j \<Longrightarrow> j \<le> 2 ^ k \<Longrightarrow> seq_dif x (x + of_nat j) < 0"
proof -
  assume k: "k \<le> 62" "1 \<le> j" "j \<le> 2 ^ k"
  have "(2 ^ k :: nat) \<le> 2 ^ 62" using k by (intro power_increasing) auto
  then have j: "j \<le> 2 ^ 62" using k by simp
  have "(- of_nat j :: 64 word) = word_of_int (- int j)" by simp
  then have "sint (- of_nat j :: 64 word) = signed_take_bit 63 (- int j)"
    by (simp only: sint_sbintrunc') simp
  also have "\<dots> = - int j" using j by (intro signed_take_bit_int_eq_self) auto
  finally have "sint (- of_nat j :: 64 word) = - int j" .
  then show ?thesis using k by (simp add: seq_dif_def)
qed

section \<open>The operations, whatever the number of spurious failures\<close>

definition put :: "'a \<Rightarrow> 'a mpmc \<Rightarrow> 'a mpmc" where
  "put x q = q\<lparr>mp_head := mp_head q + 1,
     mp_data := (mp_data q)(slot (mp_mask q) (mp_head q) := x),
     mp_seq := (mp_seq q)(slot (mp_mask q) (mp_head q) := mp_head q + 1)\<rparr>"

definition take1 :: "'a mpmc \<Rightarrow> 'a mpmc" where
  "take1 q = q\<lparr>mp_tail := mp_tail q + 1,
     mp_seq := (mp_seq q)(slot (mp_mask q) (mp_tail q) := mp_tail q + mp_mask q + 1)\<rparr>"

lemma mpmc_head_slot:
  assumes "1 \<le> k" "k \<le> 62" "mp_mask q = 2 ^ k - 1" "mpmc_count q \<le> 2 ^ k" "mpmc_slots k q"
  shows "seq_dif (mp_seq q (slot (mp_mask q) (mp_head q))) (mp_head q) = 0 \<longleftrightarrow> mpmc_count q < 2 ^ k"
    and "mpmc_count q = 2 ^ k \<Longrightarrow> seq_dif (mp_seq q (slot (mp_mask q) (mp_head q))) (mp_head q) < 0"
proof -
  show full: "seq_dif (mp_seq q (slot (mp_mask q) (mp_head q))) (mp_head q) < 0"
    if "mpmc_count q = 2 ^ k"
  proof -
    have "slot (2 ^ k - 1) (mp_head q) = slot (2 ^ k - 1) (mp_tail q + of_nat 0)"
      using that assms(2) by (simp only: mpmc_head_eq slot_add) simp
    then have "mp_seq q (slot (mp_mask q) (mp_head q)) = mp_tail q + 1"
      using mpmc_slotsD [OF assms(5), of 0] that assms(3) by simp
    moreover have "mp_head q = (mp_tail q + 1) + of_nat (2 ^ k - 1)"
      using that mpmc_head_eq [of q] by (simp add: of_nat_diff)
    moreover have "(2 :: nat) \<le> 2 ^ k" using assms(1) power_increasing [of 1 k "2 :: nat"] by simp
    ultimately show ?thesis
      using seq_dif_behind [OF assms(2), of "2 ^ k - 1" "mp_tail q + 1"] by simp
  qed
  show "seq_dif (mp_seq q (slot (mp_mask q) (mp_head q))) (mp_head q) = 0 \<longleftrightarrow> mpmc_count q < 2 ^ k"
  proof (cases "mpmc_count q < 2 ^ k")
    case True
    then have "mp_seq q (slot (mp_mask q) (mp_head q)) = mp_head q"
      using mpmc_slotsD [OF assms(5) True] assms(3) mpmc_head_eq [of q] by simp
    then show ?thesis using True by (simp add: seq_dif_self)
  qed (use full assms(4) in auto)
qed

lemma mpmc_tail_slot:
  assumes "mp_mask q = 2 ^ k - 1" "mpmc_slots k q" and "k \<le> 62"
  shows "seq_dif (mp_seq q (slot (mp_mask q) (mp_tail q))) (mp_tail q + 1) = 0 \<longleftrightarrow> mpmc_count q \<noteq> 0"
    and "mpmc_count q = 0 \<Longrightarrow> seq_dif (mp_seq q (slot (mp_mask q) (mp_tail q))) (mp_tail q + 1) < 0"
proof -
  have "mp_seq q (slot (mp_mask q) (mp_tail q)) = mp_tail q + (if 0 < mpmc_count q then 1 else 0)"
    using mpmc_slotsD [OF assms(2), of 0] assms(1) by simp
  moreover have "seq_dif (mp_tail q) (mp_tail q + of_nat 1) < 0"
    using assms(3) by (intro seq_dif_behind [of 0]) auto
  ultimately show
    "seq_dif (mp_seq q (slot (mp_mask q) (mp_tail q))) (mp_tail q + 1) = 0 \<longleftrightarrow> mpmc_count q \<noteq> 0"
    "mpmc_count q = 0 \<Longrightarrow> seq_dif (mp_seq q (slot (mp_mask q) (mp_tail q))) (mp_tail q + 1) < 0"
    by (auto simp: seq_dif_self)
qed

lemma mpmc_enqueue_eq:
  assumes "mpmc_inv q"
  shows "mpmc_enqueue (replicate n False @ True # ps) x q =
    Some (if mpmc_room q then (True, put x q) else (False, q))"
proof -
  obtain k where k: "1 \<le> k" "k \<le> 62" "mp_size q = 2 ^ k" "mp_mask q = 2 ^ k - 1"
    "mpmc_count q \<le> 2 ^ k" "mpmc_slots k q" "mpmc_capacity q = 2 ^ k"
    using assms by (rule mpmc_invE)
  note h = mpmc_head_slot [OF k(1,2,4,5,6)]
  show ?thesis unfolding mpmc_enqueue_def
  proof (induction n)
    case 0
    then show ?case using h k(5,7) by (auto simp: mpmc_room_def put_def Let_def)
  next
    case (Suc n)
    then show ?case using h k(5,7) by (auto simp: mpmc_room_def Let_def)
  qed
qed

lemma mpmc_dequeue_eq:
  assumes "mpmc_inv q"
  shows "mpmc_dequeue (replicate n False @ True # ps) q =
    Some (if mpmc_count q \<noteq> 0
          then (Some (mp_data q (slot (mp_mask q) (mp_tail q))), take1 q) else (None, q))"
proof -
  obtain k where k: "k \<le> 62" "mp_mask q = 2 ^ k - 1" "mpmc_slots k q"
    using assms by (auto elim: mpmc_invE)
  note t = mpmc_tail_slot [OF k(2,3,1)]
  show ?thesis unfolding mpmc_dequeue_def
  proof (induction n)
    case 0
    then show ?case using t by (auto simp: take1_def Let_def)
  next
    case (Suc n)
    then show ?case using t by (auto simp: Let_def)
  qed
qed

lemma mpmc_put:
  assumes "mpmc_inv q" "mpmc_room q"
  shows "mpmc_inv (put x q)" "mpmc_items (put x q) = mpmc_items q @ [x]"
    "mpmc_capacity (put x q) = mpmc_capacity q"
proof -
  obtain k where k: "1 \<le> k" "k \<le> 62" "mp_size q = 2 ^ k" "mp_mask q = 2 ^ k - 1"
    "mpmc_count q \<le> 2 ^ k" "mpmc_slots k q" "mpmc_capacity q = 2 ^ k"
    using assms(1) by (rule mpmc_invE)
  let ?n = "mpmc_count q"
  have n: "?n < 2 ^ k" using assms(2) k by (simp add: mpmc_room_def)
  have "mp_head q + 1 - mp_tail q = of_nat (Suc ?n)" using mpmc_head_eq [of q] by simp
  then have cnt: "mpmc_count (put x q) = Suc ?n"
    using n pow2_lt_64 [OF k(2)] by (simp add: put_def mpmc_count_def unat_of_nat del: of_nat_Suc)
  have other: "slot (2 ^ k - 1) (mp_tail q + of_nat i) = slot (2 ^ k - 1) (mp_head q) \<longleftrightarrow> i = ?n"
    if "i < 2 ^ k" for i
    using slot_add_inj [of k "mp_tail q" i ?n] that k n mpmc_head_eq [of q] by auto
  show "mpmc_items (put x q) = mpmc_items q @ [x]"
    using other n k(4) unfolding mpmc_items_def cnt
    by (auto simp: put_def mpmc_head_eq [of q, symmetric])
  have "mpmc_slots k (put x q)"
    using mpmc_slotsD [OF k(6)] other k(4) mpmc_head_eq [of q]
    by (auto simp: mpmc_slots_def cnt) (auto simp: put_def)
  then show "mpmc_inv (put x q)" using k n cnt by (auto simp: mpmc_inv_def put_def)
  show "mpmc_capacity (put x q) = mpmc_capacity q" by (simp add: mpmc_capacity_def put_def)
qed

lemma mpmc_take1:
  assumes "mpmc_inv q" "mpmc_items q = x # xs"
  shows "mpmc_inv (take1 q)" "mpmc_items (take1 q) = xs"
    "mp_data q (slot (mp_mask q) (mp_tail q)) = x" "mpmc_count q \<noteq> 0"
    "mpmc_capacity (take1 q) = mpmc_capacity q"
proof -
  obtain k where k: "1 \<le> k" "k \<le> 62" "mp_size q = 2 ^ k" "mp_mask q = 2 ^ k - 1"
    "mpmc_count q \<le> 2 ^ k" "mpmc_slots k q"
    using assms(1) by (rule mpmc_invE)
  show n0: "mpmc_count q \<noteq> 0" using assms(2) by (cases "mpmc_count q") (simp_all add: mpmc_items_def)
  then obtain n where n: "mpmc_count q = Suc n" by (cases "mpmc_count q") auto
  have "mp_head q - (mp_tail q + 1) = of_nat n" using mpmc_head_eq [of q] n by simp
  then have cnt: "mpmc_count (take1 q) = n"
    using k(5) n pow2_lt_64 [OF k(2)] by (simp add: take1_def mpmc_count_def unat_of_nat)
  have items: "mpmc_items q = mp_data q (slot (mp_mask q) (mp_tail q)) # mpmc_items (take1 q)"
    unfolding mpmc_items_def n cnt by (subst map_upt_Suc_tail) (simp add: take1_def ac_simps)
  then show "mpmc_items (take1 q) = xs" "mp_data q (slot (mp_mask q) (mp_tail q)) = x"
    using assms(2) by simp_all
  have "mp_seq (take1 q) (slot (2 ^ k - 1) (mp_tail q + 1 + of_nat i)) =
      mp_tail q + 1 + of_nat i + (if i < n then 1 else 0)" if i: "i < 2 ^ k" for i
  proof (cases "Suc i < 2 ^ k")
    case True
    have "slot (2 ^ k - 1) (mp_tail q + of_nat (Suc i)) \<noteq> slot (2 ^ k - 1) (mp_tail q + of_nat 0)"
      using slot_add_inj [of k "mp_tail q" "Suc i" 0] True k(2) by auto
    then show ?thesis using mpmc_slotsD [OF k(6) True] k(4) n
      by (simp add: take1_def ac_simps)
  next
    case False
    then have si: "Suc i = 2 ^ k" using i by simp
    then have "(of_nat (Suc i) :: 64 word) = of_nat (2 ^ k)" by (rule arg_cong)
    then have eq: "mp_tail q + 1 + of_nat i = mp_tail q + 2 ^ k" by (simp add: add.assoc)
    have "slot (2 ^ k - 1) (mp_tail q + 2 ^ k) = slot (2 ^ k - 1) (mp_tail q)"
      using slot_add [of k "mp_tail q" "2 ^ k"] slot_add [of k "mp_tail q" 0] k(2) by simp
    moreover have "\<not> i < n" using k(5) n si by simp
    ultimately show ?thesis using k(4) by (simp add: take1_def eq)
  qed
  then have "mpmc_slots k (take1 q)" by (simp add: mpmc_slots_def cnt) (simp add: take1_def)
  then show "mpmc_inv (take1 q)" using k n cnt by (auto simp: mpmc_inv_def take1_def)
  show "mpmc_capacity (take1 q) = mpmc_capacity q" by (simp add: mpmc_capacity_def take1_def)
qed

text \<open>One call each, without spurious failures, as total operations.\<close>

definition mpmc_enq :: "'a \<Rightarrow> 'a mpmc \<Rightarrow> bool \<times> 'a mpmc" where
  "mpmc_enq x q = (case mpmc_enqueue [True] x q of None \<Rightarrow> (False, q) | Some r \<Rightarrow> r)"

definition mpmc_deq :: "'a mpmc \<Rightarrow> 'a option \<times> 'a mpmc" where
  "mpmc_deq q = (case mpmc_dequeue [True] q of None \<Rightarrow> (None, q) | Some r \<Rightarrow> r)"

lemma mpmc_enq_eq: "mpmc_inv q \<Longrightarrow> mpmc_enq x q = (if mpmc_room q then (True, put x q) else (False, q))"
  using mpmc_enqueue_eq [of q 0 "[]" x] by (simp add: mpmc_enq_def)

lemma mpmc_deq_eq:
  "mpmc_inv q \<Longrightarrow> mpmc_deq q = (if mpmc_count q \<noteq> 0
     then (Some (mp_data q (slot (mp_mask q) (mp_tail q))), take1 q) else (None, q))"
  using mpmc_dequeue_eq [of q 0 "[]"] by (simp add: mpmc_deq_def)

interpretation mpmc: bounded_fifo mpmc_inv mpmc_items mpmc_room mpmc_enq mpmc_deq mpmc_capacity
proof unfold_locales
  fix q :: "'a mpmc" and x xs
  assume inv: "mpmc_inv q"
  show "length (mpmc_items q) \<le> mpmc_capacity q"
    using inv by (auto elim!: mpmc_invE simp: mpmc_items_def)
  show "mpmc_room q \<longleftrightarrow> length (mpmc_items q) < mpmc_capacity q"
    by (simp add: mpmc_room_def mpmc_items_def)
  show "mpmc_capacity (snd (mpmc_enq x q)) = mpmc_capacity q"
    using mpmc_put(3) [OF inv] mpmc_enq_eq [OF inv] by simp
  show "mpmc_capacity (snd (mpmc_deq q)) = mpmc_capacity q"
    using mpmc_deq_eq [OF inv] by (simp add: take1_def mpmc_capacity_def)
  show "\<not> mpmc_room q \<Longrightarrow> mpmc_enq x q = (False, q)"
    using mpmc_enq_eq [OF inv] by simp
  show "mpmc_items q = [] \<Longrightarrow> mpmc_deq q = (None, q)"
    using mpmc_deq_eq [OF inv] by (simp add: mpmc_items_def)
  show "mpmc_room q \<Longrightarrow> fst (mpmc_enq x q) \<and> mpmc_inv (snd (mpmc_enq x q)) \<and>
      mpmc_items (snd (mpmc_enq x q)) = mpmc_items q @ [x]"
    using mpmc_enq_eq [OF inv] mpmc_put [OF inv] by simp
  show "mpmc_items q = x # xs \<Longrightarrow> fst (mpmc_deq q) = Some x \<and> mpmc_inv (snd (mpmc_deq q)) \<and>
      mpmc_items (snd (mpmc_deq q)) = xs"
    using mpmc_deq_eq [OF inv] mpmc_take1 [OF inv, of x xs] by simp
qed

section \<open>Properties\<close>

text \<open>
  Used by one thread at a time, the ring is a first-in first-out queue that holds up to
  \<open>size\<close> items: nothing is lost, duplicated or reordered, for every power-of-two size from 2 to
  \<open>2 ^ 62\<close>, with counters that wrap.
\<close>

theorem mpmc_run_is_fifo:
  assumes "1 \<le> k" and "k \<le> 62" and "mpmc_new js junk (2 ^ k) = Some q"
    and "qrun mpmc_enq mpmc_deq q ops = (ins, outs, q')"
  shows "ins = outs @ mpmc_items q' \<and> length (mpmc_items q') \<le> 2 ^ k \<and>
    (fst (mpmc_enq x q') \<longleftrightarrow> length (mpmc_items q') < 2 ^ k) \<and>
    fst (mpmc_deq q') = (case mpmc_items q' of [] \<Rightarrow> None | y # _ \<Rightarrow> Some y)"
proof -
  have q: "mpmc_inv q" "mpmc_items q = []" "mpmc_capacity q = 2 ^ k"
    using mpmc_new_inv [OF assms(1,2), of js junk] assms(3) by auto
  then have q': "mpmc_inv q'" "mpmc_capacity q' = 2 ^ k"
    using mpmc.run_invar [OF q(1), of ops] mpmc.run_capacity [OF q(1), of ops] assms(4) by auto
  have "fst (mpmc_deq q') = (case mpmc_items q' of [] \<Rightarrow> None | y # _ \<Rightarrow> Some y)"
    using mpmc.deq_empty [OF q'(1)] mpmc.deq_some [OF q'(1)] by (cases "mpmc_items q'") auto
  then show ?thesis
    using mpmc.run_fifo [OF q(1), of ops] mpmc.run_bounded [OF q(1), of ops]
      mpmc.enq_accepts_iff [OF q'(1), of x] q q' assms(4) by simp
qed

theorem mpmc_run_is_fifo_witness:
  "case mpmc_new (\<lambda>_. 0) (\<lambda>_. 0 :: nat) 4096 of None \<Rightarrow> False | Some q \<Rightarrow>
     (case qrun mpmc_enq mpmc_deq q [Enq 7, Deq, Deq, Enq 8] of (ins, outs, q') \<Rightarrow>
       ins = outs @ mpmc_items q' \<and> length (mpmc_items q') \<le> 4096)"
proof -
  obtain q where q: "mpmc_new (\<lambda>_. 0) (\<lambda>_. 0 :: nat) (2 ^ 12) = Some q"
    using mpmc_new_inv [of 12] by auto
  obtain ins outs q' where r: "qrun mpmc_enq mpmc_deq q [Enq 7, Deq, Deq, Enq 8] = (ins, outs, q')"
    by (metis prod_cases3)
  show ?thesis using mpmc_run_is_fifo [OF _ _ q r] q r by simp
qed

text \<open>
  Spurious failures of \<open>compare_exchange_weak\<close> only delay a call: after any number of them,
  \<open>enqueue\<close> and \<open>dequeue\<close> answer and change the ring as without them.
\<close>

theorem mpmc_spurious_failures:
  assumes "mpmc_inv q"
  shows "mpmc_enqueue (replicate n False @ [True]) x q = Some (mpmc_enq x q) \<and>
    mpmc_dequeue (replicate n False @ [True]) q = Some (mpmc_deq q)"
  using mpmc_enqueue_eq [OF assms, of n "[]" x] mpmc_dequeue_eq [OF assms, of n "[]"]
    mpmc_enq_eq [OF assms, of x] mpmc_deq_eq [OF assms] by simp

theorem mpmc_spurious_failures_witness:
  "case mpmc_new (\<lambda>_. 0) (\<lambda>_. 0 :: nat) 4096 of None \<Rightarrow> False | Some q \<Rightarrow>
     mpmc_enqueue (replicate 3 False @ [True]) 5 q = Some (mpmc_enq 5 q) \<and>
     mpmc_dequeue (replicate 3 False @ [True]) q = Some (mpmc_deq q)"
proof -
  obtain q where q: "mpmc_new (\<lambda>_. 0) (\<lambda>_. 0 :: nat) (2 ^ 12) = Some q" "mpmc_inv q"
    using mpmc_new_inv [of 12] by auto
  show ?thesis using mpmc_spurious_failures [OF q(2), of 3 5] q(1) by simp
qed

text \<open>
  \<open>isempty\<close> is not an observer: on a ring with items it answers \<open>false\<close> and takes the ticket
  of the oldest item, which the next \<open>dequeue\<close> then skips: that item is lost.
\<close>

theorem mpmc_isempty_loses_item:
  assumes "mpmc_inv q" and "mpmc_items q = x # y # ys"
  shows "\<exists>q'. mpmc_isempty [True] q = Some (False, q') \<and>
    (\<exists>q''. mpmc_dequeue [True] q' = Some (Some y, q''))"
proof -
  obtain k where k: "1 \<le> k" "k \<le> 62" "mp_mask q = 2 ^ k - 1" "mpmc_count q \<le> 2 ^ k" "mpmc_slots k q"
    using assms(1) by (auto elim: mpmc_invE)
  have len: "length (mpmc_items q) = Suc (Suc (length ys))" using assms(2) by simp
  then obtain n where n: "mpmc_count q = Suc (Suc n)" by (simp add: mpmc_items_def)
  let ?q = "q\<lparr>mp_tail := mp_tail q + 1\<rparr>"
  have "mpmc_isempty [True] q = Some (False, ?q)"
    using mpmc_tail_slot [OF k(3,5,2)] n by (simp add: mpmc_isempty_def Let_def)
  moreover have "mp_seq q (slot (mp_mask q) (mp_tail q + 1)) = mp_tail q + 1 + 1"
    using mpmc_slotsD [OF k(5), of 1] k n by simp
  moreover have "mp_data q (slot (mp_mask q) (mp_tail q + 1)) = y"
  proof -
    have "mpmc_items q ! 1 = mp_data q (slot (mp_mask q) (mp_tail q + of_nat 1))"
      unfolding mpmc_items_def n by (subst nth_map) (simp_all del: upt_Suc add: nth_upt)
    then show ?thesis using assms(2) by simp
  qed
  ultimately show ?thesis by (simp add: mpmc_dequeue_def Let_def seq_dif_self)
qed

theorem mpmc_isempty_loses_item_witness:
  "case mpmc_new (\<lambda>_. 0) (\<lambda>_. 0 :: nat) 4096 of None \<Rightarrow> False | Some q \<Rightarrow>
     (let q2 = snd (mpmc_enq 8 (snd (mpmc_enq 7 q))) in
      \<exists>q'. mpmc_isempty [True] q2 = Some (False, q') \<and>
        (\<exists>q''. mpmc_dequeue [True] q' = Some (Some 8, q'')))"
proof -
  obtain q where q: "mpmc_new (\<lambda>_. 0) (\<lambda>_. 0 :: nat) (2 ^ 12) = Some q" "mpmc_inv q"
    "mpmc_items q = []" "mpmc_capacity q = 2 ^ 12"
    using mpmc_new_inv [of 12] by auto
  let ?q1 = "snd (mpmc_enq 7 q)"
  have q1: "mpmc_inv ?q1" "mpmc_items ?q1 = [7]" "mpmc_capacity ?q1 = 2 ^ 12"
    using mpmc.enq_invar [OF q(2)] mpmc.enq_contents [OF q(2), of 7] mpmc.enq_accepts_iff [OF q(2), of 7]
      mpmc.enq_capacity [OF q(2), of 7] q by auto
  then have q2: "mpmc_inv (snd (mpmc_enq 8 ?q1))" "mpmc_items (snd (mpmc_enq 8 ?q1)) = [7, 8]"
    using mpmc.enq_invar [OF q1(1)] mpmc.enq_contents [OF q1(1), of 8] mpmc.enq_accepts_iff [OF q1(1), of 8]
    by auto
  show ?thesis using mpmc_isempty_loses_item [OF q2] q(1) by (simp add: Let_def)
qed

end
