(* ===== verification/MpmcThreads.thy ===== *)
theory MpmcThreads
  imports MpmcQueue
begin

text \<open>
  The ring of \<open>lfmpmc.h\<close> shared by any number of threads. Each access to an atomic or to the data
  of a slot in \<open>enqueue\<close> and \<open>dequeue\<close> is one step, and the steps of the threads interleave freely;
  the program counter of a thread says which access comes next and holds the call's local
  variables. A \<open>compare_exchange_weak\<close> may fail at any time. The interleaving is sequentially
  consistent: the memory orders of the code are not modelled.

  \<open>accepted\<close>, \<open>taken\<close> and \<open>delivered\<close> record the history and do not influence any step: the items
  in the order of their tickets, the number of tickets handed to consumers, and the finished
  \<open>dequeue\<close> calls with ticket and item.
\<close>

datatype 'a pc =
  Idle
| PLoad 'a "64 word" \<comment> \<open>\<open>enqueue\<close>: \<open>head_seq\<close> loaded\<close>
| PCmp 'a "64 word" "64 word" \<comment> \<open>\<open>node_seq\<close> loaded\<close>
| PWrite 'a "64 word" \<comment> \<open>ticket taken, data not yet written\<close>
| PStore 'a "64 word" \<comment> \<open>data written, slot not yet published\<close>
| CLoad "64 word" \<comment> \<open>\<open>dequeue\<close>: \<open>tail_seq\<close> loaded\<close>
| CCmp "64 word" "64 word"
| CRead "64 word" \<comment> \<open>ticket taken, data not yet read\<close>
| CStore "64 word" 'a \<comment> \<open>data read, slot not yet released\<close>

record 'a system =
  ring :: "'a mpmc"
  pcs :: "nat \<Rightarrow> 'a pc"
  accepted :: "'a list"
  taken :: nat
  delivered :: "(nat \<times> 'a) list"

definition goto :: "nat \<Rightarrow> 'a pc \<Rightarrow> 'a system \<Rightarrow> 'a system" where
  "goto i p s = s\<lparr>pcs := (pcs s)(i := p)\<rparr>"

abbreviation seq_at :: "'a system \<Rightarrow> 64 word \<Rightarrow> 64 word" where
  "seq_at s h \<equiv> mp_seq (ring s) (slot (mp_mask (ring s)) h)"

inductive thread_step :: "'a system \<Rightarrow> 'a system \<Rightarrow> bool" where
  enq_start: "pcs s i = Idle \<Longrightarrow> thread_step s (goto i (PLoad x (mp_head (ring s))) s)"
| enq_seq: "pcs s i = PLoad x h \<Longrightarrow> thread_step s (goto i (PCmp x h (seq_at s h)) s)"
| enq_cas: "pcs s i = PCmp x h v \<Longrightarrow> seq_dif v h = 0 \<Longrightarrow> mp_head (ring s) = h \<Longrightarrow>
    thread_step s (goto i (PWrite x h)
      (s\<lparr>ring := (ring s)\<lparr>mp_head := h + 1\<rparr>, accepted := accepted s @ [x]\<rparr>))"
| enq_cas_fail: "pcs s i = PCmp x h v \<Longrightarrow> seq_dif v h = 0 \<Longrightarrow>
    thread_step s (goto i (PLoad x (mp_head (ring s))) s)"
| enq_full: "pcs s i = PCmp x h v \<Longrightarrow> seq_dif v h < 0 \<Longrightarrow> thread_step s (goto i Idle s)"
| enq_reload: "pcs s i = PCmp x h v \<Longrightarrow> seq_dif v h > 0 \<Longrightarrow>
    thread_step s (goto i (PLoad x (mp_head (ring s))) s)"
| enq_write: "pcs s i = PWrite x h \<Longrightarrow>
    thread_step s (goto i (PStore x h)
      (s\<lparr>ring := (ring s)\<lparr>mp_data := (mp_data (ring s))(slot (mp_mask (ring s)) h := x)\<rparr>\<rparr>))"
| enq_store: "pcs s i = PStore x h \<Longrightarrow>
    thread_step s (goto i Idle
      (s\<lparr>ring := (ring s)\<lparr>mp_seq := (mp_seq (ring s))(slot (mp_mask (ring s)) h := h + 1)\<rparr>\<rparr>))"
| deq_start: "pcs s i = Idle \<Longrightarrow> thread_step s (goto i (CLoad (mp_tail (ring s))) s)"
| deq_seq: "pcs s i = CLoad t \<Longrightarrow> thread_step s (goto i (CCmp t (seq_at s t)) s)"
| deq_cas: "pcs s i = CCmp t v \<Longrightarrow> seq_dif v (t + 1) = 0 \<Longrightarrow> mp_tail (ring s) = t \<Longrightarrow>
    thread_step s (goto i (CRead t)
      (s\<lparr>ring := (ring s)\<lparr>mp_tail := t + 1\<rparr>, taken := taken s + 1\<rparr>))"
| deq_cas_fail: "pcs s i = CCmp t v \<Longrightarrow> seq_dif v (t + 1) = 0 \<Longrightarrow>
    thread_step s (goto i (CLoad (mp_tail (ring s))) s)"
| deq_empty: "pcs s i = CCmp t v \<Longrightarrow> seq_dif v (t + 1) < 0 \<Longrightarrow> thread_step s (goto i Idle s)"
| deq_reload: "pcs s i = CCmp t v \<Longrightarrow> seq_dif v (t + 1) > 0 \<Longrightarrow>
    thread_step s (goto i (CLoad (mp_tail (ring s))) s)"
| deq_read: "pcs s i = CRead t \<Longrightarrow>
    thread_step s (goto i (CStore t (mp_data (ring s) (slot (mp_mask (ring s)) t))) s)"
| deq_store: "pcs s i = CStore t x \<Longrightarrow>
    thread_step s (goto i Idle
      (s\<lparr>ring := (ring s)\<lparr>mp_seq := (mp_seq (ring s))(slot (mp_mask (ring s)) t :=
           t + mp_mask (ring s) + 1)\<rparr>, delivered := delivered s @ [(unat t, x)]\<rparr>))"

definition start_system :: "'a mpmc \<Rightarrow> 'a system" where
  "start_system q = \<lparr>ring = q, pcs = (\<lambda>_. Idle), accepted = [], taken = 0, delivered = []\<rparr>"

inductive reachable :: "'a mpmc \<Rightarrow> 'a system \<Rightarrow> bool" for q where
  reach_start: "reachable q (start_system q)"
| reach_step: "reachable q s \<Longrightarrow> thread_step s s' \<Longrightarrow> reachable q s'"

section \<open>The invariant\<close>

definition limit :: nat where "limit = 2 ^ 63"

text \<open>A slot is free for the ticket \<open>c\<close> of its next producer, or full with the item of ticket \<open>c\<close>.\<close>

definition slot_free :: "nat \<Rightarrow> 'a system \<Rightarrow> nat \<Rightarrow> bool" where
  "slot_free k s c \<longleftrightarrow> unat (mp_seq (ring s) (c mod 2 ^ k)) = c \<and> taken s \<le> c \<and> c < taken s + 2 ^ k"

definition slot_full :: "nat \<Rightarrow> 'a system \<Rightarrow> nat \<Rightarrow> bool" where
  "slot_full k s c \<longleftrightarrow> unat (mp_seq (ring s) (c mod 2 ^ k)) = c + 1 \<and> c < length (accepted s) \<and>
     length (accepted s) \<le> c + 2 ^ k \<and> mp_data (ring s) (c mod 2 ^ k) = accepted s ! c"

definition ring_ok :: "nat \<Rightarrow> 'a system \<Rightarrow> bool" where
  "ring_ok k s \<longleftrightarrow> mp_mask (ring s) = 2 ^ k - 1 \<and>
     unat (mp_head (ring s)) = length (accepted s) \<and> unat (mp_tail (ring s)) = taken s \<and>
     taken s \<le> length (accepted s) \<and> length (accepted s) \<le> taken s + 2 ^ k \<and>
     (\<forall>j < 2 ^ k. \<exists>c. c mod 2 ^ k = j \<and> (slot_free k s c \<or> slot_full k s c))"

fun pc_ok :: "nat \<Rightarrow> 'a system \<Rightarrow> 'a pc \<Rightarrow> bool" where
  "pc_ok k s Idle = True"
| "pc_ok k s (PLoad x h) = (unat h \<le> length (accepted s))"
| "pc_ok k s (PCmp x h v) = (unat h \<le> length (accepted s) \<and>
     (v = h \<longrightarrow> unat h = length (accepted s) \<longrightarrow> slot_free k s (unat h)))"
| "pc_ok k s (PWrite x h) = (unat h < length (accepted s) \<and> slot_free k s (unat h) \<and>
     accepted s ! unat h = x)"
| "pc_ok k s (PStore x h) = (unat h < length (accepted s) \<and> slot_free k s (unat h) \<and>
     accepted s ! unat h = x \<and> mp_data (ring s) (unat h mod 2 ^ k) = x)"
| "pc_ok k s (CLoad t) = (unat t \<le> taken s)"
| "pc_ok k s (CCmp t v) = (unat t \<le> taken s \<and>
     (v = t + 1 \<longrightarrow> unat t = taken s \<longrightarrow> slot_full k s (unat t)))"
| "pc_ok k s (CRead t) = (unat t < taken s \<and> slot_full k s (unat t) \<and>
     unat t \<notin> fst ` set (delivered s))"
| "pc_ok k s (CStore t x) = (unat t < taken s \<and> slot_full k s (unat t) \<and>
     unat t \<notin> fst ` set (delivered s) \<and> accepted s ! unat t = x)"

fun holds_put :: "'a pc \<Rightarrow> nat option" where
  "holds_put (PWrite x h) = Some (unat h)"
| "holds_put (PStore x h) = Some (unat h)"
| "holds_put _ = None"

fun holds_take :: "'a pc \<Rightarrow> nat option" where
  "holds_take (CRead t) = Some (unat t)"
| "holds_take (CStore t x) = Some (unat t)"
| "holds_take _ = None"

definition tickets_ok :: "'a system \<Rightarrow> bool" where
  "tickets_ok s \<longleftrightarrow>
     (\<forall>i j n. holds_put (pcs s i) = Some n \<longrightarrow> holds_put (pcs s j) = Some n \<longrightarrow> i = j) \<and>
     (\<forall>i j n. holds_take (pcs s i) = Some n \<longrightarrow> holds_take (pcs s j) = Some n \<longrightarrow> i = j)"

definition delivered_ok :: "'a system \<Rightarrow> bool" where
  "delivered_ok s \<longleftrightarrow> distinct (map fst (delivered s)) \<and>
     (\<forall>(n, x) \<in> set (delivered s). n < taken s \<and> accepted s ! n = x) \<and>
     (\<forall>n < taken s. n \<in> fst ` set (delivered s) \<or> (\<exists>i. holds_take (pcs s i) = Some n))"

definition system_inv :: "nat \<Rightarrow> 'a system \<Rightarrow> bool" where
  "system_inv k s \<longleftrightarrow> ring_ok k s \<and> (\<forall>i. pc_ok k s (pcs s i)) \<and> tickets_ok s \<and> delivered_ok s"

lemma goto_simps [simp]:
  "ring (goto i p s) = ring s" "accepted (goto i p s) = accepted s" "taken (goto i p s) = taken s"
  "delivered (goto i p s) = delivered s" "pcs (goto i p s) = (pcs s)(i := p)"
  by (simp_all add: goto_def)

lemma seq_dif_0: "seq_dif a b = 0 \<longleftrightarrow> a = b"
proof
  assume "seq_dif a b = 0"
  then have "sint (a - b) = sint (0 :: 64 word)" by (simp add: seq_dif_def)
  then have "a - b = 0" by (rule signed_word_eqI)
  then show "a = b" by simp
qed (simp add: seq_dif_self)

lemma unat_succ: "unat (h :: 64 word) < 2 ^ 63 + 2 ^ 62 \<Longrightarrow> unat (h + 1) = unat h + 1"
  by (simp add: unat_word_ariths)

lemma unat_next_round:
  "k \<le> 62 \<Longrightarrow> unat (t :: 64 word) < 2 ^ 63 \<Longrightarrow> unat (t + (2 ^ k - 1) + 1) = unat t + 2 ^ k"
proof -
  assume k: "k \<le> 62" and t: "unat t < 2 ^ 63"
  have "(2 ^ k :: nat) \<le> 2 ^ 62" using k by (intro power_increasing) auto
  then have "unat t + 2 ^ k < 2 ^ 64" using t by simp
  moreover have "t + (2 ^ k - 1) + 1 = t + of_nat (2 ^ k)" by simp
  ultimately show ?thesis by (simp only: unat_word_ariths(1) unat_of_nat) simp
qed

lemma free_or_full:
  "ring_ok k s \<Longrightarrow> \<exists>c. c mod 2 ^ k = n mod 2 ^ k \<and> (slot_free k s c \<or> slot_full k s c)"
  by (auto simp: ring_ok_def)

lemma succ_mod_neq: "1 \<le> k \<Longrightarrow> (n + 1) mod 2 ^ k \<noteq> n mod (2 ^ k :: nat)"
proof
  assume "1 \<le> k" and eq: "(n + 1) mod 2 ^ k = n mod (2 ^ k :: nat)"
  then have "(2 :: nat) \<le> 2 ^ k" using power_increasing [of 1 k "2 :: nat"] by simp
  then show False using add_mod_inj [of n 1 "2 ^ k" 0] eq by simp
qed

text \<open>A slot cannot be free for one ticket and full with another.\<close>

lemma free_not_full:
  "1 \<le> k \<Longrightarrow> slot_free k s m \<Longrightarrow> slot_full k s n \<Longrightarrow> m mod 2 ^ k \<noteq> n mod 2 ^ k"
  using succ_mod_neq [of k n] by (auto simp: slot_free_def slot_full_def)

lemma free_unique: "slot_free k s m \<Longrightarrow> slot_free k s n \<Longrightarrow> m mod 2 ^ k = n mod 2 ^ k \<Longrightarrow> m = n"
  by (auto simp: slot_free_def)

lemma full_unique: "slot_full k s m \<Longrightarrow> slot_full k s n \<Longrightarrow> m mod 2 ^ k = n mod 2 ^ k \<Longrightarrow> m = n"
  by (auto simp: slot_full_def)

lemma seq_free:
  assumes "1 \<le> k" "ring_ok k s" "unat (mp_seq (ring s) (n mod 2 ^ k)) = n"
  shows "slot_free k s n"
proof -
  obtain c where c: "c mod 2 ^ k = n mod 2 ^ k" "slot_free k s c \<or> slot_full k s c"
    using free_or_full [OF assms(2)] by blast
  have "\<not> slot_full k s c"
    using c(1) assms(3) succ_mod_neq [OF assms(1), of c] by (auto simp: slot_full_def)
  then have free: "slot_free k s c" using c(2) by blast
  moreover have "c = n" using free c(1) assms(3) by (simp add: slot_free_def)
  ultimately show ?thesis by simp
qed

lemma seq_full:
  assumes "1 \<le> k" "ring_ok k s" "unat (mp_seq (ring s) (n mod 2 ^ k)) = n + 1"
  shows "slot_full k s n"
proof -
  obtain c where c: "c mod 2 ^ k = n mod 2 ^ k" "slot_free k s c \<or> slot_full k s c"
    using free_or_full [OF assms(2)] by blast
  have "\<not> slot_free k s c"
    using c(1) assms(3) succ_mod_neq [OF assms(1), of n] by (auto simp: slot_free_def)
  then have full: "slot_full k s c" using c(2) by blast
  moreover have "c = n" using full c(1) assms(3) by (simp add: slot_full_def)
  ultimately show ?thesis by simp
qed

section \<open>Steps that only move a program counter\<close>

lemma goto_slots [simp]:
  "slot_free k (goto i p s) c = slot_free k s c" "slot_full k (goto i p s) c = slot_full k s c"
  "ring_ok k (goto i p s) = ring_ok k s"
  by (simp_all add: slot_free_def slot_full_def ring_ok_def)

lemma goto_pc_ok [simp]: "pc_ok k (goto i p s) r = pc_ok k s r"
  by (cases r) simp_all

lemma goto_inv:
  assumes "system_inv k s" and "pc_ok k s p"
    and "holds_put p = holds_put (pcs s i)" and "holds_take p = holds_take (pcs s i)"
  shows "system_inv k (goto i p s)"
proof -
  have hp: "holds_put (((pcs s)(i := p)) j) = holds_put (pcs s j)" for j
    using assms(3) by simp
  have ht: "holds_take (((pcs s)(i := p)) j) = holds_take (pcs s j)" for j
    using assms(4) by simp
  show ?thesis using assms(1,2)
    unfolding system_inv_def tickets_ok_def delivered_ok_def
    by (simp only: goto_simps goto_slots goto_pc_ok hp ht) simp
qed

section \<open>Steps that change the ring\<close>

text \<open>
  What another thread's program counter needs when the ring changes: history only grows, and the
  slots that the thread relies on keep their state.
\<close>

lemma pc_ok_step:
  assumes "pc_ok k s p"
    and "length (accepted s) \<le> length (accepted s')" and "taken s \<le> taken s'"
    and "\<And>n. n < length (accepted s) \<Longrightarrow> accepted s' ! n = accepted s ! n"
    and "\<And>n. slot_free k s n \<Longrightarrow> holds_put p = Some n \<or> n = length (accepted s') \<Longrightarrow> slot_free k s' n"
    and "\<And>n. slot_full k s n \<Longrightarrow> holds_take p = Some n \<or> n = taken s' \<Longrightarrow> slot_full k s' n"
    and "\<And>n. slot_free k s n \<Longrightarrow> holds_put p = Some n \<Longrightarrow>
        mp_data (ring s') (n mod 2 ^ k) = mp_data (ring s) (n mod 2 ^ k)"
    and "\<And>n. holds_take p = Some n \<Longrightarrow> n \<in> fst ` set (delivered s') \<Longrightarrow> n \<in> fst ` set (delivered s)"
    and "taken s \<le> length (accepted s)"
  shows "pc_ok k s' p"
  using assms by (cases p) auto

lemma tickets_step:
  assumes "tickets_ok s" and "pcs s' = (pcs s)(i := p)"
    and "\<And>n. holds_put p = Some n \<Longrightarrow>
        holds_put (pcs s i) = Some n \<or> (\<forall>j. holds_put (pcs s j) \<noteq> Some n)"
    and "\<And>n. holds_take p = Some n \<Longrightarrow>
        holds_take (pcs s i) = Some n \<or> (\<forall>j. holds_take (pcs s j) \<noteq> Some n)"
  shows "tickets_ok s'"
  using assms unfolding tickets_ok_def by (metis fun_upd_apply)

lemma tickets_put: "tickets_ok s \<Longrightarrow> holds_put (pcs s i) = Some n \<Longrightarrow> j \<noteq> i \<Longrightarrow> holds_put (pcs s j) \<noteq> Some n"
  unfolding tickets_ok_def by blast

lemma tickets_take: "tickets_ok s \<Longrightarrow> holds_take (pcs s i) = Some n \<Longrightarrow> j \<noteq> i \<Longrightarrow> holds_take (pcs s j) \<noteq> Some n"
  unfolding tickets_ok_def by blast

lemma holds_put_lt: "pc_ok k s p \<Longrightarrow> holds_put p = Some n \<Longrightarrow> n < length (accepted s) \<and> slot_free k s n"
  by (cases p) auto

lemma holds_take_lt: "pc_ok k s p \<Longrightarrow> holds_take p = Some n \<Longrightarrow>
    n < taken s \<and> slot_full k s n \<and> n \<notin> fst ` set (delivered s)"
  by (cases p) auto

lemma system_invI:
  assumes "ring_ok k s'" and "\<And>j. j \<noteq> i \<Longrightarrow> pc_ok k s' (pcs s j)" and "pc_ok k s' p"
    and "pcs s' = (pcs s)(i := p)" and "tickets_ok s'" and "delivered_ok s'"
  shows "system_inv k s'"
  using assms by (simp add: system_inv_def)

lemma ring_ok_slot: "ring_ok k s \<Longrightarrow> slot (mp_mask (ring s)) h = unat h mod 2 ^ k"
  by (simp add: ring_ok_def slot_pow2)

lemma ring_okI:
  assumes "ring_ok k s" and "mp_mask (ring s') = 2 ^ k - 1"
    and "unat (mp_head (ring s')) = length (accepted s')" and "unat (mp_tail (ring s')) = taken s'"
    and "taken s' \<le> length (accepted s')" and "length (accepted s') \<le> taken s' + 2 ^ k"
    and free: "\<And>c. slot_free k s c \<Longrightarrow>
      \<exists>c'. c' mod 2 ^ k = c mod 2 ^ k \<and> (slot_free k s' c' \<or> slot_full k s' c')"
    and full: "\<And>c. slot_full k s c \<Longrightarrow>
      \<exists>c'. c' mod 2 ^ k = c mod 2 ^ k \<and> (slot_free k s' c' \<or> slot_full k s' c')"
  shows "ring_ok k s'"
proof -
  have "\<exists>c. c mod 2 ^ k = j \<and> (slot_free k s' c \<or> slot_full k s' c)" if j: "j < 2 ^ k" for j
  proof -
    obtain c where c: "c mod 2 ^ k = j" "slot_free k s c \<or> slot_full k s c"
      using assms(1) j by (auto simp: ring_ok_def)
    then show ?thesis using free [of c] full [of c] by blast
  qed
  then show ?thesis using assms(2-6) by (simp add: ring_ok_def)
qed

lemma delivered_step:
  assumes "delivered_ok s" and "delivered s' = delivered s" and "taken s' = taken s"
    and "pcs s' = (pcs s)(i := p)" and "holds_take p = holds_take (pcs s i)"
    and "\<And>n. n < taken s \<Longrightarrow> accepted s' ! n = accepted s ! n"
  shows "delivered_ok s'"
proof -
  have "holds_take (pcs s' j) = holds_take (pcs s j)" for j using assms(4,5) by simp
  then show ?thesis using assms(1,6) unfolding delivered_ok_def assms(2,3) by fastforce
qed

lemma inv_take_ticket:
  assumes inv: "system_inv k s" and k: "1 \<le> k" "k \<le> 62" and pc: "pcs s i = PCmp x h h"
    and head: "mp_head (ring s) = h" and lim: "length (accepted s) < limit"
  shows "system_inv k (goto i (PWrite x h)
      (s\<lparr>ring := (ring s)\<lparr>mp_head := h + 1\<rparr>, accepted := accepted s @ [x]\<rparr>))"
    (is "system_inv k ?s'")
proof -
  let ?n = "length (accepted s)"
  have r: "ring_ok k s" and ok: "\<And>j. pc_ok k s (pcs s j)" and t: "tickets_ok s" and d: "delivered_ok s"
    using inv by (auto simp: system_inv_def)
  have h: "unat h = ?n" using r head by (simp add: ring_ok_def)
  have free: "slot_free k s ?n" using ok [of i] pc h by simp
  have tk: "taken s \<le> ?n" "?n < taken s + 2 ^ k" using r free by (auto simp: ring_ok_def slot_free_def)
  have fr: "slot_free k s c \<Longrightarrow> slot_free k ?s' c" for c by (simp add: slot_free_def)
  have fu: "slot_full k ?s' c" if "slot_full k s c" for c
  proof -
    have "c + 2 ^ k \<noteq> ?n"
    proof
      assume "c + 2 ^ k = ?n"
      then have "?n mod 2 ^ k = c mod 2 ^ k" by (metis mod_add_self2)
      then show False using free_not_full [OF k(1) free that] by simp
    qed
    then show ?thesis using that by (auto simp: slot_full_def nth_append)
  qed
  have "unat (h + 1) = ?n + 1" using h lim by (simp add: unat_succ limit_def)
  then have "ring_ok k ?s'" using r tk fr fu
    by (intro ring_okI [OF r]) (auto simp: ring_ok_def)
  moreover have "pc_ok k ?s' (pcs s j)" for j
    by (rule pc_ok_step [OF ok [of j]]) (use fr fu tk in \<open>auto simp: nth_append\<close>)
  moreover have "pc_ok k ?s' (PWrite x h)" using fr [OF free] h by simp
  moreover have "tickets_ok ?s'"
    by (rule tickets_step [OF t, where i = i]) (use h holds_put_lt [OF ok] in force)+
  moreover have "delivered_ok ?s'"
    by (rule delivered_step [OF d, where i = i and p = "PWrite x h"]) (use tk pc in \<open>auto simp: nth_append\<close>)
  ultimately show ?thesis by (intro system_invI [where i = i and s = s]) auto
qed

lemma inv_write:
  assumes inv: "system_inv k s" and k: "1 \<le> k" and pc: "pcs s i = PWrite x h"
  shows "system_inv k (goto i (PStore x h)
      (s\<lparr>ring := (ring s)\<lparr>mp_data := (mp_data (ring s))(slot (mp_mask (ring s)) h := x)\<rparr>\<rparr>))"
    (is "system_inv k ?s'")
proof -
  have r: "ring_ok k s" and ok: "\<And>j. pc_ok k s (pcs s j)" and t: "tickets_ok s" and d: "delivered_ok s"
    using inv by (auto simp: system_inv_def)
  note sl = ring_ok_slot [OF r]
  have free: "slot_free k s (unat h)" "unat h < length (accepted s)" "accepted s ! unat h = x"
    using ok [of i] pc by simp_all
  have fr: "slot_free k s c \<Longrightarrow> slot_free k ?s' c" for c by (simp add: slot_free_def)
  have fu: "slot_full k s c \<Longrightarrow> slot_full k ?s' c" for c
    using free_not_full [OF k free(1), of c] sl by (auto simp: slot_full_def)
  have "ring_ok k ?s'" using r fr fu by (intro ring_okI [OF r]) (auto simp: ring_ok_def)
  moreover have "pc_ok k ?s' (pcs s j)" if "j \<noteq> i" for j
  proof (rule pc_ok_step [OF ok [of j]])
    fix n assume n: "slot_free k s n" "holds_put (pcs s j) = Some n"
    have "n \<noteq> unat h" using tickets_put [OF t, of i "unat h" j] pc that n by auto
    then have "n mod 2 ^ k \<noteq> unat h mod 2 ^ k" using free_unique [OF n(1) free(1)] by blast
    then show "mp_data (ring ?s') (n mod 2 ^ k) = mp_data (ring s) (n mod 2 ^ k)" using sl by simp
  qed (use fr fu r in \<open>auto simp: ring_ok_def\<close>)
  moreover have "pc_ok k ?s' (PStore x h)" using fr [OF free(1)] free sl by simp
  moreover have "tickets_ok ?s'"
    by (rule tickets_step [OF t, where i = i]) (use pc in auto)
  moreover have "delivered_ok ?s'"
    by (rule delivered_step [OF d, where i = i and p = "PStore x h"]) (use pc in auto)
  ultimately show ?thesis by (intro system_invI [where i = i and s = s]) auto
qed

lemma inv_publish:
  assumes inv: "system_inv k s" and k: "1 \<le> k" "k \<le> 62" and pc: "pcs s i = PStore x h"
    and lim: "length (accepted s) < limit"
  shows "system_inv k (goto i Idle
      (s\<lparr>ring := (ring s)\<lparr>mp_seq := (mp_seq (ring s))(slot (mp_mask (ring s)) h := h + 1)\<rparr>\<rparr>))"
    (is "system_inv k ?s'")
proof -
  have r: "ring_ok k s" and ok: "\<And>j. pc_ok k s (pcs s j)" and t: "tickets_ok s" and d: "delivered_ok s"
    using inv by (auto simp: system_inv_def)
  note sl = ring_ok_slot [OF r]
  let ?n = "unat h"
  have free: "slot_free k s ?n" "?n < length (accepted s)" "accepted s ! ?n = x"
    "mp_data (ring s) (?n mod 2 ^ k) = x"
    using ok [of i] pc by simp_all
  have succ: "unat (h + 1) = ?n + 1" using free lim by (simp add: unat_succ limit_def)
  have new: "slot_full k ?s' ?n"
    using free sl succ r by (auto simp: slot_full_def slot_free_def ring_ok_def)
  have fr: "slot_free k ?s' c" if "slot_free k s c" "c \<noteq> ?n" for c
    using free_unique [OF that(1) free(1)] that sl by (auto simp: slot_free_def)
  have fu: "slot_full k s c \<Longrightarrow> slot_full k ?s' c" for c
    using free_not_full [OF k(1) free(1), of c] sl by (auto simp: slot_full_def)
  have "ring_ok k ?s'"
  proof (rule ring_okI [OF r])
    fix c assume "slot_free k s c"
    then show "\<exists>c'. c' mod 2 ^ k = c mod 2 ^ k \<and> (slot_free k ?s' c' \<or> slot_full k ?s' c')"
      using fr [of c] new by (cases "c = ?n") auto
  qed (use r fu in \<open>auto simp: ring_ok_def\<close>)
  moreover have "pc_ok k ?s' (pcs s j)" if "j \<noteq> i" for j
  proof (rule pc_ok_step [OF ok [of j]])
    fix n assume n: "slot_free k s n" "holds_put (pcs s j) = Some n \<or> n = length (accepted ?s')"
    then have "n \<noteq> ?n" using tickets_put [OF t, of i ?n j] pc that free by auto
    then show "slot_free k ?s' n" using fr n(1) by blast
  qed (use fu r in \<open>auto simp: ring_ok_def\<close>)
  moreover have "tickets_ok ?s'"
    by (rule tickets_step [OF t, where i = i]) auto
  moreover have "delivered_ok ?s'"
    by (rule delivered_step [OF d, where i = i and p = Idle]) (use pc in auto)
  ultimately show ?thesis by (intro system_invI [where i = i and s = s]) auto
qed

lemma inv_take_item:
  assumes inv: "system_inv k s" and k: "1 \<le> k" and pc: "pcs s i = CCmp t (t + 1)"
    and tail: "mp_tail (ring s) = t" and lim: "length (accepted s) < limit"
  shows "system_inv k (goto i (CRead t)
      (s\<lparr>ring := (ring s)\<lparr>mp_tail := t + 1\<rparr>, taken := taken s + 1\<rparr>))"
    (is "system_inv k ?s'")
proof -
  have r: "ring_ok k s" and ok: "\<And>j. pc_ok k s (pcs s j)" and t: "tickets_ok s" and d: "delivered_ok s"
    using inv by (auto simp: system_inv_def)
  have tk: "unat t = taken s" using r tail by (simp add: ring_ok_def)
  have full: "slot_full k s (taken s)" using ok [of i] pc tk by simp
  have lt: "taken s < length (accepted s)" using full by (simp add: slot_full_def)
  have fr: "slot_free k ?s' c" if "slot_free k s c" for c
  proof -
    have "c \<noteq> taken s" using free_not_full [OF k that full] by blast
    then show ?thesis using that by (auto simp: slot_free_def)
  qed
  have fu: "slot_full k s c \<Longrightarrow> slot_full k ?s' c" for c by (simp add: slot_full_def)
  have "unat (t + 1) = taken s + 1" using tk lt lim by (simp add: unat_succ limit_def)
  then have "ring_ok k ?s'" using r lt fr fu by (intro ring_okI [OF r]) (auto simp: ring_ok_def)
  moreover have "pc_ok k ?s' (pcs s j)" for j
    by (rule pc_ok_step [OF ok [of j]]) (use fr fu lt in auto)
  moreover have fresh: "taken s \<notin> fst ` set (delivered s)" using d by (auto simp: delivered_ok_def)
  then have "pc_ok k ?s' (CRead t)" using fu [OF full] tk by simp
  moreover have "tickets_ok ?s'"
    by (rule tickets_step [OF t, where i = i]) (use tk holds_take_lt [OF ok] in force)+
  moreover have "delivered_ok ?s'"
  proof -
    have cover: "\<exists>j. holds_take (pcs ?s' j) = Some n" if n: "n < taken s + 1" "n \<notin> fst ` set (delivered s)" for n
    proof (cases "n = taken s")
      case True
      then show ?thesis using tk by (intro exI [of _ i]) simp
    next
      case False
      then have "n < taken s" using n(1) by simp
      then obtain j where j: "holds_take (pcs s j) = Some n"
        using d n(2) unfolding delivered_ok_def by blast
      moreover have "j \<noteq> i" using j pc by auto
      ultimately show ?thesis by (intro exI [of _ j]) simp
    qed
    have "\<forall>n < taken ?s'. n \<in> fst ` set (delivered ?s') \<or> (\<exists>j. holds_take (pcs ?s' j) = Some n)"
    proof (intro allI impI)
      fix n assume "n < taken ?s'"
      then show "n \<in> fst ` set (delivered ?s') \<or> (\<exists>j. holds_take (pcs ?s' j) = Some n)"
        using cover [of n] by (cases "n \<in> fst ` set (delivered s)") simp_all
    qed
    moreover have "\<forall>(n, x) \<in> set (delivered ?s'). n < taken ?s' \<and> accepted ?s' ! n = x"
      using d by (auto simp: delivered_ok_def)
    ultimately show ?thesis using d unfolding delivered_ok_def by simp
  qed
  ultimately show ?thesis by (intro system_invI [where i = i and s = s]) auto
qed

lemma inv_release:
  assumes inv: "system_inv k s" and k: "1 \<le> k" "k \<le> 62" and pc: "pcs s i = CStore t x"
    and lim: "length (accepted s) < limit"
  shows "system_inv k (goto i Idle
      (s\<lparr>ring := (ring s)\<lparr>mp_seq := (mp_seq (ring s))(slot (mp_mask (ring s)) t :=
           t + mp_mask (ring s) + 1)\<rparr>, delivered := delivered s @ [(unat t, x)]\<rparr>))"
    (is "system_inv k ?s'")
proof -
  have r: "ring_ok k s" and ok: "\<And>j. pc_ok k s (pcs s j)" and tk: "tickets_ok s" and d: "delivered_ok s"
    using inv by (auto simp: system_inv_def)
  note sl = ring_ok_slot [OF r]
  let ?n = "unat t"
  have full: "slot_full k s ?n" "?n < taken s" "?n \<notin> fst ` set (delivered s)" "accepted s ! ?n = x"
    using ok [of i] pc by simp_all
  have le: "taken s \<le> length (accepted s)" "mp_mask (ring s) = 2 ^ k - 1" using r by (simp_all add: ring_ok_def)
  have "?n < 2 ^ 63" using full(2) le lim by (simp add: limit_def)
  then have nxt: "unat (t + mp_mask (ring s) + 1) = ?n + 2 ^ k"
    using unat_next_round [OF k(2)] le(2) by simp
  have new: "slot_free k ?s' (?n + 2 ^ k)"
    using full sl nxt le by (auto simp: slot_free_def slot_full_def)
  have fu: "slot_full k ?s' c" if "slot_full k s c" "c \<noteq> ?n" for c
    using full_unique [OF that(1) full(1)] that sl by (auto simp: slot_full_def)
  have fr: "slot_free k s c \<Longrightarrow> slot_free k ?s' c" for c
    using free_not_full [OF k(1) _ full(1), of c] sl by (auto simp: slot_free_def)
  have "ring_ok k ?s'"
  proof (rule ring_okI [OF r])
    fix c assume "slot_full k s c"
    then show "\<exists>c'. c' mod 2 ^ k = c mod 2 ^ k \<and> (slot_free k ?s' c' \<or> slot_full k ?s' c')"
      using fu [of c] new by (cases "c = ?n") (auto intro: exI [of _ "?n + 2 ^ k"])
  qed (use r fr in \<open>auto simp: ring_ok_def\<close>)
  moreover have "pc_ok k ?s' (pcs s j)" if "j \<noteq> i" for j
  proof (rule pc_ok_step [OF ok [of j]])
    fix n assume n: "slot_full k s n" "holds_take (pcs s j) = Some n \<or> n = taken ?s'"
    then have "n \<noteq> ?n" using tickets_take [OF tk, of i ?n j] pc that full by auto
    then show "slot_full k ?s' n" using fu n(1) by blast
  next
    fix n assume n: "holds_take (pcs s j) = Some n" "n \<in> fst ` set (delivered ?s')"
    then have "n \<noteq> ?n" using tickets_take [OF tk, of i ?n j] pc that by auto
    then show "n \<in> fst ` set (delivered s)" using n(2) by auto
  qed (use fr le in auto)
  moreover have "tickets_ok ?s'"
    by (rule tickets_step [OF tk, where i = i]) auto
  moreover have "delivered_ok ?s'"
  proof -
    have "n \<in> fst ` set (delivered ?s') \<or> (\<exists>j. holds_take (pcs ?s' j) = Some n)" if n: "n < taken s" for n
    proof -
      consider "n \<in> fst ` set (delivered s)" | j where "holds_take (pcs s j) = Some n"
        using d n unfolding delivered_ok_def by blast
      then show ?thesis
      proof cases
        case 2
        then show ?thesis using pc by (cases "j = i") (auto intro!: exI [of _ j])
      qed auto
    qed
    then show ?thesis using d full by (auto simp: delivered_ok_def)
  qed
  ultimately show ?thesis by (intro system_invI [where i = i and s = s]) auto
qed

section \<open>Every step, every reachable state\<close>

lemma accepted_mono: "thread_step s s' \<Longrightarrow> length (accepted s) \<le> length (accepted s')"
  by (cases rule: thread_step.cases) auto

lemma mask_step: "thread_step s s' \<Longrightarrow> mp_mask (ring s') = mp_mask (ring s)"
  by (cases rule: thread_step.cases) auto

lemma pcs_ok: "system_inv k s \<Longrightarrow> pcs s i = p \<Longrightarrow> pc_ok k s p"
  by (auto simp: system_inv_def)

lemma thread_step_inv:
  assumes "thread_step s s'" and inv: "system_inv k s" and k: "1 \<le> k" "k \<le> 62"
    and lim: "length (accepted s) < limit"
  shows "system_inv k s'"
  using assms(1)
proof cases
  have r: "ring_ok k s" using inv by (simp add: system_inv_def)
  have w: "unat (mp_head (ring s)) = length (accepted s)" "unat (mp_tail (ring s)) = taken s"
    "taken s \<le> length (accepted s)"
    using r by (auto simp: ring_ok_def)
  {
    case (enq_seq i x h)
    have "unat h \<le> length (accepted s)" using pcs_ok [OF inv enq_seq(2)] by simp
    moreover have "slot_free k s (unat h)" if "seq_at s h = h"
      using seq_free [OF k(1) r, of "unat h"] that ring_ok_slot [OF r, of h] by simp
    ultimately show ?thesis unfolding enq_seq(1) using enq_seq(2) by (intro goto_inv [OF inv]) auto
  next
    case (deq_seq i t)
    have t: "unat t \<le> taken s" using pcs_ok [OF inv deq_seq(2)] by simp
    moreover have "slot_full k s (unat t)" if "seq_at s t = t + 1"
    proof -
      have "unat (t + 1) = unat t + 1" using t w lim by (simp add: unat_succ limit_def)
      then show ?thesis using seq_full [OF k(1) r, of "unat t"] that ring_ok_slot [OF r, of t] by simp
    qed
    ultimately show ?thesis unfolding deq_seq(1) using deq_seq(2) by (intro goto_inv [OF inv]) auto
  next
    case (enq_cas i x h v)
    then show ?thesis using inv_take_ticket [OF inv k _ _ lim, of i x h] by (simp add: seq_dif_0)
  next
    case (enq_write i x h)
    then show ?thesis using inv_write [OF inv k(1)] by simp
  next
    case (enq_store i x h)
    then show ?thesis using inv_publish [OF inv k _ lim] by simp
  next
    case (deq_cas i t v)
    then show ?thesis using inv_take_item [OF inv k(1) _ _ lim, of i t] by (simp add: seq_dif_0)
  next
    case (deq_read i t)
    have "slot_full k s (unat t)" using pcs_ok [OF inv deq_read(2)] by simp
    then have "mp_data (ring s) (slot (mp_mask (ring s)) t) = accepted s ! unat t"
      using ring_ok_slot [OF r, of t] by (simp add: slot_full_def)
    then show ?thesis unfolding deq_read(1)
      using deq_read(2) pcs_ok [OF inv deq_read(2)] by (intro goto_inv [OF inv]) auto
  next
    case (deq_store i t x)
    then show ?thesis using inv_release [OF inv k _ lim] by simp
  }
qed (use goto_inv [OF inv] pcs_ok [OF inv] inv in \<open>auto simp: system_inv_def ring_ok_def\<close>)

lemma start_inv:
  assumes "1 \<le> k" "k \<le> 62" "mpmc_new js junk (2 ^ k) = Some q"
  shows "system_inv k (start_system q)"
proof -
  have q: "mp_mask q = 2 ^ k - 1" "mp_head q = 0" "mp_tail q = 0"
    "\<And>i. i < 2 ^ k \<Longrightarrow> mp_seq q i = of_nat i"
    using assms by (auto simp: mpmc_new_def unat_pow2 split: if_splits)
  have "slot_free k (start_system q) j" if "j < 2 ^ k" for j
    using that q(4) [of j] pow2_lt_64 [OF assms(2)]
    by (simp add: slot_free_def start_system_def unat_of_nat)
  then have "\<exists>c. c mod 2 ^ k = j \<and> (slot_free k (start_system q) c \<or> slot_full k (start_system q) c)"
    if "j < 2 ^ k" for j
    using that by (intro exI [of _ j]) simp
  then have "ring_ok k (start_system q)" using q by (simp add: ring_ok_def) (simp add: start_system_def)
  then show ?thesis by (simp add: system_inv_def start_system_def tickets_ok_def delivered_ok_def)
qed

lemma reachable_inv:
  assumes "1 \<le> k" "k \<le> 62" "mpmc_new js junk (2 ^ k) = Some q"
  shows "reachable q s \<Longrightarrow> length (accepted s) < limit \<Longrightarrow> system_inv k s"
proof (induction rule: reachable.induct)
  case reach_start
  show ?case using start_inv [OF assms] .
next
  case (reach_step s s')
  then have "length (accepted s) < limit" using accepted_mono by fastforce
  with reach_step show ?case using thread_step_inv assms(1,2) by blast
qed

section \<open>Properties\<close>

lemma taken_items:
  assumes "delivered_ok s" and "taken s \<le> length (accepted s)" and "\<And>i. holds_take (pcs s i) = None"
  shows "mset (map snd (delivered s)) = mset (take (taken s) (accepted s))"
proof -
  let ?f = "map fst (delivered s)"
  have set: "set ?f = {..<taken s}" using assms(1,3) by (force simp: delivered_ok_def)
  have "map snd (delivered s) = map (\<lambda>n. accepted s ! n) ?f"
    using assms(1) by (auto simp: delivered_ok_def)
  then have "mset (map snd (delivered s)) = image_mset (\<lambda>n. accepted s ! n) (mset ?f)"
    by (simp only: mset_map)
  also have "mset ?f = mset_set {..<taken s}"
    using assms(1) set by (metis delivered_ok_def mset_set_set)
  also have "mset_set {..<taken s} = mset [0..<taken s]"
    by (simp add: atLeast0LessThan [symmetric])
  also have "image_mset (\<lambda>n. accepted s ! n) (mset [0..<taken s]) = mset (map (\<lambda>n. accepted s ! n) [0..<taken s])"
    by simp
  also have "map (\<lambda>n. accepted s ! n) [0..<taken s] = take (taken s) (accepted s)"
    using assms(2) by (intro nth_equalityI) simp_all
  finally show ?thesis .
qed

text \<open>
  Any number of threads enqueue and dequeue, in every interleaving: a finished \<open>dequeue\<close>
  with ticket \<open>n\<close> returned the item of the \<open>n\<close>-th accepted \<open>enqueue\<close>, no ticket is served
  twice, and at most \<open>size\<close> accepted items wait (as long as fewer than \<open>2 ^ 63\<close> items were
  accepted since the ring was made).
\<close>

theorem threads_fifo_tickets:
  assumes "1 \<le> k" and "k \<le> 62" and "mpmc_new js junk (2 ^ k) = Some q"
    and "reachable q s" and "length (accepted s) < limit"
  shows "distinct (map fst (delivered s)) \<and>
    (\<forall>(n, x) \<in> set (delivered s). n < taken s \<and> accepted s ! n = x) \<and>
    taken s \<le> length (accepted s) \<and> length (accepted s) \<le> taken s + 2 ^ k"
  using reachable_inv [OF assms]
  by (simp add: system_inv_def ring_ok_def delivered_ok_def)

definition example_ring :: "nat mpmc" where
  "example_ring = the (mpmc_new (\<lambda>_. 0) (\<lambda>_. 0) (2 ^ 1))"

lemma example_ring: "mpmc_new (\<lambda>_. 0) (\<lambda>_. 0) (2 ^ 1) = Some example_ring"
  using mpmc_new_inv [of 1 "\<lambda>_. 0" "\<lambda>_. 0 :: nat"] by (auto simp: example_ring_def)

text \<open>Two producers that hold the tickets 0 and 1 of a ring of size 2.\<close>

definition example_system :: "nat system" where
  "example_system = \<lparr>ring = example_ring\<lparr>mp_head := 2\<rparr>,
     pcs = (\<lambda>_. Idle)(3 := PWrite 7 0, 5 := PWrite 8 1),
     accepted = [7, 8], taken = 0, delivered = []\<rparr>"

lemma example_ring_fields:
  "mp_head example_ring = 0" "mp_seq example_ring 0 = 0" "mp_seq example_ring (Suc 0) = 1"
  "mp_mask example_ring = 1"
proof -
  have "pow2_size 2" using pow2_size_pow2 [of 1] by simp
  then have eq: "example_ring = \<lparr>mp_size = 2, mp_mask = 1,
      mp_seq = (\<lambda>i. if i < 2 then of_nat i else 0), mp_data = (\<lambda>_. 0), mp_head = 0, mp_tail = 0\<rparr>"
    by (simp add: example_ring_def mpmc_new_def)
  show "mp_head example_ring = 0" "mp_seq example_ring 0 = 0" "mp_seq example_ring (Suc 0) = 1"
    "mp_mask example_ring = 1"
    unfolding eq by simp_all
qed

lemma claim_ticket:
  assumes "reachable q s" and "pcs s i = Idle" and "seq_at s (mp_head (ring s)) = mp_head (ring s)"
  shows "reachable q (s\<lparr>ring := (ring s)\<lparr>mp_head := mp_head (ring s) + 1\<rparr>,
    accepted := accepted s @ [x], pcs := (pcs s)(i := PWrite x (mp_head (ring s)))\<rparr>)"
proof -
  let ?h = "mp_head (ring s)"
  let ?s1 = "goto i (PLoad x ?h) s"
  let ?s2 = "goto i (PCmp x ?h ?h) ?s1"
  have "reachable q ?s1" using assms(1) enq_start [of s i x, OF assms(2)] by (rule reach_step)
  moreover have "thread_step ?s1 ?s2" using enq_seq [of ?s1 i x ?h] assms(3) by simp
  ultimately have "reachable q ?s2" by (rule reach_step)
  moreover have "thread_step ?s2 (goto i (PWrite x ?h)
      (?s2\<lparr>ring := (ring ?s2)\<lparr>mp_head := ?h + 1\<rparr>, accepted := accepted ?s2 @ [x]\<rparr>))"
    by (rule enq_cas [where v = ?h]) (simp_all add: seq_dif_0)
  ultimately have "reachable q (goto i (PWrite x ?h)
      (?s2\<lparr>ring := (ring ?s2)\<lparr>mp_head := ?h + 1\<rparr>, accepted := accepted ?s2 @ [x]\<rparr>))"
    by (rule reach_step)
  then show ?thesis by (simp add: goto_def)
qed

lemma example_reachable: "reachable example_ring example_system"
proof -
  let ?s0 = "start_system example_ring"
  let ?s1 = "?s0\<lparr>ring := (ring ?s0)\<lparr>mp_head := mp_head (ring ?s0) + 1\<rparr>,
    accepted := accepted ?s0 @ [7], pcs := (pcs ?s0)(3 := PWrite 7 (mp_head (ring ?s0)))\<rparr>"
  have 1: "reachable example_ring ?s1"
    by (rule claim_ticket [OF reach_start])
      (simp_all add: start_system_def example_ring_fields slot_def)
  have "reachable example_ring (?s1\<lparr>ring := (ring ?s1)\<lparr>mp_head := mp_head (ring ?s1) + 1\<rparr>,
    accepted := accepted ?s1 @ [8], pcs := (pcs ?s1)(5 := PWrite 8 (mp_head (ring ?s1)))\<rparr>)"
    by (rule claim_ticket [OF 1]) (simp_all add: start_system_def example_ring_fields slot_def)
  then show ?thesis by (simp add: start_system_def example_ring_fields example_system_def)
qed

theorem threads_fifo_tickets_witness:
  "reachable example_ring example_system \<and> length (accepted example_system) \<le> taken example_system + 2 ^ 1"
proof -
  have "length (accepted example_system) < limit" by (simp add: example_system_def limit_def)
  from threads_fifo_tickets [OF _ _ example_ring example_reachable this] example_reachable
  show ?thesis by simp
qed

text \<open>
  No item is lost or handed out twice: whenever no consumer is between taking its ticket
  and returning, the items handed out together with the items still in the ring are exactly the
  accepted ones.
\<close>

theorem threads_no_loss:
  assumes "1 \<le> k" and "k \<le> 62" and "mpmc_new js junk (2 ^ k) = Some q"
    and "reachable q s" and "length (accepted s) < limit"
    and "\<And>i. holds_take (pcs s i) = None"
  shows "mset (map snd (delivered s)) + mset (drop (taken s) (accepted s)) = mset (accepted s)"
proof -
  have inv: "delivered_ok s" "taken s \<le> length (accepted s)"
    using reachable_inv [OF assms(1-5)] by (auto simp: system_inv_def ring_ok_def)
  have "mset (accepted s) = mset (take (taken s) (accepted s) @ drop (taken s) (accepted s))" by simp
  then show ?thesis using taken_items [OF inv assms(6)] by (simp only: mset_append)
qed

theorem threads_no_loss_witness:
  "mset (map snd (delivered example_system)) +
     mset (drop (taken example_system) (accepted example_system)) = mset (accepted example_system)"
proof -
  have "length (accepted example_system) < limit" by (simp add: example_system_def limit_def)
  from threads_no_loss [OF _ _ example_ring example_reachable this]
  show ?thesis by (simp add: example_system_def)
qed

text \<open>
  C33: the plain (non-atomic) accesses to the data of a slot never race: while one thread is
  about to write a slot's data, no other thread is about to write or read the same slot.
\<close>

theorem threads_no_data_race:
  assumes "1 \<le> k" and "k \<le> 62" and "mpmc_new js junk (2 ^ k) = Some q"
    and "reachable q s" and "length (accepted s) < limit"
    and "pcs s i = PWrite x h" and "j \<noteq> i" and "pcs s j = PWrite y g \<or> pcs s j = CRead g"
  shows "slot (mp_mask (ring s)) g \<noteq> slot (mp_mask (ring s)) h"
proof -
  have inv: "ring_ok k s" "tickets_ok s" "\<And>i. pc_ok k s (pcs s i)"
    using reachable_inv [OF assms(1-5)] by (auto simp: system_inv_def)
  have h: "slot_free k s (unat h)" using inv(3) [of i] assms(6) by simp
  have "unat g mod 2 ^ k \<noteq> unat h mod 2 ^ k"
    using assms(8)
  proof
    assume "pcs s j = CRead g"
    then have "slot_full k s (unat g)" using inv(3) [of j] by simp
    then show ?thesis using free_not_full [OF assms(1) h] by metis
  next
    assume g: "pcs s j = PWrite y g"
    then have "slot_free k s (unat g)" using inv(3) [of j] by simp
    moreover have "unat g \<noteq> unat h" using tickets_put [OF inv(2), of i "unat h" j] assms(6,7) g by auto
    ultimately show ?thesis using free_unique h by metis
  qed
  then show ?thesis using ring_ok_slot [OF inv(1)] by simp
qed

theorem threads_no_data_race_witness:
  "pcs example_system 3 = PWrite 7 0 \<and> pcs example_system 5 = PWrite 8 1 \<and>
   slot (mp_mask (ring example_system)) 1 \<noteq> slot (mp_mask (ring example_system)) 0"
proof -
  have "length (accepted example_system) < limit" by (simp add: example_system_def limit_def)
  from threads_no_data_race [OF _ _ example_ring example_reachable this, of 3 7 0 5 8 1]
  show ?thesis by (simp add: example_system_def)
qed

end
