(* ===== verification/MpmcLinear.thy ===== *)
theory MpmcLinear
  imports MpmcThreads
begin

text \<open>
  The two models of the ring of \<open>lfmpmc.h\<close> agree: what any number of threads do to it in any
  interleaving of their accesses is what some sequence of whole calls does. A call takes effect
  when its \<open>compare_exchange_weak\<close> takes the ticket.
\<close>

definition ring_started :: "nat \<Rightarrow> 'a system \<Rightarrow> bool" where
  "ring_started k c \<longleftrightarrow> 1 \<le> k \<and> k \<le> 62 \<and> (\<exists>js junk q. mpmc_new js junk (2 ^ k) = Some q \<and> c = start_system q)"

definition below_limit :: "'a system \<Rightarrow> bool" where
  "below_limit s \<longleftrightarrow> length (accepted s) < limit"

definition ring_run :: "'a system \<Rightarrow> 'a list \<times> 'a list \<times> 'a mpmc \<Rightarrow> bool" where
  "ring_run c a \<longleftrightarrow> (\<exists>ops. qrun mpmc_enq mpmc_deq (ring c) ops = a)"

definition ring_related :: "nat \<Rightarrow> 'a system \<Rightarrow> 'a list \<times> 'a list \<times> 'a mpmc \<Rightarrow> bool" where
  "ring_related k s = (\<lambda>(ins, outs, q). system_inv k s \<and> ins = accepted s \<and> outs = take (taken s) (accepted s) \<and>
     mpmc_inv q \<and> mpmc_capacity q = 2 ^ k \<and> mpmc_items q = drop (taken s) (accepted s))"

lemma ring_run_step:
  assumes "ring_run c (ins, outs, q)" and "qrun mpmc_enq mpmc_deq q [op] = (ins', outs', q')"
  shows "ring_run c (ins @ ins', outs @ outs', q')"
proof -
  obtain ops where "qrun mpmc_enq mpmc_deq (ring c) ops = (ins, outs, q)" using assms(1) by (auto simp: ring_run_def)
  then have "qrun mpmc_enq mpmc_deq (ring c) (ops @ [op]) = (ins @ ins', outs @ outs', q')"
    by (simp only: qrun_append prod.case assms(2))
  then show ?thesis unfolding ring_run_def by blast
qed

text \<open>The producer's ticket: the sequential \<open>enqueue\<close> has room.\<close>

lemma match_enq:
  assumes s': "thread_step s s'" "accepted s' = accepted s @ [x]" "taken s' = taken s" "system_inv k s'"
    and room: "length (accepted s) < taken s + 2 ^ k" "taken s \<le> length (accepted s)"
    and run: "ring_run c (ins, outs, q)" and rel: "ring_related k s (ins, outs, q)"
  shows "\<exists>a. ring_run c a \<and> ring_related k s' a"
proof -
  have q: "mpmc_inv q" "mpmc_capacity q = 2 ^ k" "mpmc_items q = drop (taken s) (accepted s)"
    using rel by (simp_all add: ring_related_def)
  then have "length (mpmc_items q) < mpmc_capacity q" using room by simp
  then obtain q' where q': "mpmc_enq x q = (True, q')" "mpmc_inv q'" "mpmc_items q' = mpmc_items q @ [x]"
    "mpmc_capacity q' = 2 ^ k"
    using mpmc.enq_below [OF q(1), of x] q(2) by auto
  have "ring_run c (ins @ [x], outs @ [], q')"
    by (rule ring_run_step [OF run, of "Enq x"]) (simp add: q'(1))
  then show ?thesis using rel s'(2-4) q' q(3) room(2)
    by (intro exI [of _ "(ins @ [x], outs @ [], q')"]) (simp add: ring_related_def)
qed

text \<open>The consumer's ticket: the sequential \<open>dequeue\<close> has an item.\<close>

lemma match_deq:
  assumes s': "accepted s' = accepted s" "taken s' = taken s + 1" "system_inv k s'"
    and item: "taken s < length (accepted s)"
    and run: "ring_run c (ins, outs, q)" and rel: "ring_related k s (ins, outs, q)"
  shows "\<exists>a. ring_run c a \<and> ring_related k s' a"
proof -
  let ?x = "accepted s ! taken s"
  have q: "mpmc_inv q" "mpmc_capacity q = 2 ^ k" "mpmc_items q = ?x # drop (Suc (taken s)) (accepted s)"
    using rel item by (simp_all add: ring_related_def Cons_nth_drop_Suc)
  obtain q' where q': "mpmc_deq q = (Some ?x, q')" "mpmc_inv q'" "mpmc_items q' = drop (Suc (taken s)) (accepted s)"
    "mpmc_capacity q' = 2 ^ k"
    using mpmc.deq_item [OF q(1,3)] q(2) by auto
  have "ring_run c (ins @ [], outs @ [?x], q')"
    by (rule ring_run_step [OF run, of Deq]) (simp add: q'(1))
  then show ?thesis using rel s' q' item
    by (intro exI [of _ "(ins @ [], outs @ [?x], q')"]) (simp add: ring_related_def take_Suc_conv_app_nth)
qed

lemma ring_tickets:
  "thread_step s s' \<Longrightarrow> (accepted s' = accepted s \<and> taken s' = taken s) \<or>
     (\<exists>i x h. pcs s i = PCmp x h h \<and> mp_head (ring s) = h \<and> accepted s' = accepted s @ [x] \<and> taken s' = taken s) \<or>
     (\<exists>i t. pcs s i = CCmp t (t + 1) \<and> mp_tail (ring s) = t \<and> accepted s' = accepted s \<and> taken s' = taken s + 1)"
  by (induction rule: thread_step.induct) (auto simp: seq_dif_0)

interpretation ring_sim: run_simulation "ring_started k" thread_step below_limit ring_run "ring_related k" for k
proof
  fix c0 :: "'a system"
  assume "ring_started k c0"
  then obtain js junk q where k: "1 \<le> k" "k \<le> 62" and q: "mpmc_new js junk (2 ^ k) = Some q"
    and c0: "c0 = start_system q" by (auto simp: ring_started_def)
  then have "ring_related k c0 ([], [], q)"
    using start_inv [OF k q] mpmc_new_inv [OF k, of js junk] by (auto simp: ring_related_def start_system_def)
  moreover have "ring_run c0 ([], [], q)"
    unfolding ring_run_def by (rule exI [of _ "[]"]) (simp add: c0 start_system_def)
  ultimately show "\<exists>a. ring_run c0 a \<and> ring_related k c0 a" by blast
next
  fix c c' :: "'a system"
  assume "thread_step c c'" "below_limit c'"
  then show "below_limit c" using accepted_mono by (fastforce simp: below_limit_def)
next
  fix c c' c0 :: "'a system" and a
  assume h: "thread_step c c'" "below_limit c'" "ring_started k c0" "ring_run c0 a" "ring_related k c a"
  obtain ins outs q where a: "a = (ins, outs, q)" by (metis prod_cases3)
  have k: "1 \<le> k" "k \<le> 62" using h(3) by (auto simp: ring_started_def)
  have inv: "system_inv k c" using h(5) a by (simp add: ring_related_def)
  have lim: "length (accepted c) < limit" using h(1,2) accepted_mono by (fastforce simp: below_limit_def)
  have inv': "system_inv k c'" by (rule thread_step_inv [OF h(1) inv k lim])
  have r: "unat (mp_head (ring c)) = length (accepted c)" "unat (mp_tail (ring c)) = taken c"
    "taken c \<le> length (accepted c)"
    using inv by (auto simp: system_inv_def ring_ok_def)
  from ring_tickets [OF h(1)] consider (same) "accepted c' = accepted c" "taken c' = taken c"
    | (enq) i x h where "pcs c i = PCmp x h h" "mp_head (ring c) = h" "accepted c' = accepted c @ [x]" "taken c' = taken c"
    | (deq) i t where "pcs c i = CCmp t (t + 1)" "mp_tail (ring c) = t" "accepted c' = accepted c" "taken c' = taken c + 1"
    by blast
  then show "\<exists>a'. ring_run c0 a' \<and> ring_related k c' a'"
  proof cases
    case same
    then show ?thesis using h(4,5) inv' a by (intro exI [of _ a]) (simp add: ring_related_def)
  next
    case enq
    have "slot_free k c (length (accepted c))" using pcs_ok [OF inv enq(1)] r(1) enq(2) by simp
    then have "length (accepted c) < taken c + 2 ^ k" by (simp add: slot_free_def)
    with match_enq [OF h(1) enq(3,4) inv' this r(3)] h(4,5) a show ?thesis by blast
  next
    case deq
    have "slot_full k c (taken c)" using pcs_ok [OF inv deq(1)] r(2) deq(2) by simp
    then have "taken c < length (accepted c)" by (simp add: slot_full_def)
    with match_deq [OF deq(3,4) inv' this] h(4,5) a show ?thesis by blast
  qed
qed

lemma reachable_steps: "reachable q s \<Longrightarrow> thread_step\<^sup>*\<^sup>* (start_system q) s"
  by (induction rule: reachable.induct) (auto intro: rtranclp.rtrancl_into_rtrancl)

section \<open>Properties\<close>

text \<open>
  C32: whatever any number of threads do to the ring, in any interleaving of their accesses, there is a
  sequence of whole calls with the same items accepted and handed out and the same items left; every
  finished \<open>dequeue\<close> returned the item that sequence hands out for its ticket, and no two have the same
  ticket.
\<close>

theorem mpmc_threads_linear:
  assumes "1 \<le> k" and "k \<le> 62" and "mpmc_new js junk (2 ^ k) = Some q"
    and "reachable q s" and "length (accepted s) < limit"
  shows "\<exists>ops outs q'. qrun mpmc_enq mpmc_deq q ops = (accepted s, outs, q') \<and>
    mpmc_items q' = drop (taken s) (accepted s) \<and> outs = take (taken s) (accepted s) \<and>
    (\<forall>(n, x) \<in> set (delivered s). n < length outs \<and> outs ! n = x) \<and> distinct (map fst (delivered s))"
proof -
  have "ring_started k (start_system q)" using assms(1-3) by (auto simp: ring_started_def)
  moreover have "below_limit s" using assms(5) by (simp add: below_limit_def)
  ultimately obtain a where a: "ring_run (start_system q) a" "ring_related k s a"
    using ring_sim.reach_related [OF reachable_steps [OF assms(4)]] by blast
  obtain ins outs q' where aeq: "a = (ins, outs, q')" by (metis prod_cases3)
  obtain ops where ops: "qrun mpmc_enq mpmc_deq q ops = (ins, outs, q')"
    using a(1) aeq by (auto simp: ring_run_def start_system_def)
  have rel: "system_inv k s" "ins = accepted s" "outs = take (taken s) (accepted s)"
    "mpmc_items q' = drop (taken s) (accepted s)"
    using a(2) aeq by (simp_all add: ring_related_def)
  then have "taken s \<le> length (accepted s)" "\<forall>(n, x) \<in> set (delivered s). n < taken s \<and> accepted s ! n = x"
    "distinct (map fst (delivered s))"
    by (simp_all add: system_inv_def ring_ok_def delivered_ok_def)
  then show ?thesis using ops rel
    by (intro exI [of _ ops] exI [of _ outs] exI [of _ q']) (auto simp: min_def)
qed

theorem mpmc_threads_linear_witness:
  "reachable example_ring example_system \<and>
    (\<exists>ops q'. qrun mpmc_enq mpmc_deq example_ring ops = ([7, 8], [], q') \<and> mpmc_items q' = [7, 8])"
proof -
  have "length (accepted example_system) < limit" by (simp add: example_system_def limit_def)
  from mpmc_threads_linear [OF _ _ example_ring example_reachable this] example_reachable
  show ?thesis by (auto simp: example_system_def)
qed

end
