(* ===== verification/HashMap.thy ===== *)
theory HashMap
  imports Prelude
begin

text \<open>
  \<open>hashMap.cc\<close>: the map from original keys to 32-bit hash values and the set of values in use.
  The hash function is \<open>std::hash<uint64_t>\<close>, implementation-defined by the C++ standard: it is the
  parameter \<open>hash\<close> of the definitions. The loop of \<open>hashMapInsert\<close> is a \<open>partial_function\<close>: \<open>None\<close>
  is a call that never returns.
\<close>

type_synonym hash_state = "(64 word \<rightharpoonup> 32 word) \<times> 32 word set"

definition hash32 :: "(64 word \<Rightarrow> 64 word) \<Rightarrow> 64 word \<Rightarrow> 32 word" where
  "hash32 hash orgKey = ucast (and (hash orgKey) 0xffffffff)"

partial_function (option) find_free ::
    "(64 word \<Rightarrow> 64 word) \<Rightarrow> 32 word set \<Rightarrow> 64 word \<Rightarrow> 32 word \<Rightarrow> 32 word option" where
  "find_free hash hashValues orgKey hashValue =
     (if hashValue \<in> hashValues then find_free hash hashValues orgKey (hash32 hash orgKey)
      else Some hashValue)"

definition hashMapInsert ::
    "(64 word \<Rightarrow> 64 word) \<Rightarrow> hash_state \<Rightarrow> 64 word \<Rightarrow> (32 word \<times> hash_state) option" where
  "hashMapInsert hash s orgKey =
     (case s of (hashMap, hashValues) \<Rightarrow>
        (case hashMap orgKey of
           Some v \<Rightarrow> Some (v, s)
         | None \<Rightarrow>
             (case find_free hash hashValues orgKey (hash32 hash orgKey) of
                None \<Rightarrow> None
              | Some hv \<Rightarrow> Some (hv, (hashMap(orgKey \<mapsto> hv), insert hv hashValues)))))"

definition hashMapFind :: "hash_state \<Rightarrow> 64 word \<Rightarrow> 32 word" where
  "hashMapFind s orgKey = (case fst s orgKey of Some v \<Rightarrow> v | None \<Rightarrow> - 1)"

text \<open>The values in use are those of the map, and no two keys share one.\<close>

definition hash_inv :: "hash_state \<Rightarrow> bool" where
  "hash_inv s \<longleftrightarrow> ran (fst s) = snd s \<and> inj_on (fst s) (dom (fst s))"

lemma find_free_result:
  assumes "find_free hash vs k v = Some r"
  shows "r \<notin> vs \<and> (r = v \<or> r = hash32 hash k)"
proof (rule find_free.raw_induct [where P = "\<lambda>hash vs k v r. r \<notin> vs \<and> (r = v \<or> r = hash32 hash k)", OF _ assms])
  fix f hash vs k v r
  assume IH: "\<And>hash vs k v r. f hash vs k v = Some r \<Longrightarrow> r \<notin> vs \<and> (r = v \<or> r = hash32 hash k)"
    and eq: "(if v \<in> vs then f hash vs k (hash32 hash k) else Some v) = Some r"
  show "r \<notin> vs \<and> (r = v \<or> r = hash32 hash k)"
  proof (cases "v \<in> vs")
    case True
    then have "f hash vs k (hash32 hash k) = Some r" using eq by simp
    then show ?thesis using IH by blast
  next
    case False
    then show ?thesis using eq by simp
  qed
qed

lemma find_free_iff:
  "find_free hash vs k (hash32 hash k) =
     (if hash32 hash k \<in> vs then None else Some (hash32 hash k))"
proof (cases "hash32 hash k \<in> vs")
  case True
  have "find_free hash vs k (hash32 hash k) \<noteq> Some r" for r
    using find_free_result [of hash vs k "hash32 hash k" r] True by auto
  then show ?thesis using True by (cases "find_free hash vs k (hash32 hash k)") auto
next
  case False
  then show ?thesis by (subst find_free.simps) simp
qed

lemma hashMapInsert_eq:
  "hashMapInsert hash (m, vs) k =
     (case m k of
        Some v \<Rightarrow> Some (v, (m, vs))
      | None \<Rightarrow> if hash32 hash k \<in> vs then None
                else Some (hash32 hash k, (m(k \<mapsto> hash32 hash k), insert (hash32 hash k) vs)))"
  by (simp add: hashMapInsert_def find_free_iff split: option.split)

section \<open>The contract of a key map\<close>

text \<open>
  What the code around the map relies on: an insertion that returns keeps the invariant, the
  value it returned is found again, other keys keep theirs, different keys have different values.
\<close>

locale key_map =
  fixes invar :: "'s \<Rightarrow> bool"
    and lookup :: "'s \<Rightarrow> 'k \<Rightarrow> 'v option"
    and ins :: "'s \<Rightarrow> 'k \<Rightarrow> ('v \<times> 's) option"
  assumes ins_invar: "invar s \<Longrightarrow> ins s k = Some (v, s') \<Longrightarrow> invar s'"
    and ins_lookup: "invar s \<Longrightarrow> ins s k = Some (v, s') \<Longrightarrow> lookup s' = (lookup s)(k \<mapsto> v)"
    and ins_known: "invar s \<Longrightarrow> lookup s k = Some v \<Longrightarrow> ins s k = Some (v, s)"
    and injective: "invar s \<Longrightarrow> lookup s k = Some v \<Longrightarrow> lookup s k' = Some v \<Longrightarrow> k = k'"
begin

lemma ins_found: "invar s \<Longrightarrow> ins s k = Some (v, s') \<Longrightarrow> lookup s' k = Some v"
  using ins_lookup by simp

lemma ins_others: "invar s \<Longrightarrow> ins s k = Some (v, s') \<Longrightarrow> k' \<noteq> k \<Longrightarrow> lookup s' k' = lookup s k'"
  using ins_lookup by simp

lemma ins_again: "invar s \<Longrightarrow> ins s k = Some (v, s') \<Longrightarrow> ins s' k = Some (v, s')"
  using ins_invar ins_known ins_found by blast

lemma ins_owner: "invar s \<Longrightarrow> ins s k = Some (v, s') \<Longrightarrow> lookup s' k' = Some v \<Longrightarrow> k' = k"
  using ins_invar ins_found injective by blast

end

interpretation hmap: key_map hash_inv "fst :: hash_state \<Rightarrow> 64 word \<rightharpoonup> 32 word" "hashMapInsert hash"
  for hash
proof unfold_locales
  fix s k v s'
  assume inv: "hash_inv s"
  obtain m vs where s: "s = (m, vs)" by fastforce
  show "hash_inv s'" if "hashMapInsert hash s k = Some (v, s')"
  proof (cases "m k")
    case None
    then have "hash32 hash k \<notin> vs" "s' = (m(k \<mapsto> hash32 hash k), insert (hash32 hash k) vs)"
      using that s by (auto simp: hashMapInsert_eq split: if_splits)
    moreover have "Some (hash32 hash k) \<notin> m ` dom m"
      using calculation(1) inv s by (auto simp: hash_inv_def ran_def)
    moreover have "inj_on (m(k \<mapsto> hash32 hash k)) (dom m)"
      using inv s None by (auto simp: hash_inv_def inj_on_def)
    ultimately show ?thesis using inv s None by (auto simp: hash_inv_def)
  next
    case (Some w)
    then show ?thesis using that s inv by (simp add: hashMapInsert_eq)
  qed
  show "fst s' = (fst s)(k \<mapsto> v)" if "hashMapInsert hash s k = Some (v, s')"
    using that s by (auto simp: hashMapInsert_eq split: option.splits if_splits)
  show "hashMapInsert hash s k = Some (v, s)" if "fst s k = Some v"
    using that s by (simp add: hashMapInsert_eq)
  show "k = k'" if "fst s k = Some v" "fst s k' = Some v" for k'
    using that inv by (auto simp: hash_inv_def inj_on_def dom_def)
qed

section \<open>Properties\<close>

text \<open>
  An insertion that returns keeps the values of the map distinct and in step with the set of
  used values; the returned value is the one \<open>hashMapFind\<close> gives for the key from then on, and
  every other key keeps its answer.
\<close>

theorem hashMapInsert_correct:
  assumes "hash_inv s" and "hashMapInsert hash s k = Some (v, s')"
  shows "hash_inv s' \<and> hashMapFind s' k = v \<and>
    (\<forall>k'. k' \<noteq> k \<longrightarrow> hashMapFind s' k' = hashMapFind s k') \<and>
    (\<forall>k'. fst s' k' = Some v \<longrightarrow> k' = k)"
proof -
  have "hashMapFind s' k = v"
    using hmap.ins_found [OF assms] by (simp add: hashMapFind_def)
  moreover have "hashMapFind s' k' = hashMapFind s k'" if "k' \<noteq> k" for k'
    using hmap.ins_others [OF assms that] by (simp add: hashMapFind_def)
  ultimately show ?thesis
    using hmap.ins_invar [OF assms] hmap.ins_owner [OF assms] by blast
qed

theorem hashMapInsert_correct_witness:
  "\<exists>v s'. hashMapInsert id (Map.empty, {}) 77 = Some (v, s') \<and> hash_inv s' \<and> hashMapFind s' 77 = v"
proof -
  have r: "hashMapInsert id (Map.empty, {}) 77 =
      Some (hash32 id 77, (Map.empty(77 \<mapsto> hash32 id 77), insert (hash32 id 77) {}))"
    unfolding hashMapInsert_eq by (simp only: option.case empty_iff if_False)
  have "hash_inv (Map.empty, {})" by (simp add: hash_inv_def)
  from hashMapInsert_correct [OF this r] r show ?thesis by blast
qed

text \<open>
  C40: \<open>hashMapInsert\<close> never returns exactly when the key is new and its hash value is taken: the
  loop computes the same value again.
\<close>

theorem hashMapInsert_hangs_iff:
  "hashMapInsert hash (m, vs) k = None \<longleftrightarrow> m k = None \<and> hash32 hash k \<in> vs"
  by (simp add: hashMapInsert_eq split: option.split)

end
