(* ===== verification/Util.thy ===== *)
theory Util
  imports Prelude
begin

text \<open>
  \<open>util.cc\<close>: the decimal parser \<open>atop\<close> and \<open>pattern_limits\<close>, which turns a glob pattern into a key
  range; and the byte order of keys, \<open>Slice::compare\<close> of \<open>include/rocksdb/slice.h\<close>, in which that
  range is meant. A pointer with a length is the list of its bytes. \<open>None\<close> is a signed overflow.
\<close>

fun atop_loop :: "int \<Rightarrow> byte list \<Rightarrow> int option" where
  "atop_loop ret [] = Some ret"
| "atop_loop ret (c # str) =
     (if c_char c < 48 \<or> 57 < c_char c then Some (- 1)
      else if is_int (ret * 10 + (c_char c - 48)) then atop_loop (ret * 10 + (c_char c - 48)) str
      else None)"

definition atop :: "byte list \<Rightarrow> int option" where
  "atop str = atop_loop 0 str"

definition is_special :: "byte \<Rightarrow> bool" where
  "is_special c \<longleftrightarrow> c = CHR ''*'' \<or> c = CHR ''?'' \<or> c = CHR ''['' \<or> c = CHR 0x5C"

text \<open>The loop of \<open>pattern_limits\<close>: the bytes before the first special one.\<close>

fun literal_prefix :: "byte list \<Rightarrow> byte list" where
  "literal_prefix [] = []"
| "literal_prefix (c # cs) = (if is_special c then [] else c # literal_prefix cs)"

definition byte_succ :: "byte \<Rightarrow> byte" where
  "byte_succ c = char_of ((of_char c :: nat) + 1)"

text \<open>
  The result is the return value with the bytes of \<open>start\<close> and \<open>end\<close> (\<open>None\<close> for \<open>NULL\<close>). The
  local \<open>star\<close> is 1 from its initialisation on.
\<close>

definition pattern_limits :: "byte list \<Rightarrow> int \<times> byte list option \<times> byte list option" where
  "pattern_limits pattern =
     (if pattern = [CHR ''*''] then (1, None, None)
      else let p = literal_prefix pattern
           in if p = [] then (1, Some [], Some [])
              else if last p = CHR 0xFF then (0, Some p, Some (p @ [NUL]))
              else (0, Some p, Some (butlast p @ [byte_succ (last p)])))"

section \<open>The order of keys\<close>

primrec memcmp :: "byte list \<Rightarrow> byte list \<Rightarrow> int" where
  "memcmp [] b = 0"
| "memcmp (x # a) b =
     (case b of [] \<Rightarrow> 0
      | y # b' \<Rightarrow> if x = y then memcmp a b' else if (of_char x :: nat) < of_char y then - 1 else 1)"

definition slice_compare :: "byte list \<Rightarrow> byte list \<Rightarrow> int" where
  "slice_compare a b =
     (let n = min (length a) (length b); r = memcmp (take n a) (take n b)
      in if r = 0 then (if length a < length b then - 1 else if length a > length b then 1 else r)
         else r)"

lemma slice_compare_Nil: "slice_compare [] b = (if b = [] then 0 else - 1)"
  by (simp add: slice_compare_def)

lemma slice_compare_Cons_Nil: "slice_compare (x # a) [] = 1"
  by (simp add: slice_compare_def)

lemma slice_compare_Cons:
  "slice_compare (x # a) (y # b) =
     (if x = y then slice_compare a b else if (of_char x :: nat) < of_char y then - 1 else 1)"
  by (simp add: slice_compare_def Let_def)

lemma slice_compare_to_Nil: "slice_compare xs [] = (if xs = [] then 0 else 1)"
  by (cases xs) (simp_all add: slice_compare_Nil slice_compare_Cons_Nil)

lemmas slice_compare_simps = slice_compare_to_Nil slice_compare_Nil slice_compare_Cons_Nil slice_compare_Cons

definition key_in_range :: "byte list \<Rightarrow> byte list \<Rightarrow> byte list \<Rightarrow> bool" where
  "key_in_range start stop key \<longleftrightarrow> slice_compare start key \<le> 0 \<and> slice_compare key stop < 0"

lemma byte_succ_value: "c \<noteq> CHR 0xFF \<Longrightarrow> (of_char (byte_succ c) :: nat) = of_char c + 1"
proof -
  assume "c \<noteq> CHR 0xFF"
  moreover have "(of_char c :: nat) < 256" by (rule nat_of_char_less_256)
  moreover have "(of_char c :: nat) \<noteq> 255"
  proof
    assume "(of_char c :: nat) = 255"
    then have "(of_char c :: nat) = of_char (CHR 0xFF)" by simp
    then have "c = CHR 0xFF" by (simp only: of_char_eq_iff)
    then show False using calculation by simp
  qed
  ultimately have "(of_char c :: nat) + 1 < 256" by arith
  then show ?thesis by (simp only: byte_succ_def of_char_of) simp
qed

lemma range_is_prefix:
  "last p \<noteq> CHR 0xFF \<Longrightarrow> p \<noteq> [] \<Longrightarrow>
     key_in_range p (butlast p @ [byte_succ (last p)]) key \<longleftrightarrow> take (length p) key = p"
proof (induction p arbitrary: key)
  case (Cons c p)
  show ?case
  proof (cases key)
    case Nil
    then show ?thesis by (simp add: key_in_range_def slice_compare_simps)
  next
    case (Cons x xs)
    show ?thesis
    proof (cases "p = []")
      case True
      have "c \<noteq> CHR 0xFF" using Cons.prems True by simp
      then have "(of_char (byte_succ c) :: nat) = of_char c + 1" by (rule byte_succ_value)
      moreover from this have "byte_succ c \<noteq> c" by auto
      moreover have "x = c \<longleftrightarrow> (of_char x :: nat) = of_char c" by (simp add: of_char_eq_iff)
      moreover have "x = byte_succ c \<longleftrightarrow> (of_char x :: nat) = of_char (byte_succ c)" by (simp add: of_char_eq_iff)
      ultimately show ?thesis using True Cons
        by (auto simp: key_in_range_def slice_compare_simps split: if_splits)
    next
      case False
      then show ?thesis using Cons Cons.IH [of xs] Cons.prems
        by (auto simp: key_in_range_def slice_compare_simps)
    qed
  qed
qed simp

section \<open>Properties\<close>

lemma literal_prefix_no_special: "c \<in> set (literal_prefix p) \<Longrightarrow> \<not> is_special c"
  by (induction p) (auto split: if_splits)

lemma literal_prefix_split:
  "\<exists>rest. p = literal_prefix p @ rest \<and> (rest = [] \<or> is_special (hd rest))"
proof (induction p)
  case (Cons c p)
  then show ?case by (cases "is_special c") auto
qed simp

lemma compare_self_NUL: "key_in_range p (p @ [NUL]) key \<longleftrightarrow> key = p"
proof (induction p arbitrary: key)
  case Nil
  show ?case
  proof (cases key)
    case (Cons x xs)
    then show ?thesis by (simp add: key_in_range_def slice_compare_simps)
  qed (simp add: key_in_range_def slice_compare_simps)
next
  case (Cons c p)
  show ?case
  proof (cases key)
    case Nil
    then show ?thesis by (simp add: key_in_range_def slice_compare_simps)
  next
    case (Cons x xs)
    then show ?thesis using Cons.IH [of xs]
      by (auto simp: key_in_range_def slice_compare_simps)
  qed
qed

text \<open>
  For a pattern whose literal prefix is not empty and does not end in the byte 0xFF,
  \<open>pattern_limits\<close> returns 0 with a key range that holds exactly the keys starting with that prefix,
  in the byte order of \<open>Slice::compare\<close>.
\<close>

theorem pattern_limits_range:
  assumes "literal_prefix p \<noteq> []" and "last (literal_prefix p) \<noteq> CHR 0xFF"
  shows "\<exists>start stop. pattern_limits p = (0, Some start, Some stop) \<and>
    (\<forall>key. key_in_range start stop key \<longleftrightarrow> take (length (literal_prefix p)) key = literal_prefix p)"
proof -
  have "p \<noteq> [CHR ''*'']" using assms(1) by (auto simp: is_special_def)
  then show ?thesis using assms range_is_prefix [OF assms(2,1)]
    by (auto simp: pattern_limits_def Let_def)
qed

theorem pattern_limits_range_witness:
  "\<exists>start stop. pattern_limits ''us*r'' = (0, Some start, Some stop) \<and> key_in_range start stop ''use''"
  using pattern_limits_range [of "''us*r''"] by (auto simp: is_special_def)

text \<open>
  When the literal prefix ends in the byte 0xFF, the range that \<open>pattern_limits\<close> returns holds
  the prefix itself and no longer key.
\<close>

theorem pattern_limits_ff_range:
  assumes "literal_prefix p \<noteq> []" and "last (literal_prefix p) = CHR 0xFF"
  shows "\<exists>start stop. pattern_limits p = (0, Some start, Some stop) \<and>
    (\<forall>key. key_in_range start stop key \<longleftrightarrow> key = literal_prefix p)"
proof -
  have "p \<noteq> [CHR ''*'']" using assms(1) by (auto simp: is_special_def)
  then show ?thesis using assms compare_self_NUL by (auto simp: pattern_limits_def Let_def)
qed

theorem pattern_limits_ff_range_witness:
  "\<exists>start stop. pattern_limits [CHR 0xFF, CHR ''*''] = (0, Some start, Some stop) \<and>
     \<not> key_in_range start stop [CHR 0xFF, CHR ''a'']"
  using pattern_limits_ff_range [of "[CHR 0xFF, CHR ''*'']"] by (auto simp: is_special_def)

lemma c_char_digit_range: "d < 10 \<Longrightarrow> \<not> (c_char (digit_char d) < 48 \<or> 57 < c_char (digit_char d))"
  by (simp add: c_char_digit)

lemma dec_value_mono:
  "\<forall>d \<in> set ds. \<exists>k < 10. d = digit_char k \<Longrightarrow> 0 \<le> a \<Longrightarrow> a \<le> dec_value a ds"
proof (induction ds arbitrary: a)
  case (Cons d ds)
  then obtain k where k: "k < 10" "d = digit_char k" by auto
  have "a * 10 + (c_char d - 48) \<le> dec_value (a * 10 + (c_char d - 48)) ds"
    using Cons.prems k by (intro Cons.IH) (simp_all add: c_char_digit)
  then show ?case using k Cons.prems by (simp add: c_char_digit)
qed simp

lemma atop_digits:
  "\<forall>d \<in> set ds. \<exists>k < 10. d = digit_char k \<Longrightarrow> 0 \<le> a \<Longrightarrow> a \<le> INT_MAX \<Longrightarrow>
     atop_loop a ds = (if dec_value a ds \<le> INT_MAX then Some (dec_value a ds) else None)"
proof (induction ds arbitrary: a)
  case (Cons d ds)
  then obtain k where k: "k < 10" "d = digit_char k" by auto
  let ?a = "a * 10 + (c_char d - 48)"
  have ge: "0 \<le> ?a" using k Cons.prems by (simp add: c_char_digit)
  have mono: "?a \<le> dec_value ?a ds" using Cons.prems ge by (intro dec_value_mono) simp_all
  show ?case
  proof (cases "?a \<le> INT_MAX")
    case True
    then have "atop_loop ?a ds = (if dec_value ?a ds \<le> INT_MAX then Some (dec_value ?a ds) else None)"
      using Cons.prems ge by (intro Cons.IH) simp_all
    then show ?thesis using True ge c_char_digit_range [OF k(1)] k(2)
      by (simp add: is_int_def INT_MIN_def)
  next
    case False
    then show ?thesis using mono c_char_digit_range [OF k(1)] k(2)
      by (simp add: is_int_def)
  qed
qed simp

text \<open>
  \<open>atop\<close> inverts decimal printing on the range of \<open>int\<close>, and overflows exactly beyond it.
\<close>

theorem atop_dec: "atop (dec n) = (if int n \<le> INT_MAX then Some (int n) else None)"
  using atop_digits [OF dec_digits, of 0 n] by (simp add: atop_def dec_value_dec INT_MAX_def)

text \<open>
  \<open>atop\<close> answers -1 as soon as a short digit string is followed by a byte that is no digit,
  whatever comes after it.
\<close>

theorem atop_rejects:
  assumes "int n \<le> INT_MAX" and "\<not> isdigit c"
  shows "atop (dec n @ c # rest) = Some (- 1)"
proof -
  have "atop_loop a (ds @ c # rest) = Some (- 1)"
    if "atop_loop a ds \<noteq> None" and "\<forall>d \<in> set ds. isdigit d" for a ds
    using that
  proof (induction ds arbitrary: a)
    case Nil
    then show ?case using assms(2) by (auto simp: isdigit_def)
  next
    case (Cons d ds)
    then show ?case by (auto simp: isdigit_def split: if_splits)
  qed
  moreover have "atop_loop 0 (dec n) \<noteq> None"
    using atop_digits [OF dec_digits, of 0 n] assms(1) by (simp add: dec_value_dec INT_MAX_def)
  ultimately show ?thesis using dec_isdigit by (simp add: atop_def)
qed

theorem atop_rejects_witness: "atop (dec 42 @ CHR ''x'' # ''7'') = Some (- 1)"
  using atop_rejects [of 42 "CHR ''x''" "''7''"] by (simp add: INT_MAX_def isdigit_def c_char_def)

end
