(* ===== verification/Client.thy ===== *)
theory Client
  imports Prelude "HOL-Library.Monad_Syntax"
begin

text \<open>
  \<open>client.cc\<close> and the types of \<open>server.h\<close>: the record of a connection, its reply buffer and its
  flush. The two byte buffers are memories with the limits \<open>BUFSIZE\<close> and \<open>OUTPUT_BUFSIZE\<close>; the
  arrays \<open>args\<close> and \<open>args_size\<close> are functions with the limit \<open>args_cap\<close>. An argument points into
  the input buffer or at a string literal. \<open>None\<close> is undefined behaviour. A \<open>malloc\<close> or \<open>realloc\<close>
  succeeds; the bytes it returns are arbitrary. The pointer \<open>mutex\<close> and the constant output of
  \<open>printf\<close> are left out.
\<close>

definition BUFSIZE :: int where "BUFSIZE = 1024 * 1024"

definition OUTPUT_BUFSIZE :: int where "OUTPUT_BUFSIZE = 1024 * 1024 * 100"

text \<open>The type \<open>error\<close>, a pointer to a message: \<open>None\<close> is \<open>NULL\<close>.\<close>

datatype err = ERR_INCOMPLETE | ERR_QUIT | Message "byte list"

type_synonym error = "err option"

datatype arg_ptr = InBuf int | Literal "byte list"

record client =
  must_close :: int
  buf :: mem
  buf_cap :: int
  buf_len :: int
  buf_idx :: int
  args :: "int \<Rightarrow> arg_ptr"
  args_cap :: int
  args_len :: int
  args_size :: "int \<Rightarrow> int"
  tmp_err :: "byte list option"
  out_buf :: mem
  output_len :: int
  output_cap :: int
  output_offset :: int
  output_valid :: bool
  current_items :: int
  fd :: int
  time_valid :: int
  multi :: int
  which_queue :: int

definition client_new :: "mem \<Rightarrow> mem \<Rightarrow> client" where
  "client_new buf0 output0 =
     \<lparr>must_close = 0, buf = buf0, buf_cap = 0, buf_len = 0, buf_idx = 0,
      args = (\<lambda>_. Literal []), args_cap = 0, args_len = 0, args_size = (\<lambda>_. 0), tmp_err = None,
      out_buf = output0, output_len = 0, output_cap = 0, output_offset = 0, output_valid = False,
      current_items = 0, fd = 0, time_valid = 0, multi = 0, which_queue = 0\<rparr>"

section \<open>The reply buffer\<close>

definition client_write :: "byte list \<Rightarrow> int \<Rightarrow> client \<Rightarrow> client option" where
  "client_write data n c =
     (if 0 \<le> n \<and> n \<le> int (length data) \<and> 0 \<le> output_len c \<and> output_len c + n \<le> OUTPUT_BUFSIZE
      then Some (c\<lparr>out_buf := poke (out_buf c) (output_len c) (take (nat n) data),
                   output_len := output_len c + n\<rparr>)
      else None)"

definition client_write_data :: "byte list \<Rightarrow> int \<Rightarrow> client \<Rightarrow> client option" where
  "client_write_data data n c =
     (if 0 \<le> n \<and> n \<le> int (length data) \<and> 0 \<le> output_len c \<and> output_len c + n \<le> OUTPUT_BUFSIZE
      then Some (c\<lparr>out_buf := poke (out_buf c) (output_len c) (take (nat n) data),
                   output_len := output_len c + n\<rparr>)
      else None)"

definition client_clear :: "client \<Rightarrow> client" where
  "client_clear c = c\<lparr>output_len := 0, output_offset := 0\<rparr>"

definition client_write_byte :: "byte \<Rightarrow> client \<Rightarrow> client option" where
  "client_write_byte b c =
     (if 0 \<le> output_len c \<and> output_len c < OUTPUT_BUFSIZE
      then Some (c\<lparr>out_buf := (out_buf c)(output_len c := b), output_len := output_len c + 1\<rparr>)
      else None)"

definition client_write_bulk :: "byte list \<Rightarrow> int \<Rightarrow> client \<Rightarrow> client option" where
  "client_write_bulk data n c =
     (let h = CHR ''$'' # sprint_d n @ [CR, LF] in
      do { c1 \<leftarrow> client_write h (int (length h)) c;
           c2 \<leftarrow> client_write_data data n c1;
           c3 \<leftarrow> client_write_byte CR c2;
           client_write_byte LF c3 })"

definition client_write_multibulk :: "int \<Rightarrow> client \<Rightarrow> client option" where
  "client_write_multibulk n c =
     (let h = CHR ''*'' # sprint_d n @ [CR, LF] in client_write h (int (length h)) c)"

definition client_write_int :: "int \<Rightarrow> client \<Rightarrow> client option" where
  "client_write_int n c =
     (let h = CHR '':'' # sprint_d n @ [CR, LF] in client_write h (int (length h)) c)"

definition client_write_error :: "byte list \<Rightarrow> client \<Rightarrow> client option" where
  "client_write_error e c =
     do { c1 \<leftarrow> client_write ''-ERR '' 5 c;
          c2 \<leftarrow> client_write e (int (length (cstr e))) c1;
          c3 \<leftarrow> client_write_byte CR c2;
          client_write_byte LF c3 }"

section \<open>The flush\<close>

text \<open>
  \<open>write\<close> on the socket is given by the list of its results: \<open>Wrote n\<close> takes \<open>n\<close> bytes, or all of
  them when there are fewer; \<open>WouldBlock\<close> is -1 with \<open>errno = EWOULDBLOCK\<close>; \<open>WriteError\<close> is -1 with
  another \<open>errno\<close>, after which the process exits. \<open>sent\<close> is a \<open>size_t\<close>. The loop returns the bytes
  that went out, in order, with the results not used.
\<close>

datatype write_result = Wrote nat | WouldBlock | WriteError

fun flush_loop :: "client \<Rightarrow> int \<Rightarrow> int \<Rightarrow> int \<Rightarrow> write_result list \<Rightarrow>
    (byte list \<times> write_result list) outcome" where
  "flush_loop c siz sent offset [] = (if sent < siz then Loops else Ret ([], []))"
| "flush_loop c siz sent offset (r # ws) =
     (if sent < siz then
        (if offset < 0 \<or> output_len c < offset \<or> OUTPUT_BUFSIZE < output_len c then Undef
         else (case r of
             WriteError \<Rightarrow> Exit 1
           | WouldBlock \<Rightarrow> flush_loop c siz (to_size_t (sent - 1)) (offset - 1) ws
           | Wrote n \<Rightarrow>
               (let k = min n (nat (output_len c - offset)) in
                and_then (flush_loop c siz (to_size_t (sent + int k)) (offset + int k) ws)
                  (\<lambda>(out, ws'). Ret (peek (out_buf c) offset k @ out, ws')))))
      else Ret ([], r # ws))"

definition client_flush_offset :: "int \<Rightarrow> client \<Rightarrow> write_result list \<Rightarrow>
    (byte list \<times> client \<times> write_result list) outcome" where
  "client_flush_offset offset c ws =
     (if output_len c - offset \<le> 0 then Ret ([], c, ws)
      else and_then (flush_loop c (to_size_t (output_len c - offset)) 0 offset ws)
             (\<lambda>(out, ws'). Ret (out, c\<lparr>output_len := 0\<rparr>, ws')))"

definition client_flush :: "client \<Rightarrow> write_result list \<Rightarrow>
    (byte list \<times> client \<times> write_result list) outcome" where
  "client_flush c ws = client_flush_offset 0 c ws"

section \<open>Error messages and arguments\<close>

definition client_err_alloc :: "client \<Rightarrow> client" where
  "client_err_alloc c = c\<lparr>tmp_err := Some []\<rparr>"

definition client_err_expected_got :: "byte \<Rightarrow> byte \<Rightarrow> client \<Rightarrow> error \<times> client" where
  "client_err_expected_got c1 c2 c =
     (let s = cstr (''Protocol error: expected '' @ [CHR 0x27, c1, CHR 0x27] @
                    '', got '' @ [CHR 0x27, c2, CHR 0x27])
      in (Some (Message s), (client_err_alloc c)\<lparr>tmp_err := Some s\<rparr>))"

text \<open>The bytes at an argument: \<open>n\<close> bytes from the pointer on.\<close>

definition arg_bytes :: "client \<Rightarrow> arg_ptr \<Rightarrow> int \<Rightarrow> byte list option" where
  "arg_bytes c p n =
     (case p of
        InBuf s \<Rightarrow> if 0 \<le> s \<and> 0 \<le> n \<and> s + n \<le> BUFSIZE then Some (peek (buf c) s (nat n)) else None
      | Literal l \<Rightarrow> if 0 \<le> n \<and> n \<le> int (length l) + 1 then Some (take (nat n) (l @ [NUL])) else None)"

definition client_err_unknown_command ::
    "arg_ptr \<Rightarrow> int \<Rightarrow> client \<Rightarrow> (error \<times> client) option" where
  "client_err_unknown_command name n c =
     do { bs \<leftarrow> arg_bytes c name n;
          let s = ''unknown command '' @ [CHR 0x27] @ cstr bs @ [CHR 0x27];
          Some (Some (Message s), (client_err_alloc c)\<lparr>tmp_err := Some s\<rparr>) }"

definition client_append_arg :: "arg_ptr \<Rightarrow> int \<Rightarrow> client \<Rightarrow> client option" where
  "client_append_arg data nbyte c =
     (let cap = (if args_cap c = args_len c
                 then (if args_cap c = 0 then 1 else args_cap c * 2) else args_cap c)
      in if is_int cap \<and> 0 \<le> args_len c \<and> args_len c < cap
         then Some (c\<lparr>args_cap := cap, args := (args c)(args_len c := data),
                      args_size := (args_size c)(args_len c := nbyte), args_len := args_len c + 1\<rparr>)
         else None)"

text \<open>The arguments of the last command, as the list of their bytes.\<close>

definition arg_list :: "client \<Rightarrow> byte list option list" where
  "arg_list c = map (\<lambda>k. arg_bytes c (args c (int k)) (args_size c (int k))) [0..<nat (args_len c)]"

section \<open>Reply buffer lemmas\<close>

definition output_bytes :: "client \<Rightarrow> byte list" where
  "output_bytes c = peek (out_buf c) 0 (nat (output_len c))"

lemma peek_poke_end:
  "peek (poke m (int n) xs) 0 (n + length xs) = peek m 0 n @ xs"
  by (simp add: peek_append peek_poke_before peek_poke_same)

lemma client_write_output:
  assumes "client_write data n c = Some c'"
  shows "output_bytes c' = output_bytes c @ take (nat n) data"
    and "c' = c\<lparr>out_buf := out_buf c', output_len := output_len c + n\<rparr>"
    and "0 \<le> output_len c' \<and> output_len c' \<le> OUTPUT_BUFSIZE"
proof -
  from assms have n: "0 \<le> n" "n \<le> int (length data)" "0 \<le> output_len c"
    "output_len c + n \<le> OUTPUT_BUFSIZE"
    and c': "c' = c\<lparr>out_buf := poke (out_buf c) (output_len c) (take (nat n) data),
                   output_len := output_len c + n\<rparr>"
    by (auto simp: client_write_def split: if_splits)
  have "nat (output_len c + n) = nat (output_len c) + length (take (nat n) data)"
    using n by simp
  then show "output_bytes c' = output_bytes c @ take (nat n) data"
    using peek_poke_end [of "out_buf c" "nat (output_len c)" "take (nat n) data"] n c'
    by (simp add: output_bytes_def)
  show "c' = c\<lparr>out_buf := out_buf c', output_len := output_len c + n\<rparr>" using c' by simp
  show "0 \<le> output_len c' \<and> output_len c' \<le> OUTPUT_BUFSIZE" using c' n by simp
qed

lemma client_write_ok:
  "0 \<le> output_len c \<Longrightarrow> output_len c + int (length data) \<le> OUTPUT_BUFSIZE \<Longrightarrow>
     \<exists>c'. client_write data (int (length data)) c = Some c'"
  by (simp add: client_write_def)

lemma client_write_data_eq: "client_write_data = client_write"
  by (simp add: fun_eq_iff client_write_data_def client_write_def)

lemma client_write_byte_eq: "client_write_byte b = client_write [b] 1"
  by (auto simp: fun_eq_iff client_write_byte_def client_write_def)

section \<open>The contract of a byte sink\<close>

text \<open>
  What the command handlers rely on: a write that fits appends its bytes to what was written, and a
  sequence of writes succeeds exactly when all of it fits.
\<close>

locale byte_sink =
  fixes invar :: "'s \<Rightarrow> bool"
    and written :: "'s \<Rightarrow> 'b list"
    and capacity :: int
    and put :: "'b list \<Rightarrow> 's \<Rightarrow> 's option"
  assumes put_some: "invar s \<Longrightarrow> put d s = Some s' \<Longrightarrow> invar s' \<and> written s' = written s @ d"
    and put_none: "invar s \<Longrightarrow> put d s = None \<longleftrightarrow> capacity < int (length (written s)) + int (length d)"
begin

primrec put_all :: "'b list list \<Rightarrow> 's \<Rightarrow> 's option" where
  "put_all [] s = Some s"
| "put_all (d # ds) s = Option.bind (put d s) (put_all ds)"

lemma put_all_fun: "put_all [] = Some" "put_all (d # ds) = (\<lambda>s. Option.bind (put d s) (put_all ds))"
  by (simp_all add: fun_eq_iff)

lemma put_all_some:
  "invar s \<Longrightarrow> put_all ds s = Some s' \<Longrightarrow> invar s' \<and> written s' = written s @ concat ds"
proof (induction ds arbitrary: s)
  case (Cons d ds)
  then obtain s1 where "put d s = Some s1" "put_all ds s1 = Some s'"
    by (auto simp: Option.bind_eq_Some_conv)
  then show ?case using Cons put_some [of s d s1] by auto
qed simp

lemma put_all_fits:
  "invar s \<Longrightarrow> int (length (written s)) + int (length (concat ds)) \<le> capacity \<Longrightarrow>
     \<exists>s'. put_all ds s = Some s'"
proof (induction ds arbitrary: s)
  case (Cons d ds)
  then have "put d s \<noteq> None" using put_none by auto
  then obtain s1 where s1: "put d s = Some s1" by auto
  then show ?case using Cons put_some [of s d s1] by simp
qed simp

end

definition output_inv :: "client \<Rightarrow> bool" where
  "output_inv c \<longleftrightarrow> 0 \<le> output_len c \<and> output_len c \<le> OUTPUT_BUFSIZE"

definition put_output :: "byte list \<Rightarrow> client \<Rightarrow> client option" where
  "put_output d c = client_write d (int (length d)) c"

interpretation reply: byte_sink output_inv output_bytes OUTPUT_BUFSIZE put_output
proof unfold_locales
  fix c d c'
  assume "put_output d c = Some c'"
  then show "output_inv c' \<and> output_bytes c' = output_bytes c @ d"
    using client_write_output [of d "int (length d)" c c'] by (simp add: put_output_def output_inv_def)
next
  fix c d
  assume "output_inv c"
  then show "put_output d c = None \<longleftrightarrow> OUTPUT_BUFSIZE < int (length (output_bytes c)) + int (length d)"
    by (auto simp: put_output_def client_write_def output_inv_def output_bytes_def)
qed

lemma client_write_put: "client_write d (int (length d)) = put_output d"
  by (simp add: fun_eq_iff put_output_def)

lemma client_write_byte_put: "client_write_byte b = put_output [b]"
  by (simp add: fun_eq_iff put_output_def client_write_byte_eq)

lemma client_write_bulk_put:
  assumes "int (length data) = n"
  shows "client_write_bulk data n =
    reply.put_all [CHR ''$'' # sprint_d n @ [CR, LF], data, [CR], [LF]]"
  using client_write_put [of data] client_write_put [of "CHR ''$'' # sprint_d n @ [CR, LF]"] assms
  by (simp add: fun_eq_iff client_write_bulk_def Let_def client_write_data_eq client_write_byte_put
      reply.put_all_fun del: reply.put_all.simps)

lemma client_write_bulk_output:
  assumes "output_inv c" and "int (length data) = n"
    and "client_write_bulk data n c = Some c'"
  shows "output_inv c'"
    and "output_bytes c' = output_bytes c @ CHR ''$'' # sprint_d n @ [CR, LF] @ data @ [CR, LF]"
  using reply.put_all_some [OF assms(1), of "[CHR ''$'' # sprint_d n @ [CR, LF], data, [CR], [LF]]"]
    assms(3) by (simp_all add: client_write_bulk_put [OF assms(2)])

section \<open>Properties\<close>

lemma client_write_bulk_ok:
  assumes "output_inv c"
    and "output_len c + int (length (dec (length data))) + int (length data) + 5 \<le> OUTPUT_BUFSIZE"
  shows "\<exists>c'. client_write_bulk data (int (length data)) c = Some c' \<and> output_inv c' \<and>
    output_bytes c' = output_bytes c @ CHR ''$'' # dec (length data) @ [CR, LF] @ data @ [CR, LF]"
proof -
  have d: "sprint_d (int (length data)) = dec (length data)" by (simp add: sprint_d_def)
  let ?ds = "[CHR ''$'' # dec (length data) @ [CR, LF], data, [CR], [LF]]"
  have "int (length (output_bytes c)) = output_len c"
    using assms(1) by (simp add: output_bytes_def output_inv_def)
  then obtain c' where "reply.put_all ?ds c = Some c'"
    using reply.put_all_fits [OF assms(1), of ?ds] assms(2) by auto
  then have c': "client_write_bulk data (int (length data)) c = Some c'"
    using client_write_bulk_put [OF refl, of data] d by simp
  then show ?thesis using client_write_bulk_output [OF assms(1) refl c'] d by simp
qed

text \<open>
  A bulk reply that fits into the reply buffer is appended to it as the length line, the data
  and the closing line end; it fits when the buffer has room for all of that.
\<close>

theorem client_write_bulk_appends:
  assumes "output_inv c"
    and "output_len c + int (length (dec (length data))) + int (length data) + 5 \<le> OUTPUT_BUFSIZE"
  shows "\<exists>c'. client_write_bulk data (int (length data)) c = Some c' \<and> output_inv c' \<and>
    output_bytes c' = output_bytes c @ CHR ''$'' # dec (length data) @ [CR, LF] @ data @ [CR, LF]"
  by (rule client_write_bulk_ok [OF assms])

theorem client_write_bulk_appends_witness:
  "\<exists>c'. client_write_bulk ''abc'' 3 (client_new (\<lambda>_. NUL) (\<lambda>_. NUL)) = Some c' \<and>
     output_bytes c' = CHR ''$'' # dec 3 @ [CR, LF] @ ''abc'' @ [CR, LF]"
proof -
  let ?c = "client_new (\<lambda>_. NUL) (\<lambda>_. NUL)"
  have "length (dec (length ''abc'')) = 1" by (simp add: dec.simps)
  then have *: "output_inv ?c"
    "output_len ?c + int (length (dec (length ''abc''))) + int (length ''abc'') + 5 \<le> OUTPUT_BUFSIZE"
    by (simp_all only: output_inv_def client_new_def OUTPUT_BUFSIZE_def client.simps) simp_all
  show ?thesis using client_write_bulk_appends [OF *] by (auto simp: output_bytes_def client_new_def numeral_3_eq_3)
qed

text \<open>The bytes that the results of \<open>write\<close> take at most.\<close>

fun taken :: "write_result list \<Rightarrow> nat" where
  "taken [] = 0"
| "taken (Wrote n # ws) = n + taken ws"
| "taken (r # ws) = taken ws"

lemma flush_wrote:
  assumes "sent < siz" and "0 \<le> offset" and "offset \<le> output_len c" and "output_len c \<le> OUTPUT_BUFSIZE"
    and "min n (nat (output_len c - offset)) = k"
    and "flush_loop c siz (to_size_t (sent + int k)) (offset + int k) ws = Ret (out, ws')"
  shows "flush_loop c siz sent offset (Wrote n # ws) = Ret (peek (out_buf c) offset k @ out, ws')"
  using assms by (simp add: Let_def)

lemma flush_block:
  assumes "sent < siz" and "0 \<le> offset" and "offset \<le> output_len c" and "output_len c \<le> OUTPUT_BUFSIZE"
  shows "flush_loop c siz sent offset (WouldBlock # ws) =
    flush_loop c siz (to_size_t (sent - 1)) (offset - 1) ws"
  using assms by simp

lemma flush_loop_sends:
  assumes "\<forall>r \<in> set ws. \<exists>n. r = Wrote n" and "0 \<le> offset" and "0 \<le> sent"
    and "sent + (output_len c - offset) = siz" and "offset \<le> output_len c"
    and "output_len c \<le> OUTPUT_BUFSIZE" and "siz \<le> OUTPUT_BUFSIZE"
    and "output_len c - offset \<le> int (taken ws)"
  shows "\<exists>ws'. flush_loop c siz sent offset ws =
    Ret (peek (out_buf c) offset (nat (output_len c - offset)), ws')"
  using assms
proof (induction ws arbitrary: sent offset)
  case Nil
  then show ?case by simp
next
  case (Cons r ws)
  obtain n where r: "r = Wrote n" using Cons.prems(1) by auto
  let ?k = "min n (nat (output_len c - offset))"
  show ?case
  proof (cases "sent < siz")
    case True
    have wrap: "to_size_t (sent + int ?k) = sent + int ?k"
      using Cons.prems by (intro to_size_t_id) (auto simp: OUTPUT_BUFSIZE_def)
    have k: "offset + int ?k \<le> output_len c" "output_len c - (offset + int ?k) \<le> int (taken ws)"
      using Cons.prems(5,8) r by auto
    obtain ws' where IH: "flush_loop c siz (sent + int ?k) (offset + int ?k) ws =
        Ret (peek (out_buf c) (offset + int ?k) (nat (output_len c - (offset + int ?k))), ws')"
      using Cons.IH [of "offset + int ?k" "sent + int ?k"] Cons.prems k by auto
    have "?k + nat (output_len c - (offset + int ?k)) = nat (output_len c - offset)" by arith
    then have "peek (out_buf c) offset (nat (output_len c - offset)) =
        peek (out_buf c) offset ?k @
        peek (out_buf c) (offset + int ?k) (nat (output_len c - (offset + int ?k)))"
      using peek_append [of "out_buf c" offset ?k "nat (output_len c - (offset + int ?k))"] by (rule subst)
    then show ?thesis using True Cons.prems(2,5,6) r wrap IH by (simp add: Let_def)
  next
    case False
    then show ?thesis using Cons.prems by simp
  qed
qed

lemma client_flush_all:
  assumes "0 \<le> offset" and "offset \<le> output_len c" and "output_inv c"
    and "\<forall>r \<in> set ws. \<exists>n. r = Wrote n" and "output_len c - offset \<le> int (taken ws)"
  shows "\<exists>c' ws'. client_flush_offset offset c ws =
      Ret (peek (out_buf c) offset (nat (output_len c - offset)), c', ws') \<and>
    (offset < output_len c \<longrightarrow> c' = c\<lparr>output_len := 0\<rparr>)"
proof (cases "output_len c - offset \<le> 0")
  case True
  then show ?thesis using assms(2) by (simp add: client_flush_offset_def)
next
  case False
  have siz: "to_size_t (output_len c - offset) = output_len c - offset"
    using False assms(1,3) by (intro to_size_t_id) (auto simp: output_inv_def OUTPUT_BUFSIZE_def)
  obtain ws' where "flush_loop c (output_len c - offset) 0 offset ws =
      Ret (peek (out_buf c) offset (nat (output_len c - offset)), ws')"
    using flush_loop_sends [of ws offset 0 c "output_len c - offset"] assms
    by (auto simp: output_inv_def)
  then show ?thesis using False siz by (simp add: client_flush_offset_def)
qed

text \<open>
  C30: when the socket takes bytes at every call, in whatever portions, a flush returns, has sent
  the unsent part of the reply buffer once and in order, and empties the buffer.
\<close>

theorem flush_sends_all:
  assumes "0 \<le> offset" and "offset \<le> output_len c" and "output_inv c"
    and "\<forall>r \<in> set ws. \<exists>n. r = Wrote n" and "output_len c - offset \<le> int (taken ws)"
  shows "\<exists>c' ws'. client_flush_offset offset c ws =
      Ret (peek (out_buf c) offset (nat (output_len c - offset)), c', ws') \<and>
    (offset < output_len c \<longrightarrow> c' = c\<lparr>output_len := 0\<rparr>)"
  by (rule client_flush_all [OF assms])

definition sample_client :: client where
  "sample_client = (client_new (\<lambda>_. NUL) (\<lambda>i. if i = 0 then CHR ''a'' else if i = 1 then CHR ''b'' else CHR ''c''))
     \<lparr>output_len := 3\<rparr>"

theorem flush_sends_all_witness:
  "\<exists>c' ws'. client_flush_offset 0 sample_client [Wrote 2, Wrote 0, Wrote 9] = Ret (''abc'', c', ws')"
  using flush_sends_all [of 0 sample_client "[Wrote 2, Wrote 0, Wrote 9]"]
  by (auto simp: sample_client_def client_new_def output_inv_def OUTPUT_BUFSIZE_def numeral_3_eq_3)

text \<open>
  A flush whose first \<open>write\<close> would block sends nothing and still empties the reply buffer:
  \<open>sent\<close> becomes the largest \<open>size_t\<close>, which ends the loop.
\<close>

theorem flush_would_block_drops:
  assumes "0 \<le> offset" and "offset < output_len c" and "output_inv c"
  shows "client_flush_offset offset c (WouldBlock # ws) = Ret ([], c\<lparr>output_len := 0\<rparr>, ws)"
proof -
  have siz: "to_size_t (output_len c - offset) = output_len c - offset"
    using assms by (intro to_size_t_id) (auto simp: output_inv_def OUTPUT_BUFSIZE_def)
  have "\<not> to_size_t (- 1) < output_len c - offset"
    using assms by (auto simp: to_size_t_def output_inv_def OUTPUT_BUFSIZE_def)
  then have "flush_loop c (output_len c - offset) (to_size_t (- 1)) (offset - 1) ws = Ret ([], ws)"
    by (cases ws) simp_all
  then show ?thesis using assms siz by (simp add: client_flush_offset_def output_inv_def)
qed

theorem flush_would_block_drops_witness:
  "client_flush_offset 0 sample_client [WouldBlock, Wrote 3] =
     Ret ([], sample_client\<lparr>output_len := 0\<rparr>, [Wrote 3])"
  using flush_would_block_drops [of 0 sample_client "[Wrote 3]"]
  by (simp add: sample_client_def client_new_def output_inv_def OUTPUT_BUFSIZE_def)

text \<open>
  When a \<open>write\<close> would block after a part of the reply went out, the flush steps one byte back:
  the last byte sent goes out twice.
\<close>

theorem flush_would_block_repeats:
  assumes "0 \<le> offset" and "output_inv c" and "0 < k" and "int k < output_len c - offset"
    and "output_len c - offset \<le> int n"
  shows "client_flush_offset offset c [Wrote k, WouldBlock, Wrote n] =
    Ret (peek (out_buf c) offset k @
           peek (out_buf c) (offset + int k - 1) (nat (output_len c - offset - int k + 1)),
         c\<lparr>output_len := 0\<rparr>, [])"
proof -
  have bnd: "output_len c \<le> OUTPUT_BUFSIZE" using assms(2) by (simp add: output_inv_def)
  let ?siz = "output_len c - offset"
  let ?r = "nat (output_len c - (offset + int k - 1))"
  have wrap: "to_size_t ?siz = ?siz" "to_size_t (0 + int k) = int k" "to_size_t (int k - 1) = int k - 1"
    using assms bnd by (auto intro!: to_size_t_id simp: OUTPUT_BUFSIZE_def)
  have k: "min k (nat (output_len c - offset)) = k" using assms(4) by arith
  have r: "min n ?r = ?r" "int k - 1 + int ?r = ?siz" using assms by arith+
  have "flush_loop c ?siz (int k - 1) (offset + int k - 1) [Wrote n] =
      Ret (peek (out_buf c) (offset + int k - 1) ?r @ [], [])"
  proof (rule flush_wrote [OF _ _ _ _ r(1)])
    show "flush_loop c ?siz (to_size_t (int k - 1 + int ?r)) (offset + int k - 1 + int ?r) [] = Ret ([], [])"
      unfolding r(2) wrap(1) by simp
  qed (use assms(1,3,4) bnd in simp_all)
  then have "flush_loop c ?siz (to_size_t (0 + int k)) (offset + int k) [WouldBlock, Wrote n] =
      Ret (peek (out_buf c) (offset + int k - 1) ?r, [])"
    unfolding wrap(2) using assms(1,4) bnd by (subst flush_block) (simp_all only: wrap(3), simp_all)
  then have "flush_loop c ?siz 0 offset [Wrote k, WouldBlock, Wrote n] =
      Ret (peek (out_buf c) offset k @ peek (out_buf c) (offset + int k - 1) ?r, [])"
    by (intro flush_wrote [OF _ _ _ _ k]) (use assms(1,3,4) bnd in simp_all)
  moreover have "?r = nat (output_len c - offset - int k + 1)" by arith
  ultimately show ?thesis using assms(3,4) wrap(1) by (simp add: client_flush_offset_def)
qed

theorem flush_would_block_repeats_witness:
  "client_flush_offset 0 sample_client [Wrote 2, WouldBlock, Wrote 9] =
     Ret (''abbc'', sample_client\<lparr>output_len := 0\<rparr>, [])"
  using flush_would_block_repeats [of 0 sample_client 2 9]
  by (simp add: sample_client_def client_new_def output_inv_def OUTPUT_BUFSIZE_def numeral_2_eq_2)

end
