(* ===== verification/ClientParser.thy ===== *)
theory ClientParser
  imports Client
begin

text \<open>
  \<open>client.cc\<close>: reading a command from the input buffer, in the Redis protocol
  (\<open>client_read_command\<close>) or as a line of words (\<open>client_parse_telnet_command\<close>). The unread bytes
  are those of \<open>buf\<close> from \<open>buf_idx\<close> on, \<open>buf_len\<close> of them. Each loop of the code is a function of
  the index \<open>i\<close> it advances; \<open>Inl\<close> is an early return with the error, \<open>Inr\<close> the state after
  the loop. The code puts a zero byte before a line end while it runs \<open>atoi\<close> and puts the \<open>\r\<close>
  back; the definitions give \<open>atoi\<close> the buffer with that byte.
\<close>

definition buf_at :: "client \<Rightarrow> int \<Rightarrow> byte option" where
  "buf_at c i = (if 0 \<le> i \<and> i < BUFSIZE then Some (buf c i) else None)"

text \<open>The arithmetic is that of \<open>size_t\<close>, converted to \<open>int\<close> by the assignments.\<close>

definition consume :: "int \<Rightarrow> client \<Rightarrow> client" where
  "consume i c =
     (let c1 = c\<lparr>buf_len := to_int (buf_len c - (i - buf_idx c))\<rparr>
      in if buf_len c1 = 0 then c1\<lparr>buf_idx := 0\<rparr> else c1\<lparr>buf_idx := to_int i\<rparr>)"

section \<open>Lines of words\<close>

definition unbalanced :: "byte list" where
  "unbalanced = ''Protocol error: unbalanced quotes in request''"

text \<open>The loop inside a quoted word, after the quote \<open>b\<close>.\<close>

function telnet_quote :: "client \<Rightarrow> byte \<Rightarrow> int \<Rightarrow> int \<Rightarrow> int \<Rightarrow>
    ((error \<times> client) + (client \<times> int)) option" where
  "telnet_quote c b s z i =
     (if i < z then
        (case buf_at c i of
           None \<Rightarrow> None
         | Some ch \<Rightarrow>
             if ch = b then
               (if z \<le> i + 1 \<or> buf_at c (i + 1) \<in> {Some SP, Some CR, Some LF}
                then (case client_append_arg (InBuf s) (to_int (i - s)) c of
                        None \<Rightarrow> None | Some c' \<Rightarrow> Some (Inr (c', i - 1)))
                else Some (Inl (Some (Message unbalanced), c)))
             else telnet_quote c b s z (i + 1))
      else Some (Inr (c, i)))"
  by pat_completeness auto
termination
  by (relation "measure (\<lambda>(c, b, s, z, i). nat (z - i))") auto

declare telnet_quote.simps [simp del]

lemma telnet_quote_index:
  "telnet_quote c b s z i = Some (Inr (c', i')) \<Longrightarrow> i \<le> i' + 1"
proof (induction c b s z i rule: telnet_quote.induct)
  case (1 c b s z i)
  show ?case
  proof (cases "i < z \<and> buf_at c i \<noteq> None \<and> buf_at c i \<noteq> Some b")
    case True
    then show ?thesis using 1 by (auto simp: telnet_quote.simps [of c b s z i])
  next
    case False
    then show ?thesis using 1(2)
      by (auto simp: telnet_quote.simps [of c b s z i] split: if_splits option.splits)
  qed
qed

function telnet_loop :: "client \<Rightarrow> bool \<Rightarrow> int \<Rightarrow> int \<Rightarrow> int \<Rightarrow> (error \<times> client) option" where
  "telnet_loop c first s z i =
     (if i < z then
        (case buf_at c i of
           None \<Rightarrow> None
         | Some ch \<Rightarrow>
             if ch = CHR 0x27 \<or> ch = CHR 0x22 then
               (if \<not> first then Some (Some (Message unbalanced), c)
                else (case telnet_quote c ch (i + 1) z (i + 1) of
                        None \<Rightarrow> None
                      | Some (Inl r) \<Rightarrow> Some r
                      | Some (Inr (c', i')) \<Rightarrow> telnet_loop c' first (i + 1) z (i' + 1 + 1)))
             else if ch = LF then
               (case (if first then Some c
                      else let e = (if s < i \<and> buf_at c (i - 1) = Some CR then i - 1 else i)
                           in client_append_arg (InBuf s) (to_int (e - s)) c) of
                  None \<Rightarrow> None
                | Some c' \<Rightarrow> Some (None, consume (i + 1) c'))
             else if ch = SP then
               (if first then telnet_loop c first s z (i + 1)
                else (case client_append_arg (InBuf s) (to_int (i - s)) c of
                        None \<Rightarrow> None
                      | Some c' \<Rightarrow> telnet_loop c' True s z (i + 1)))
             else (if first then telnet_loop c False i z (i + 1)
                   else telnet_loop c first s z (i + 1)))
      else Some (Some ERR_INCOMPLETE, c))"
  by pat_completeness auto
termination
  by (relation "measure (\<lambda>(c, first, s, z, i). nat (z - i))")
    (auto dest: telnet_quote_index)

declare telnet_loop.simps [simp del]

definition client_parse_telnet_command :: "client \<Rightarrow> (error \<times> client) option" where
  "client_parse_telnet_command c =
     (let i = to_size_t (buf_idx c); z = to_size_t (buf_len c + buf_idx c)
      in if z \<le> i then Some (Some ERR_INCOMPLETE, c)
         else telnet_loop (c\<lparr>args_len := 0\<rparr>) True i z i)"

section \<open>The Redis protocol\<close>

definition invalid_multibulk :: "byte list" where
  "invalid_multibulk = ''Protocol error: invalid multibulk length''"

definition invalid_length :: "byte list" where
  "invalid_length = ''Protocol error: invalid bulk length''"

definition invalid_data :: "byte list" where
  "invalid_data = ''Protocol error: invalid bulk data''"

text \<open>The number before the line end at \<open>i\<close>, which starts at \<open>s\<close>.\<close>

definition line_number :: "client \<Rightarrow> int \<Rightarrow> int \<Rightarrow> int option" where
  "line_number c s i = atoi ((buf c)(i - 1 := NUL)) BUFSIZE s"

text \<open>The loop over the count line: \<open>args_len\<close> and the index after it.\<close>

function multibulk_loop :: "client \<Rightarrow> int \<Rightarrow> int \<Rightarrow> int \<Rightarrow> (byte list + (int \<times> int)) option" where
  "multibulk_loop c s z i =
     (if i < z then
        (case buf_at c i of
           None \<Rightarrow> None
         | Some ch \<Rightarrow>
             if ch = LF then
               (if buf_at c (i - 1) \<noteq> Some CR then Some (Inl invalid_multibulk)
                else (case line_number c s i of
                        None \<Rightarrow> None
                      | Some n \<Rightarrow>
                          if n \<le> 0 \<and> (n < 0 \<or> i - s \<noteq> 2) then Some (Inl invalid_multibulk)
                          else Some (Inr (n, i + 1))))
             else multibulk_loop c s z (i + 1))
      else Some (Inr (0, i)))"
  by pat_completeness auto
termination
  by (relation "measure (\<lambda>(c, s, z, i). nat (z - i))") auto

declare multibulk_loop.simps [simp del]

text \<open>What follows the length line of an argument whose line end is at \<open>i\<close>.\<close>

definition bulk_data :: "client \<Rightarrow> bool \<Rightarrow> int \<Rightarrow> int \<Rightarrow> int \<Rightarrow>
    ((error \<times> client) + (client \<times> bool \<times> int)) option" where
  "bulk_data c bulk_flag z i1 nsiz =
     (if \<not> is_int (nsiz + 2) then None
      else if z - i1 < nsiz + 2 then Some (Inl (Some ERR_INCOMPLETE, c))
      else (case (buf_at c (i1 + nsiz), buf_at c (i1 + nsiz + 1)) of
              (Some x, Some y) \<Rightarrow>
                if x \<noteq> CR \<or> y \<noteq> LF then Some (Inl (Some (Message invalid_data), c))
                else do { c1 \<leftarrow> (if bulk_flag then client_append_arg (Literal ''BULK'') 4 c else Some c);
                          c2 \<leftarrow> client_append_arg (InBuf i1) nsiz c1;
                          Some (Inr (c2, False, i1 + (nsiz + 2))) }
            | _ \<Rightarrow> None))"

function bulk_loop :: "client \<Rightarrow> bool \<Rightarrow> int \<Rightarrow> int \<Rightarrow> int \<Rightarrow>
    ((error \<times> client) + (client \<times> bool \<times> int)) option" where
  "bulk_loop c bulk_flag s z i =
     (if i < z then
        (case buf_at c i of
           None \<Rightarrow> None
         | Some ch \<Rightarrow>
             if ch = LF then
               (if buf_at c (i - 1) \<noteq> Some CR then Some (Inl (Some (Message invalid_length), c))
                else (case line_number c s i of
                        None \<Rightarrow> None
                      | Some nsiz \<Rightarrow>
                          if nsiz = - 1 then
                            (case client_append_arg (Literal ''NOT'') 3 c of
                               None \<Rightarrow> None
                             | Some c' \<Rightarrow> Some (Inr (c', False, i + (nsiz + 2))))
                          else if nsiz \<le> 0 \<and> (nsiz < 0 \<or> i - s \<noteq> 2)
                          then Some (Inl (Some (Message invalid_length), c))
                          else bulk_data c bulk_flag z (i + 1) nsiz))
             else bulk_loop c bulk_flag s z (i + 1))
      else Some (Inr (c, bulk_flag, i)))"
  by pat_completeness auto
termination
  by (relation "measure (\<lambda>(c, bulk_flag, s, z, i). nat (z - i))") auto

declare bulk_loop.simps [simp del]

text \<open>The loop over the arguments; the first argument counts those still to be read.\<close>

fun args_loop :: "nat \<Rightarrow> client \<Rightarrow> bool \<Rightarrow> int \<Rightarrow> int \<Rightarrow> ((error \<times> client) + (client \<times> int)) option" where
  "args_loop 0 c bulk_flag z i = Some (Inr (c, i))"
| "args_loop (Suc n) c bulk_flag z i =
     (if z \<le> i then Some (Inl (Some ERR_INCOMPLETE, c))
      else (case buf_at c i of
              None \<Rightarrow> None
            | Some ch \<Rightarrow>
                if ch \<noteq> CHR ''$'' then Some (Inl (client_err_expected_got (CHR ''$'') ch c))
                else (case bulk_loop c bulk_flag (i + 1) z (i + 1) of
                        None \<Rightarrow> None
                      | Some (Inl r) \<Rightarrow> Some (Inl r)
                      | Some (Inr (c', bulk_flag', i')) \<Rightarrow> args_loop n c' bulk_flag' z i')))"

text \<open>
  A status line. Any other line than \<open>+OK\<close> and \<open>+KO\<close> goes on with the loop over the arguments
  while \<open>args_len\<close> has no value: undefined.
\<close>

definition read_status :: "client \<Rightarrow> int \<Rightarrow> int \<Rightarrow> (error \<times> client) option" where
  "read_status c z i =
     (if z \<le> i \<or> buf_len c < 5 then Some (Some ERR_INCOMPLETE, c)
      else if \<not> (0 \<le> i \<and> i + 4 \<le> BUFSIZE) then None
      else (let line = peek (buf c) i 4 in
            if line = ''OK'' @ [CR, LF] \<or> line = ''KO'' @ [CR, LF] then
              (case client_append_arg (Literal (take 2 line)) 2 c of
                 None \<Rightarrow> None
               | Some c' \<Rightarrow>
                   (let c1 = c'\<lparr>buf_len := buf_len c' - 5\<rparr> in
                    Some (None, if buf_len c1 = 0 then c1\<lparr>buf_idx := 0\<rparr>
                                else c1\<lparr>buf_idx := to_int (i + 4)\<rparr>)))
            else None))"

definition read_args :: "client \<Rightarrow> int \<Rightarrow> bool \<Rightarrow> int \<Rightarrow> int \<Rightarrow> (error \<times> client) option" where
  "read_args c n bulk_flag z i =
     (if z \<le> i then Some (Some ERR_INCOMPLETE, c)
      else (case args_loop (nat n) c bulk_flag z i of
              None \<Rightarrow> None
            | Some (Inl r) \<Rightarrow> Some r
            | Some (Inr (c', i')) \<Rightarrow> Some (None, consume i' c')))"

definition client_read_command :: "client \<Rightarrow> (error \<times> client) option" where
  "client_read_command c0 =
     (let c = c0\<lparr>args_len := 0\<rparr>; i = to_size_t (buf_idx c); z = to_size_t (buf_idx c + buf_len c)
      in if z \<le> i then Some (Some ERR_INCOMPLETE, c)
         else (case buf_at c i of
                 None \<Rightarrow> None
               | Some ch \<Rightarrow>
                   if ch = CHR ''$'' then read_args c 1 True z i
                   else if ch = CHR ''+'' then read_status c z (i + 1)
                   else if ch = CHR ''*'' then
                     (case multibulk_loop c (i + 1) z (i + 1) of
                        None \<Rightarrow> None
                      | Some (Inl e) \<Rightarrow> Some (Some (Message e), c)
                      | Some (Inr (n, i')) \<Rightarrow> read_args c n False z i')
                   else client_parse_telnet_command c))"

section \<open>The argument array\<close>

definition args_rest :: "client \<Rightarrow> client" where
  "args_rest c = c\<lparr>args := \<lambda>_. Literal [], args_cap := 0, args_len := 0, args_size := \<lambda>_. 0\<rparr>"

definition args_only :: "client \<Rightarrow> client \<Rightarrow> bool" where
  "args_only c c' \<longleftrightarrow> args_rest c = args_rest c'"

definition args_inv :: "client \<Rightarrow> bool" where
  "args_inv c \<longleftrightarrow> 0 \<le> args_len c \<and> args_len c \<le> args_cap c \<and> args_cap c \<le> 2 * BUFSIZE"

lemma args_only_refl [simp]: "args_only c c"
  by (simp add: args_only_def)

lemma args_only_trans [trans]: "args_only c c1 \<Longrightarrow> args_only c1 c2 \<Longrightarrow> args_only c c2"
  by (simp add: args_only_def)

lemma args_only_fields:
  assumes "args_only c c'"
  shows "buf c' = buf c" "buf_len c' = buf_len c" "buf_idx c' = buf_idx c" "fd c' = fd c"
    "out_buf c' = out_buf c" "output_len c' = output_len c" "output_offset c' = output_offset c"
    "output_valid c' = output_valid c" "tmp_err c' = tmp_err c" "which_queue c' = which_queue c"
    "current_items c' = current_items c"
  using assms by (cases c; cases c'; simp add: args_only_def args_rest_def)+

lemma append_arg_only: "client_append_arg d n c = Some c' \<Longrightarrow> args_only c c'"
  by (auto simp: client_append_arg_def args_only_def args_rest_def Let_def split: if_splits)

lemma append_arg_inv:
  assumes "client_append_arg d n c = Some c'" and "args_inv c" and "args_len c < BUFSIZE"
  shows "args_inv c' \<and> args_len c' = args_len c + 1"
  using assms by (auto simp: client_append_arg_def args_inv_def Let_def BUFSIZE_def split: if_splits)

lemma append_arg_defined:
  assumes "args_inv c" and "args_len c < BUFSIZE"
  shows "\<exists>c'. client_append_arg d n c = Some c'"
  using assms
  by (auto simp: client_append_arg_def args_inv_def Let_def BUFSIZE_def is_int_def INT_MIN_def INT_MAX_def)

lemma append_arg_list:
  assumes "client_append_arg d n c = Some c'"
  shows "arg_list c' = arg_list c @ [arg_bytes c d n]"
proof -
  from assms have len: "0 \<le> args_len c"
    and c': "args c' = (args c)(args_len c := d)" "args_size c' = (args_size c)(args_len c := n)"
      "args_len c' = args_len c + 1"
    by (auto simp: client_append_arg_def Let_def split: if_splits)
  have b: "arg_bytes c' = arg_bytes c"
    using args_only_fields(1) [OF append_arg_only [OF assms]]
    by (intro ext) (simp add: arg_bytes_def split: arg_ptr.split)
  have "nat (args_len c') = Suc (nat (args_len c))" using c'(3) len by simp
  then show ?thesis using c' len b by (auto simp: arg_list_def)
qed

text \<open>Entry \<open>k\<close> is the argument \<open>a\<close>, which stands in the buffer before a line end.\<close>

definition ended_arg :: "client \<Rightarrow> int \<Rightarrow> byte list \<Rightarrow> bool" where
  "ended_arg c k a \<longleftrightarrow> args_size c k = int (length a) \<and>
     (\<exists>s. args c k = InBuf s \<and> 0 \<le> s \<and> s + int (length a) < BUFSIZE \<and> holds (buf c) s (a @ [CR]))"

definition args_kept :: "client \<Rightarrow> client \<Rightarrow> bool" where
  "args_kept c c' \<longleftrightarrow> (\<forall>k < args_len c. args c' k = args c k \<and> args_size c' k = args_size c k)"

lemma args_kept_trans: "args_kept c c1 \<Longrightarrow> args_kept c1 c2 \<Longrightarrow> args_len c \<le> args_len c1 \<Longrightarrow> args_kept c c2"
  by (simp add: args_kept_def)

lemma ended_arg_kept:
  "ended_arg c k a \<Longrightarrow> args_kept c c' \<Longrightarrow> k < args_len c \<Longrightarrow> buf c' = buf c \<Longrightarrow> ended_arg c' k a"
  by (simp add: ended_arg_def args_kept_def)

lemma append_arg_kept:
  assumes "client_append_arg d n c = Some c'"
  shows "args_kept c c' \<and> args c' (args_len c) = d \<and> args_size c' (args_len c) = n"
  using assms by (auto simp: client_append_arg_def args_kept_def Let_def split: if_splits)

section \<open>Scanning to the end of a line\<close>

lemma multibulk_skip:
  assumes "holds (buf c) i xs" and "LF \<notin> set xs" and "0 \<le> i" and "i + int (length xs) \<le> z"
    and "i + int (length xs) \<le> BUFSIZE"
  shows "multibulk_loop c s z i = multibulk_loop c s z (i + int (length xs))"
  using assms
proof (induction xs arbitrary: i)
  case (Cons x xs)
  then have "multibulk_loop c s z i = multibulk_loop c s z (i + 1)"
    by (subst multibulk_loop.simps) (auto simp: buf_at_def)
  with Cons show ?case by (simp add: ac_simps)
qed simp

lemma bulk_skip:
  assumes "holds (buf c) i xs" and "LF \<notin> set xs" and "0 \<le> i" and "i + int (length xs) \<le> z"
    and "i + int (length xs) \<le> BUFSIZE"
  shows "bulk_loop c bulk_flag s z i = bulk_loop c bulk_flag s z (i + int (length xs))"
  using assms
proof (induction xs arbitrary: i)
  case (Cons x xs)
  then have "bulk_loop c bulk_flag s z i = bulk_loop c bulk_flag s z (i + 1)"
    by (subst bulk_loop.simps) (auto simp: buf_at_def)
  with Cons show ?case by (simp add: ac_simps)
qed simp

lemma dec_no_LF: "LF \<notin> set (dec n)"
proof
  assume "LF \<in> set (dec n)"
  then have "isdigit LF" by (rule dec_isdigit)
  then show False by (simp add: isdigit_def c_char_def)
qed

lemma length_dec_one: "n < 10 \<Longrightarrow> length (dec n) = 1"
  by (simp add: dec.simps)

lemma line_number_dec:
  assumes "holds (buf c) s (dec n)" and "0 \<le> s" and "s + int (length (dec n)) < BUFSIZE"
    and "int n \<le> INT_MAX"
  shows "line_number c s (s + int (length (dec n)) + 1) = Some (int n)"
  unfolding line_number_def
  by (rule atoi_dec) (use assms in \<open>simp_all add: holds_upd isdigit_def c_char_def\<close>)

section \<open>Commands as the clients encode them\<close>

definition resp_bulk :: "byte list \<Rightarrow> byte list" where
  "resp_bulk a = CHR ''$'' # dec (length a) @ [CR, LF] @ a @ [CR, LF]"

definition resp_command :: "byte list list \<Rightarrow> byte list" where
  "resp_command as = CHR ''*'' # dec (length as) @ [CR, LF] @ concat (map resp_bulk as)"

lemma bulk_at_LF:
  assumes "holds (buf c) s (dec (length a) @ [CR, LF])" and "0 \<le> s"
    and "s + int (length (dec (length a))) + 2 \<le> z" and "s + int (length (dec (length a))) + 2 \<le> BUFSIZE"
    and "int (length a) \<le> INT_MAX"
  shows "bulk_loop c bulk_flag s z s =
    bulk_data c bulk_flag z (s + int (length (dec (length a))) + 2) (int (length a))"
proof -
  let ?k = "s + int (length (dec (length a))) + 1"
  have h: "holds (buf c) s (dec (length a))" "buf c (?k - 1) = CR" "buf c ?k = LF"
    using assms(1) by (simp_all add: holds_append algebra_simps)
  have "bulk_loop c bulk_flag s z s = bulk_loop c bulk_flag s z (s + int (length (dec (length a) @ [CR])))"
    by (rule bulk_skip) (use h assms dec_no_LF in \<open>simp_all add: holds_append\<close>)
  moreover have "s + int (length (dec (length a) @ [CR])) = ?k" by simp
  moreover have "line_number c s ?k = Some (int (length a))"
    by (rule line_number_dec) (use h assms in simp_all)
  moreover have "int (length a) \<le> 0 \<Longrightarrow> ?k - s = 2"
    using length_dec_one [of "length a"] by simp
  moreover have "bulk_loop c bulk_flag s z ?k = bulk_data c bulk_flag z (?k + 1) (int (length a))"
    using calculation(3,4) h assms by (subst bulk_loop.simps) (auto simp: buf_at_def)
  ultimately show ?thesis by (simp add: algebra_simps)
qed

lemma bulk_data_run:
  assumes h: "holds (buf c) i (a @ [CR, LF])" and i: "0 \<le> i" "i + int (length a) + 2 \<le> z"
      "i + int (length a) + 2 \<le> BUFSIZE"
    and inv: "args_inv c" "args_len c + 1 < BUFSIZE"
  shows "\<exists>c'. bulk_data c bulk_flag z i (int (length a)) =
      Some (Inr (c', False, i + int (length a) + 2)) \<and> args_only c c' \<and> args_inv c' \<and>
    args_len c' = args_len c + (if bulk_flag then 2 else 1) \<and>
    arg_list c' = arg_list c @ (if bulk_flag then [Some ''BULK''] else []) @ [Some a] \<and>
    args_kept c c' \<and> ended_arg c' (args_len c' - 1) a"
proof -
  let ?c1 = "if bulk_flag then client_append_arg (Literal ''BULK'') 4 c else Some c"
  obtain c1 where c1: "?c1 = Some c1"
    using append_arg_defined [OF inv(1), of "Literal ''BULK''" 4] inv(2) by (cases bulk_flag) auto
  have p1: "args_only c c1" "args_inv c1" "args_len c1 = args_len c + (if bulk_flag then 1 else 0)"
    "arg_list c1 = arg_list c @ (if bulk_flag then [Some ''BULK''] else [])"
    using c1 inv append_arg_only append_arg_inv append_arg_list [of "Literal ''BULK''" 4 c c1]
    by (auto simp: arg_bytes_def split: if_splits)
  have "args_len c1 < BUFSIZE" using p1(3) inv(2) by auto
  then obtain c2 where c2: "client_append_arg (InBuf i) (int (length a)) c1 = Some c2"
    using append_arg_defined [OF p1(2)] by blast
  have p2: "args_only c c2" "args_inv c2" "args_len c2 = args_len c1 + 1"
    "arg_list c2 = arg_list c1 @ [arg_bytes c1 (InBuf i) (int (length a))]"
    using append_arg_only [OF c2] append_arg_inv [OF c2 p1(2)] append_arg_list [OF c2] p1
      args_only_trans \<open>args_len c1 < BUFSIZE\<close> by auto
  have "holds (buf c) i a" using h by (simp only: holds_append)
  then have ab: "arg_bytes c1 (InBuf i) (int (length a)) = Some a"
    using i args_only_fields(1) [OF p1(1)] by (simp add: arg_bytes_def holds_peek)
  have "is_int (int (length a) + 2)"
    using i by (simp add: is_int_def INT_MIN_def INT_MAX_def BUFSIZE_def)
  moreover have "buf_at c (i + int (length a)) = Some CR" "buf_at c (i + int (length a) + 1) = Some LF"
    using h i by (simp_all add: holds_append buf_at_def)
  moreover have "\<not> z - i < int (length a) + 2" using i by simp
  ultimately have eq: "bulk_data c bulk_flag z i (int (length a)) =
      Some (Inr (c2, False, i + int (length a) + 2))"
    unfolding bulk_data_def c1 by (simp add: c2 add.assoc)
  have "arg_list c2 = arg_list c @ (if bulk_flag then [Some ''BULK''] else []) @ [Some a]"
    using p1(4) p2(4) ab by simp
  moreover have "args_kept c c2"
  proof -
    have "args_kept c c1" using c1 append_arg_kept by (auto simp: args_kept_def split: if_splits)
    moreover have "args_len c \<le> args_len c1" using p1(3) by auto
    ultimately show ?thesis using append_arg_kept [OF c2] args_kept_trans by blast
  qed
  moreover have "ended_arg c2 (args_len c2 - 1) a"
    using append_arg_kept [OF c2] p2(3) args_only_fields(1) [OF p2(1)] h i
    by (simp add: ended_arg_def holds_append)
  ultimately show ?thesis using eq p1(3) p2(1,2,3) by (intro exI [of _ c2]) simp
qed

lemma length_resp_bulk: "length (resp_bulk a) = length (dec (length a)) + length a + 5"
  by (simp add: resp_bulk_def)

lemma arg_run:
  assumes h: "holds (buf c) i (resp_bulk a)" and i: "0 \<le> i"
      "i + int (length (resp_bulk a)) \<le> z" "i + int (length (resp_bulk a)) \<le> BUFSIZE"
    and inv: "args_inv c" "args_len c + 1 < BUFSIZE"
  shows "\<exists>c'. (\<forall>n. args_loop (Suc n) c bulk_flag z i =
      args_loop n c' False z (i + int (length (resp_bulk a)))) \<and> args_only c c' \<and> args_inv c' \<and>
    args_len c' = args_len c + (if bulk_flag then 2 else 1) \<and>
    arg_list c' = arg_list c @ (if bulk_flag then [Some ''BULK''] else []) @ [Some a] \<and>
    args_kept c c' \<and> ended_arg c' (args_len c' - 1) a"
proof -
  let ?k = "i + 1 + int (length (dec (length a))) + 2"
  have d: "buf c i = CHR ''$''" "holds (buf c) (i + 1) (dec (length a) @ [CR, LF])"
    "holds (buf c) ?k (a @ [CR, LF])"
    using h by (simp_all add: resp_bulk_def holds_append algebra_simps)
  have l: "i + int (length (resp_bulk a)) = ?k + int (length a) + 2"
    by (simp add: length_resp_bulk)
  have "bulk_loop c bulk_flag (i + 1) z (i + 1) = bulk_data c bulk_flag z ?k (int (length a))"
    by (rule bulk_at_LF [OF d(2)]) (use i l in \<open>simp_all add: BUFSIZE_def INT_MAX_def\<close>)
  moreover obtain c' where "bulk_data c bulk_flag z ?k (int (length a)) =
      Some (Inr (c', False, ?k + int (length a) + 2))" "args_only c c'" "args_inv c'"
    "args_len c' = args_len c + (if bulk_flag then 2 else 1)"
    "arg_list c' = arg_list c @ (if bulk_flag then [Some ''BULK''] else []) @ [Some a]"
    "args_kept c c'" "ended_arg c' (args_len c' - 1) a"
    using bulk_data_run [OF d(3) _ _ _ inv, where bulk_flag = bulk_flag, of z] i l by auto
  moreover have "buf_at c i = Some (CHR ''$'')" "\<not> z \<le> i"
    using d(1) i l by (simp_all add: buf_at_def)
  ultimately show ?thesis unfolding l by (intro exI [of _ c']) simp
qed

lemma args_run:
  assumes "holds (buf c) i (concat (map resp_bulk as))" and "0 \<le> i"
    and "i + int (length (concat (map resp_bulk as))) \<le> z"
    and "i + int (length (concat (map resp_bulk as))) \<le> BUFSIZE"
    and "args_inv c" and "args_len c + int (length as) < BUFSIZE"
  shows "\<exists>c'. (\<forall>n. args_loop (length as + n) c False z i =
      args_loop n c' False z (i + int (length (concat (map resp_bulk as))))) \<and>
    args_only c c' \<and> args_inv c' \<and> args_len c' = args_len c + int (length as) \<and>
    arg_list c' = arg_list c @ map Some as \<and>
    args_kept c c' \<and> (\<forall>j < length as. ended_arg c' (args_len c + int j) (as ! j))"
  using assms
proof (induction as arbitrary: c i)
  case Nil
  then show ?case by (intro exI [of _ c]) (simp add: args_kept_def)
next
  case (Cons a as)
  let ?i = "i + int (length (resp_bulk a))"
  have h: "holds (buf c) i (resp_bulk a)" "holds (buf c) ?i (concat (map resp_bulk as))"
    using Cons.prems(1) by (simp_all add: holds_append)
  obtain c1 where c1: "\<And>n. args_loop (Suc n) c False z i = args_loop n c1 False z ?i"
    "args_only c c1" "args_inv c1" "args_len c1 = args_len c + 1" "arg_list c1 = arg_list c @ [Some a]"
    "args_kept c c1" "ended_arg c1 (args_len c1 - 1) a"
    using arg_run [OF h(1) Cons.prems(2) _ _ Cons.prems(5), where bulk_flag = False, of z] Cons.prems(3,4,6)
    by auto
  have "holds (buf c1) ?i (concat (map resp_bulk as))"
    using h(2) args_only_fields(1) [OF c1(2)] by simp
  then obtain c2 where c2: "\<And>n. args_loop (length as + n) c1 False z ?i =
      args_loop n c2 False z (?i + int (length (concat (map resp_bulk as))))"
    "args_only c1 c2" "args_inv c2" "args_len c2 = args_len c1 + int (length as)"
    "arg_list c2 = arg_list c1 @ map Some as" "args_kept c1 c2"
    "\<And>j. j < length as \<Longrightarrow> ended_arg c2 (args_len c1 + int j) (as ! j)"
    using Cons.IH [of c1 ?i] Cons.prems(2-6) c1 by auto
  have "ended_arg c2 (args_len c) a"
    using ended_arg_kept [OF c1(7) c2(6)] c1(4) args_only_fields(1) [OF c2(2)] by simp
  then have "ended_arg c2 (args_len c + int j) ((a # as) ! j)" if "j < length (a # as)" for j
    using that c2(7) [of "j - 1"] c1(4) by (cases j) (simp_all add: ac_simps)
  moreover have "args_kept c c2" using args_kept_trans [OF c1(6) c2(6)] c1(4) by simp
  ultimately show ?case using c1(1-5) c2(1-5) args_only_trans [OF c1(2)]
    by (intro exI [of _ c2]) (simp add: ac_simps)
qed

section \<open>The unread bytes\<close>

definition unread :: "client \<Rightarrow> byte list" where
  "unread c = peek (buf c) (buf_idx c) (nat (buf_len c))"

definition parser_inv :: "client \<Rightarrow> bool" where
  "parser_inv c \<longleftrightarrow> 0 \<le> buf_idx c \<and> 0 \<le> buf_len c \<and> buf_idx c + buf_len c \<le> BUFSIZE \<and>
     0 \<le> args_len c \<and> args_len c \<le> args_cap c \<and> args_cap c \<le> 2 * BUFSIZE"

lemma parser_inv_args: "parser_inv c \<Longrightarrow> args_inv c"
  by (simp add: parser_inv_def args_inv_def)

lemma parser_inv_only: "parser_inv c \<Longrightarrow> args_only c c' \<Longrightarrow> args_inv c' \<Longrightarrow> parser_inv c'"
  by (simp add: parser_inv_def args_inv_def args_only_fields)

lemma unread_only: "args_only c c' \<Longrightarrow> unread c' = unread c"
  by (simp add: unread_def args_only_fields)

lemma parser_size_t:
  assumes "parser_inv c"
  shows "to_size_t (buf_idx c) = buf_idx c" "to_size_t (buf_idx c + buf_len c) = buf_idx c + buf_len c"
    "to_size_t (buf_len c + buf_idx c) = buf_idx c + buf_len c"
  using assms by (auto simp: parser_inv_def BUFSIZE_def to_size_t_def)

lemma consume_at:
  assumes "parser_inv c" and "buf_idx c \<le> i" and "i \<le> buf_idx c + buf_len c"
  shows "consume i c = c\<lparr>buf_len := buf_idx c + buf_len c - i,
      buf_idx := if i = buf_idx c + buf_len c then 0 else i\<rparr>"
proof -
  have "to_int (buf_len c - (i - buf_idx c)) = buf_idx c + buf_len c - i" "to_int i = i"
    using assms by (simp_all add: to_int_def parser_inv_def BUFSIZE_def)
  then show ?thesis by (simp add: consume_def Let_def)
qed

lemma consume_inv:
  assumes "parser_inv c" and "buf_idx c \<le> i" and "i \<le> buf_idx c + buf_len c"
  shows "parser_inv (consume i c)"
  using assms unfolding consume_at [OF assms] by (simp add: parser_inv_def)

lemma consume_unread:
  assumes "parser_inv c" and "buf_idx c \<le> i" and "i \<le> buf_idx c + buf_len c"
  shows "unread (consume i c) = drop (nat (i - buf_idx c)) (unread c)"
proof -
  have "nat (buf_len c) = nat (i - buf_idx c) + nat (buf_idx c + buf_len c - i)"
    using assms by arith
  then have "drop (nat (i - buf_idx c)) (unread c) = peek (buf c) i (nat (buf_idx c + buf_len c - i))"
    using assms(2) by (simp add: unread_def peek_append)
  then show ?thesis unfolding consume_at [OF assms] by (simp add: unread_def)
qed

lemma arg_bytes_buf: "buf c' = buf c \<Longrightarrow> arg_bytes c' = arg_bytes c"
  by (intro ext) (simp add: arg_bytes_def split: arg_ptr.split)

lemma consume_args: "arg_list (consume i c) = arg_list c" "args_len (consume i c) = args_len c"
  using arg_bytes_buf [of "consume i c" c] by (simp_all add: consume_def arg_list_def Let_def)

lemma unread_holds: "unread c = xs \<Longrightarrow> holds (buf c) (buf_idx c) xs"
  by (auto simp: unread_def holds_peek)

lemma unread_length: "unread c = xs \<Longrightarrow> 0 \<le> buf_len c \<Longrightarrow> buf_len c = int (length xs)"
  by (auto simp: unread_def)

section \<open>Reading an encoded command\<close>

lemma count_run:
  assumes h: "holds (buf c) s (dec n @ [CR, LF])" and s: "0 \<le> s" "s + int (length (dec n)) + 2 \<le> z"
      "s + int (length (dec n)) + 2 \<le> BUFSIZE"
    and n: "0 < n" "int n \<le> INT_MAX"
  shows "multibulk_loop c s z s = Some (Inr (int n, s + int (length (dec n)) + 2))"
proof -
  let ?k = "s + int (length (dec n)) + 1"
  have d: "holds (buf c) s (dec n)" "buf c (?k - 1) = CR" "buf c ?k = LF"
    using h by (simp_all add: holds_append algebra_simps)
  have "multibulk_loop c s z s = multibulk_loop c s z (s + int (length (dec n @ [CR])))"
    by (rule multibulk_skip) (use d s dec_no_LF in \<open>simp_all add: holds_append\<close>)
  moreover have "s + int (length (dec n @ [CR])) = ?k" by simp
  moreover have num: "line_number c s ?k = Some (int n)"
    by (rule line_number_dec) (use d s n in simp_all)
  moreover have "multibulk_loop c s z ?k = Some (Inr (int n, ?k + 1))"
    using num d s n(1) by (subst multibulk_loop.simps) (auto simp: buf_at_def)
  ultimately show ?thesis by (simp add: algebra_simps)
qed

lemma args_bytes: "length as * 5 \<le> length (concat (map resp_bulk as))"
  by (induction as) (simp_all add: length_resp_bulk)

lemma read_command_count:
  assumes inv: "parser_inv c" and u: "unread c = CHR ''*'' # dec n @ [CR, LF] @ rest" and n: "0 < n" "n < 10000000"
  shows "client_read_command c = read_args (c\<lparr>args_len := 0\<rparr>) (int n) False (buf_idx c + buf_len c)
    (buf_idx c + int (length (dec n)) + 3)"
proof -
  let ?c = "c\<lparr>args_len := 0\<rparr>"
  have len: "buf_len c = int (length (dec n)) + 3 + int (length rest)"
    using unread_length [OF u] inv by (simp add: parser_inv_def)
  have h: "buf c (buf_idx c) = CHR ''*''" "holds (buf c) (buf_idx c + 1) (dec n @ [CR, LF])"
    using unread_holds [OF u] by (simp_all add: holds_append algebra_simps)
  have i: "0 \<le> buf_idx c" "buf_idx c + buf_len c \<le> BUFSIZE" using inv by (simp_all add: parser_inv_def)
  have "multibulk_loop ?c (buf_idx c + 1) (buf_idx c + buf_len c) (buf_idx c + 1) =
      Some (Inr (int n, buf_idx c + 1 + int (length (dec n)) + 2))"
    by (rule count_run) (use h i len n in \<open>simp_all add: INT_MAX_def\<close>)
  moreover have "buf_at ?c (buf_idx c) = Some (CHR ''*'')" using h i len by (simp add: buf_at_def)
  moreover have "\<not> buf_idx c + buf_len c \<le> buf_idx c" using len by simp
  ultimately show ?thesis
    by (simp add: client_read_command_def Let_def parser_size_t [OF inv] algebra_simps)
qed

text \<open>The state after the count line and the first arguments, with \<open>n\<close> arguments still to be read.\<close>

lemma read_command_args:
  assumes inv: "parser_inv c"
    and u: "unread c = CHR ''*'' # dec (length as + n) @ [CR, LF] @ concat (map resp_bulk as) @ rest"
    and n: "0 < length as + n" "length as + n < 10000000" and more: "concat (map resp_bulk as) @ rest \<noteq> []"
  shows "\<exists>c'. client_read_command c =
      (case args_loop n c' False (buf_idx c + buf_len c) (buf_idx c + buf_len c - int (length rest)) of
         None \<Rightarrow> None | Some (Inl r) \<Rightarrow> Some r | Some (Inr (c'', i')) \<Rightarrow> Some (None, consume i' c'')) \<and>
    args_only c c' \<and> args_inv c' \<and> args_len c' = int (length as) \<and> arg_list c' = map Some as \<and>
    (\<forall>j < length as. ended_arg c' (int j) (as ! j))"
proof -
  let ?z = "buf_idx c + buf_len c"
  let ?i = "buf_idx c + int (length (dec (length as + n))) + 3"
  let ?l = "int (length (concat (map resp_bulk as)))"
  let ?c = "c\<lparr>args_len := 0\<rparr>"
  have len: "buf_len c = int (length (dec (length as + n))) + 3 + ?l + int (length rest)"
    using unread_length [OF u] inv by (simp add: parser_inv_def)
  have h: "holds (buf c) ?i (concat (map resp_bulk as))"
    using unread_holds [OF u] by (simp add: holds_append algebra_simps)
  have i: "0 \<le> buf_idx c" "?z \<le> BUFSIZE" using inv by (simp_all add: parser_inv_def)
  have "args_len ?c + int (length as) < BUFSIZE"
    using args_bytes [of as] len i by (simp add: BUFSIZE_def)
  moreover have "args_inv ?c" using inv by (simp add: parser_inv_def args_inv_def)
  ultimately obtain c' where c': "\<And>n. args_loop (length as + n) ?c False ?z ?i = args_loop n c' False ?z (?i + ?l)"
    "args_only ?c c'" "args_inv c'" "args_len c' = args_len ?c + int (length as)"
    "arg_list c' = arg_list ?c @ map Some as" "\<forall>j < length as. ended_arg c' (int j) (as ! j)"
    using args_run [of ?c ?i as ?z] h i len by auto
  have "\<not> ?z \<le> ?i" using len more by (cases rest) auto
  then have "client_read_command c =
      (case args_loop n c' False ?z (?i + ?l) of
         None \<Rightarrow> None | Some (Inl r) \<Rightarrow> Some r | Some (Inr (c'', i')) \<Rightarrow> Some (None, consume i' c''))"
    using read_command_count [OF inv u n] c'(1) [of n]
    by (simp add: read_args_def nat_int_add)
  moreover have "?i + ?l = ?z - int (length rest)" using len by simp
  moreover have "args_only c ?c" by (simp add: args_only_def args_rest_def)
  ultimately show ?thesis using c' args_only_trans
    by (intro exI [of _ c']) (auto simp: arg_list_def)
qed

section \<open>Properties\<close>

lemma read_command_ended:
  assumes "parser_inv c" and "as \<noteq> []" and "unread c = resp_command as @ rest"
  shows "\<exists>c'. client_read_command c = Some (None, c') \<and> arg_list c' = map Some as \<and>
    unread c' = rest \<and> parser_inv c' \<and> args_len c' = int (length as) \<and>
    (\<forall>j < length as. ended_arg c' (int j) (as ! j))"
proof -
  have len: "buf_len c = int (length (resp_command as @ rest))"
    using unread_length [OF assms(3)] assms(1) by (simp add: parser_inv_def)
  then have "length as < 10000000"
    using args_bytes [of as] assms(1) by (simp add: resp_command_def parser_inv_def BUFSIZE_def)
  moreover have "concat (map resp_bulk as) @ rest \<noteq> []"
    using assms(2) by (cases as) (auto simp: resp_bulk_def)
  ultimately obtain c' where c': "client_read_command c =
      Some (None, consume (buf_idx c + buf_len c - int (length rest)) c')"
    "args_only c c'" "args_inv c'" "arg_list c' = map Some as" "args_len c' = int (length as)"
    "\<forall>j < length as. ended_arg c' (int j) (as ! j)"
    using read_command_args [of c as 0 rest] assms by (auto simp: resp_command_def)
  let ?i = "buf_idx c + buf_len c - int (length rest)"
  have inv': "parser_inv c'" using parser_inv_only [OF assms(1) c'(2,3)] .
  have i: "buf_idx c' \<le> ?i" "?i \<le> buf_idx c' + buf_len c'"
    using len args_only_fields [OF c'(2)] by simp_all
  have "nat (?i - buf_idx c') = length (resp_command as)"
    using len args_only_fields [OF c'(2)] by simp
  then have "unread (consume ?i c') = rest"
    using consume_unread [OF inv' i] unread_only [OF c'(2)] assms(3) by simp
  moreover have "ended_arg (consume ?i c') k a = ended_arg c' k a" for k a
    by (simp add: ended_arg_def consume_def Let_def)
  ultimately show ?thesis using c' consume_inv [OF inv' i] consume_args by auto
qed

text \<open>
  C1: a complete encoded command is read back: the arguments are those that were encoded, and the
  bytes after it, and only they, remain unread.
\<close>

theorem read_command_roundtrip:
  assumes "parser_inv c" and "as \<noteq> []" and "unread c = resp_command as @ rest"
  shows "\<exists>c'. client_read_command c = Some (None, c') \<and> arg_list c' = map Some as \<and>
    unread c' = rest \<and> parser_inv c'"
  using read_command_ended [OF assms] by blast

text \<open>A client whose unread bytes are given, for the witnesses.\<close>

definition client_of :: "byte list \<Rightarrow> client" where
  "client_of xs = (client_new (poke (\<lambda>_. NUL) 0 xs) (\<lambda>_. NUL))\<lparr>buf_len := int (length xs)\<rparr>"

lemma client_of_inv: "int (length xs) \<le> BUFSIZE \<Longrightarrow> parser_inv (client_of xs)"
  by (simp add: client_of_def client_new_def parser_inv_def BUFSIZE_def)

lemma client_of_unread: "unread (client_of xs) = xs"
  by (simp add: client_of_def client_new_def unread_def peek_poke_same)

theorem read_command_roundtrip_witness:
  "\<exists>c'. client_read_command (client_of (resp_command [''GET'', ''user7''] @ ''*'')) = Some (None, c') \<and>
     arg_list c' = [Some ''GET'', Some ''user7''] \<and> unread c' = ''*''"
proof -
  let ?xs = "resp_command [''GET'', ''user7''] @ ''*''"
  have "int (length ?xs) \<le> BUFSIZE"
    by (simp add: resp_command_def length_resp_bulk length_dec_one BUFSIZE_def)
  from read_command_roundtrip [OF client_of_inv [OF this] _ client_of_unread] show ?thesis by auto
qed

text \<open>What happens when only a part of a command has arrived.\<close>

lemma count_cut:
  assumes inv: "parser_inv c" and u: "unread c = take k (CHR ''*'' # dec n @ [CR])" and k: "0 < k"
  shows "client_read_command c = Some (Some ERR_INCOMPLETE, c\<lparr>args_len := 0\<rparr>)"
proof -
  let ?c = "c\<lparr>args_len := 0\<rparr>" and ?xs = "take (k - 1) (dec n @ [CR])"
  have u': "unread c = CHR ''*'' # ?xs" using u k by (cases k) auto
  have len: "buf_len c = int (length ?xs) + 1"
    using unread_length [OF u'] inv by (simp add: parser_inv_def)
  have h: "buf c (buf_idx c) = CHR ''*''" "holds (buf c) (buf_idx c + 1) ?xs"
    using unread_holds [OF u'] by simp_all
  have i: "0 \<le> buf_idx c" "buf_idx c + buf_len c \<le> BUFSIZE" using inv by (simp_all add: parser_inv_def)
  have "LF \<notin> set ?xs" using dec_no_LF [of n] by (auto dest: in_set_takeD)
  then have "multibulk_loop ?c (buf_idx c + 1) (buf_idx c + buf_len c) (buf_idx c + 1) =
      multibulk_loop ?c (buf_idx c + 1) (buf_idx c + buf_len c) (buf_idx c + 1 + int (length ?xs))"
    by (intro multibulk_skip) (use h i len in simp_all)
  moreover have "buf_idx c + 1 + int (length ?xs) = buf_idx c + buf_len c" using len by simp
  ultimately have "multibulk_loop ?c (buf_idx c + 1) (buf_idx c + buf_len c) (buf_idx c + 1) =
      Some (Inr (0, buf_idx c + buf_len c))"
    by (simp add: multibulk_loop.simps)
  moreover have "buf_at ?c (buf_idx c) = Some (CHR ''*'')" using h i len by (simp add: buf_at_def)
  moreover have "\<not> buf_idx c + buf_len c \<le> buf_idx c" using len by simp
  ultimately show ?thesis
    by (simp add: client_read_command_def Let_def parser_size_t [OF inv] read_args_def ac_simps)
qed

text \<open>The unread part of one argument: nothing, a part of its length line, or a part of its data.\<close>

lemma arg_cut_length:
  assumes h: "holds (buf c) i (take k (resp_bulk a))" and i: "0 \<le> i" "z = i + int k" "z \<le> BUFSIZE"
    and k: "0 < k" "k \<le> length (dec (length a)) + 2"
  shows "args_loop (Suc n) c False z i = args_loop n c False z z"
proof -
  let ?xs = "take (k - 1) (dec (length a) @ [CR])"
  have t: "take k (resp_bulk a) = CHR ''$'' # ?xs"
    using k by (cases k) (auto simp: resp_bulk_def take_Cons')
  have l: "length ?xs = k - 1" using k by simp
  have h': "buf c i = CHR ''$''" "holds (buf c) (i + 1) ?xs" using h unfolding t by simp_all
  have "LF \<notin> set ?xs" using dec_no_LF [of "length a"] by (auto dest: in_set_takeD)
  then have "bulk_loop c False (i + 1) z (i + 1) = bulk_loop c False (i + 1) z (i + 1 + int (length ?xs))"
    by (intro bulk_skip) (use h' i l k in simp_all)
  moreover have "i + 1 + int (length ?xs) = z" using l i k by simp
  ultimately have "bulk_loop c False (i + 1) z (i + 1) = Some (Inr (c, False, z))"
    by (simp add: bulk_loop.simps)
  moreover have "buf_at c i = Some (CHR ''$'')" "\<not> z \<le> i" using h' i k by (simp_all add: buf_at_def)
  ultimately show ?thesis by simp
qed

lemma arg_cut_data:
  assumes h: "holds (buf c) i (take k (resp_bulk a))" and i: "0 \<le> i" "z = i + int k" "z \<le> BUFSIZE"
    and k: "length (dec (length a)) + 2 < k" "k < length (resp_bulk a)" and a: "int (length a) + 2 \<le> INT_MAX"
  shows "args_loop (Suc n) c False z i = Some (Inl (Some ERR_INCOMPLETE, c))"
proof -
  let ?l = "CHR ''$'' # dec (length a) @ [CR, LF]"
  have "take k (resp_bulk a) = ?l @ take (k - length ?l) (a @ [CR, LF])"
    using k by (simp add: resp_bulk_def take_Cons')
  with h have h': "buf c i = CHR ''$''" "holds (buf c) (i + 1) (dec (length a) @ [CR, LF])"
    by (simp_all add: holds_append)
  have "bulk_loop c False (i + 1) z (i + 1) =
      bulk_data c False z (i + 1 + int (length (dec (length a))) + 2) (int (length a))"
    by (rule bulk_at_LF [OF h'(2)]) (use i k a in simp_all)
  also have "\<dots> = Some (Inl (Some ERR_INCOMPLETE, c))"
    using i k a by (simp add: bulk_data_def is_int_def INT_MIN_def length_resp_bulk)
  finally show ?thesis using h'(1) i k by (simp add: buf_at_def)
qed

lemma concat_cut:
  "k < length (concat (map f as)) \<Longrightarrow>
     \<exists>pre a post k'. as = pre @ a # post \<and> k = length (concat (map f pre)) + k' \<and> k' < length (f a)"
proof (induction as arbitrary: k)
  case (Cons a as)
  show ?case
  proof (cases "k < length (f a)")
    case True
    then show ?thesis by (intro exI [of _ "[]"]) auto
  next
    case False
    then have "k - length (f a) < length (concat (map f as))" using Cons.prems by simp
    from Cons.IH [OF this] obtain pre b post k' where
      *: "as = pre @ b # post" "k - length (f a) = length (concat (map f pre)) + k'" "k' < length (f b)"
      by blast
    have "k = length (concat (map f (a # pre))) + k'" using *(2) False by simp
    then show ?thesis using *(1,3) by (intro exI [of _ "a # pre"]) auto
  qed
qed simp

definition last_start :: "byte list list \<Rightarrow> nat" where
  "last_start as = length (resp_command as) - length (resp_bulk (last as))"

text \<open>The cut leaves a non-empty part of the length line of the last argument, without its line end.\<close>

definition cut_in_last_length :: "byte list list \<Rightarrow> nat \<Rightarrow> bool" where
  "cut_in_last_length as k \<longleftrightarrow>
     last_start as < k \<and> k \<le> last_start as + length (dec (length (last as))) + 2"

lemma take_resp_command:
  assumes "as = pre @ a # post"
    and "k = length (dec (length as)) + 3 + length (concat (map resp_bulk pre)) + k'"
    and "k' < length (resp_bulk a)"
  shows "take k (resp_command as) = CHR ''*'' # dec (length as) @ [CR, LF] @
      concat (map resp_bulk pre) @ take k' (resp_bulk a)"
    and "cut_in_last_length as k \<longleftrightarrow> post = [] \<and> 0 < k' \<and> k' \<le> length (dec (length a)) + 2"
proof -
  show "take k (resp_command as) = CHR ''*'' # dec (length as) @ [CR, LF] @
      concat (map resp_bulk pre) @ take k' (resp_bulk a)"
    using assms by (simp add: resp_command_def take_Cons')
  show "cut_in_last_length as k \<longleftrightarrow> post = [] \<and> 0 < k' \<and> k' \<le> length (dec (length a)) + 2"
  proof (cases "post = []")
    case True
    then have "last_start as = length (dec (length as)) + 3 + length (concat (map resp_bulk pre))"
      using assms(1) by (simp add: last_start_def resp_command_def)
    then show ?thesis using assms True by (auto simp: cut_in_last_length_def)
  next
    case False
    then obtain post' b where post: "post = post' @ [b]" by (cases post rule: rev_cases) auto
    then have "last_start as = length (dec (length as)) + 3 +
        length (concat (map resp_bulk pre)) + length (resp_bulk a) + length (concat (map resp_bulk post'))"
      using assms(1) by (simp add: last_start_def resp_command_def)
    then show ?thesis using assms False by (auto simp: cut_in_last_length_def)
  qed
qed

text \<open>One cut behind the count line, with the arguments before, at and after the cut.\<close>

lemma read_command_cut:
  assumes inv: "parser_inv c"
    and u: "unread c = CHR ''*'' # dec (length pre + Suc (length post)) @ [CR, LF] @
      concat (map resp_bulk pre) @ take k (resp_bulk a)"
    and k: "k < length (resp_bulk a)"
    and small: "length pre + Suc (length post) < 10000000" "int (length a) + 2 \<le> INT_MAX"
  shows "\<exists>c'. args_only c c' \<and> args_inv c' \<and> client_read_command c =
    (if post = [] \<and> 0 < k \<and> k \<le> length (dec (length a)) + 2
     then Some (None, consume (buf_idx c + buf_len c) c') else Some (Some ERR_INCOMPLETE, c')) \<and>
    (post = [] \<and> 0 < k \<longrightarrow> arg_list c' = map Some pre)"
proof (cases "concat (map resp_bulk pre) @ take k (resp_bulk a) = []")
  case True
  then have "k = 0" using k by (cases k) (auto simp: resp_bulk_def)
  moreover have "buf_len c = int (length (dec (length pre + Suc (length post)))) + 3"
    using unread_length [OF u] inv unfolding True by (simp add: parser_inv_def)
  moreover have "args_only c (c\<lparr>args_len := 0\<rparr>)" "args_inv (c\<lparr>args_len := 0\<rparr>)"
    using inv by (simp_all add: args_only_def args_rest_def parser_inv_def args_inv_def)
  ultimately show ?thesis
    using read_command_count [OF inv u] small(1)
    by (intro exI [of _ "c\<lparr>args_len := 0\<rparr>"]) (simp add: read_args_def)
next
  case False
  let ?z = "buf_idx c + buf_len c" and ?xs = "take k (resp_bulk a)"
  have l: "length ?xs = k" using k by simp
  have "\<exists>c'. client_read_command c =
      (case args_loop (Suc (length post)) c' False ?z (?z - int (length ?xs)) of
         None \<Rightarrow> None | Some (Inl r) \<Rightarrow> Some r | Some (Inr (c'', i')) \<Rightarrow> Some (None, consume i' c'')) \<and>
    args_only c c' \<and> args_inv c' \<and> args_len c' = int (length pre) \<and> arg_list c' = map Some pre \<and>
    (\<forall>j < length pre. ended_arg c' (int j) (pre ! j))"
    by (rule read_command_args [OF inv u _ small(1) False]) simp
  then obtain c' where c': "client_read_command c =
      (case args_loop (Suc (length post)) c' False ?z (?z - int k) of
         None \<Rightarrow> None | Some (Inl r) \<Rightarrow> Some r | Some (Inr (c'', i')) \<Rightarrow> Some (None, consume i' c''))"
    "args_only c c'" "args_inv c'" "arg_list c' = map Some pre"
    unfolding l by blast
  have z: "?z \<le> BUFSIZE" using inv by (simp add: parser_inv_def)
  have len: "buf_len c = int (length (dec (length pre + Suc (length post)))) + 3 +
      int (length (concat (map resp_bulk pre))) + int k"
    using unread_length [OF u] inv l by (simp add: parser_inv_def)
  have start: "buf_idx c + (int (length (dec (length pre + Suc (length post)))) + 3 +
      int (length (concat (map resp_bulk pre)))) = ?z - int k"
    using len by simp
  have h: "holds (buf c') (?z - int k) ?xs"
    using unread_holds [OF u] args_only_fields(1) [OF c'(2)]
    by (simp add: holds_append start [symmetric] algebra_simps)
  have pos: "0 \<le> ?z - int k" using len inv by (simp add: parser_inv_def)
  consider "k = 0" | "0 < k" "k \<le> length (dec (length a)) + 2" | "length (dec (length a)) + 2 < k"
    by linarith
  then show ?thesis
  proof cases
    case 1
    then show ?thesis using c' by (intro exI [of _ c']) simp
  next
    case 2
    have "args_loop (Suc (length post)) c' False ?z (?z - int k) = args_loop (length post) c' False ?z ?z"
      by (rule arg_cut_length [OF h pos _ z 2]) simp
    then show ?thesis using c' 2 by (intro exI [of _ c']) (cases post, simp_all)
  next
    case 3
    have "args_loop (Suc (length post)) c' False ?z (?z - int k) = Some (Inl (Some ERR_INCOMPLETE, c'))"
      by (rule arg_cut_data [OF h pos _ z 3 k small(2)]) simp
    then show ?thesis using c' 3 by (intro exI [of _ c']) simp
  qed
qed

text \<open>The cut is in the line with the number of arguments.\<close>

lemma partial_count:
  assumes inv: "parser_inv c" and ne: "as \<noteq> []" and short: "k < length (dec (length as)) + 3"
    and u: "unread c = take k (resp_command as)"
  shows "\<exists>c'. parser_inv c' \<and>
    (if cut_in_last_length as k
     then client_read_command c = Some (None, c') \<and> arg_list c' = map Some (butlast as) \<and> unread c' = []
     else client_read_command c = Some (Some ERR_INCOMPLETE, c') \<and> unread c' = unread c)"
proof -
  let ?c = "c\<lparr>args_len := 0\<rparr>"
  have "client_read_command c = Some (Some ERR_INCOMPLETE, ?c)"
  proof (cases "k = 0")
    case True
    then have "buf_len c = 0" using unread_length [OF u] inv by (simp add: parser_inv_def)
    then show ?thesis by (simp add: client_read_command_def Let_def parser_size_t [OF inv])
  next
    case False
    have "resp_command as = (CHR ''*'' # dec (length as) @ [CR]) @ LF # concat (map resp_bulk as)"
      by (simp add: resp_command_def)
    then have "take k (resp_command as) = take k (CHR ''*'' # dec (length as) @ [CR])"
      using short by (simp only: take_append) simp
    then show ?thesis using count_cut [OF inv, of k "length as"] u False by simp
  qed
  moreover have "\<not> cut_in_last_length as k"
  proof -
    obtain bs b where "as = bs @ [b]" using ne by (cases as rule: rev_cases) auto
    then have "length (dec (length as)) + 3 \<le> last_start as"
      by (simp add: last_start_def resp_command_def)
    then show ?thesis using short by (simp add: cut_in_last_length_def)
  qed
  moreover have "parser_inv ?c" "unread ?c = unread c" using inv by (simp_all add: parser_inv_def unread_def)
  ultimately show ?thesis by auto
qed

text \<open>The cut is in an argument.\<close>

lemma partial_arg:
  assumes inv: "parser_inv c" and k: "k < length (resp_command as)"
    and late: "\<not> k < length (dec (length as)) + 3" and u: "unread c = take k (resp_command as)"
    and small: "length as < 10000000" "\<forall>a \<in> set as. int (length a) + 2 \<le> INT_MAX"
  shows "\<exists>c'. parser_inv c' \<and>
    (if cut_in_last_length as k
     then client_read_command c = Some (None, c') \<and> arg_list c' = map Some (butlast as) \<and> unread c' = []
     else client_read_command c = Some (Some ERR_INCOMPLETE, c') \<and> unread c' = unread c)"
proof -
  have "k - (length (dec (length as)) + 3) < length (concat (map resp_bulk as))"
    using k late by (simp add: resp_command_def)
  from concat_cut [OF this] obtain pre a post k' where as: "as = pre @ a # post"
    and "k - (length (dec (length as)) + 3) = length (concat (map resp_bulk pre)) + k'"
    and k': "k' < length (resp_bulk a)" by blast
  then have keq: "k = length (dec (length as)) + 3 + length (concat (map resp_bulk pre)) + k'"
    using late by simp
  note cut = take_resp_command [OF as keq k']
  have n: "length pre + Suc (length post) = length as" using as by simp
  have "unread c = CHR ''*'' # dec (length pre + Suc (length post)) @ [CR, LF] @
      concat (map resp_bulk pre) @ take k' (resp_bulk a)"
    unfolding n using u cut(1) by simp
  then obtain c' where c': "args_only c c'" "args_inv c'" "client_read_command c =
      (if cut_in_last_length as k
       then Some (None, consume (buf_idx c + buf_len c) c') else Some (Some ERR_INCOMPLETE, c'))"
    "cut_in_last_length as k \<longrightarrow> arg_list c' = map Some pre"
    using read_command_cut [OF inv _ k', of pre post] small n as cut(2) by auto
  have inv': "parser_inv c'" using parser_inv_only [OF inv c'(1,2)] .
  show ?thesis
  proof (cases "cut_in_last_length as k")
    case True
    have i: "buf_idx c' \<le> buf_idx c + buf_len c" "buf_idx c + buf_len c \<le> buf_idx c' + buf_len c'"
      using inv args_only_fields [OF c'(1)] by (simp_all add: parser_inv_def)
    have "unread (consume (buf_idx c + buf_len c) c') = []"
      using consume_unread [OF inv' i] args_only_fields [OF c'(1)] by (simp add: unread_def)
    moreover have "butlast as = pre" using True cut(2) as by simp
    ultimately show ?thesis using True c' consume_inv [OF inv' i] consume_args by auto
  next
    case False
    then show ?thesis using c' inv' unread_only by auto
  qed
qed

text \<open>
  C2: of a command that has arrived in part, \<open>client_read_command\<close> reads nothing, except when the
  cut is inside the length line of its last argument: then it takes the command as complete without
  that argument and throws the part of the length line away.
\<close>

theorem read_command_partial:
  assumes inv: "parser_inv c" and "as \<noteq> []" and k: "k < length (resp_command as)"
    and u: "unread c = take k (resp_command as)"
    and small: "length as < 10000000" "\<forall>a \<in> set as. int (length a) + 2 \<le> INT_MAX"
  shows "\<exists>c'. parser_inv c' \<and>
    (if cut_in_last_length as k
     then client_read_command c = Some (None, c') \<and> arg_list c' = map Some (butlast as) \<and> unread c' = []
     else client_read_command c = Some (Some ERR_INCOMPLETE, c') \<and> unread c' = unread c)"
  using partial_count [OF inv assms(2) _ u] partial_arg [OF inv k _ u small] by blast

theorem read_command_partial_witness:
  "\<exists>c'. client_read_command (client_of (take 14 (resp_command [''GET'', ''user7'']))) = Some (None, c') \<and>
     arg_list c' = [Some ''GET''] \<and> unread c' = []"
proof -
  let ?as = "[''GET'', ''user7'']"
  have len: "length (dec 2) = 1" "length (dec 3) = 1" "length (dec 5) = 1" by (simp_all add: length_dec_one)
  have full: "length (resp_command ?as) = 24"
    by (simp add: resp_command_def length_resp_bulk length_dec_one)
  have "last_start ?as = 13"
    by (simp add: last_start_def full length_resp_bulk length_dec_one)
  then have cut: "cut_in_last_length ?as 14" by (simp add: cut_in_last_length_def)
  have "int (length (take 14 (resp_command ?as))) \<le> BUFSIZE"
    using full by (simp add: BUFSIZE_def)
  note inv = client_of_inv [OF this]
  have "14 < length (resp_command ?as)" using full by simp
  moreover have "\<forall>a \<in> set ?as. int (length a) + 2 \<le> INT_MAX" by (simp add: INT_MAX_def)
  ultimately have "\<exists>c'. parser_inv c' \<and>
      client_read_command (client_of (take 14 (resp_command ?as))) = Some (None, c') \<and>
      arg_list c' = map Some (butlast ?as) \<and> unread c' = []"
    using read_command_partial [OF inv, of ?as 14] client_of_unread cut by simp
  then show ?thesis by auto
qed

end
