(* ===== verification/ParserSafety.thy ===== *)
theory ParserSafety
  imports ClientParser
begin

text \<open>
  What reading a command does on arbitrary input: which inputs it is undefined on, that it keeps
  the indices inside the buffers, and that every command read takes bytes off the input.
\<close>

section \<open>What every read keeps\<close>

text \<open>
  The result of reading from the index \<open>i\<close> on, of a command that started at \<open>b\<close>: with an error
  nothing is consumed; without one the bytes up to an index behind \<open>i\<close> are.
\<close>

definition parsed :: "client \<Rightarrow> int \<Rightarrow> int \<Rightarrow> error \<times> client \<Rightarrow> bool" where
  "parsed c i z r \<longleftrightarrow>
     (case r of (e, c') \<Rightarrow>
        if e = None
        then (\<exists>c'' i'. c' = consume i' c'' \<and> args_only c c'' \<and> args_inv c'' \<and> i < i' \<and> i' \<le> z)
        else args_only c (c'\<lparr>tmp_err := tmp_err c\<rparr>) \<and> args_inv c')"

lemma parsed_error: "args_only c c' \<Longrightarrow> args_inv c' \<Longrightarrow> e \<noteq> None \<Longrightarrow> parsed c i z (e, c')"
  by (cases c; cases c'; auto simp: parsed_def args_only_def args_rest_def)

lemma parsed_consume:
  "args_only c c' \<Longrightarrow> args_inv c' \<Longrightarrow> i < i' \<Longrightarrow> i' \<le> z \<Longrightarrow> parsed c i z (None, consume i' c')"
  by (auto simp: parsed_def)

lemma parsed_step:
  assumes "parsed c1 i1 z r" and "args_only c c1" and "i \<le> i1"
  shows "parsed c i z r"
  using assms args_only_trans [OF assms(2)] args_only_fields(9) [OF assms(2)]
  by (fastforce simp: parsed_def split: if_splits)

lemma parsed_next: "parsed c (i + 1) z r \<Longrightarrow> parsed c i z r"
  using parsed_step [of c "i + 1" z r c i] by simp

lemma telnet_quote_total:
  assumes "args_inv c" and "args_len c < BUFSIZE" and "0 \<le> i" and "z \<le> BUFSIZE"
  shows "\<exists>r. telnet_quote c b s z i = Some r \<and>
    (case r of Inl (e, c') \<Rightarrow> e \<noteq> None \<and> args_only c c' \<and> args_inv c'
     | Inr (c', i') \<Rightarrow> args_only c c' \<and> args_inv c' \<and> i \<le> i' + 1 \<and> args_len c' \<le> args_len c + 1 \<and>
         (i' < z \<or> c' = c))"
  using assms
proof (induction c b s z i rule: telnet_quote.induct)
  case (1 c b s z i)
  show ?case
  proof (cases "i < z")
    case False
    then show ?thesis using 1(2) by (simp add: telnet_quote.simps [of c b s z i])
  next
    case True
    then have at: "buf_at c i = Some (buf c i)" using 1(4,5) by (simp add: buf_at_def)
    obtain c' where c': "client_append_arg (InBuf s) (to_int (i - s)) c = Some c'"
      using append_arg_defined [OF 1(2,3)] by blast
    note app = append_arg_only [OF c'] append_arg_inv [OF c' 1(2,3)]
    show ?thesis
    proof (cases "buf c i = b")
      case True
      then show ?thesis using \<open>i < z\<close> at c' app 1(2)
        by (subst telnet_quote.simps) (simp split: if_splits)
    next
      case False
      obtain r where r: "telnet_quote c b s z (i + 1) = Some r \<and>
        (case r of Inl (e, c') \<Rightarrow> e \<noteq> None \<and> args_only c c' \<and> args_inv c'
         | Inr (c', i') \<Rightarrow> args_only c c' \<and> args_inv c' \<and> i + 1 \<le> i' + 1 \<and>
             args_len c' \<le> args_len c + 1 \<and> (i' < z \<or> c' = c))"
        using 1(1) [OF True at False 1(2,3) _ 1(5)] 1(4) by auto
      then have "telnet_quote c b s z i = Some r"
        using True at False by (subst telnet_quote.simps) simp
      then show ?thesis using r by (auto split: sum.splits)
    qed
  qed
qed

text \<open>
  A pass of the loop over a line, at a quote and at the end of the line; \<open>rest\<close> says that the loop is
  defined behind the quoted word.
\<close>

lemma telnet_pass_quote:
  assumes inv: "args_inv c" and room: "args_len c < BUFSIZE" and i: "0 \<le> i" "i < z" "z \<le> BUFSIZE"
    and quote: "buf c i = CHR 0x27 \<or> buf c i = CHR 0x22"
    and rest: "\<And>c' i'. first \<Longrightarrow> telnet_quote c (buf c i) (i + 1) z (i + 1) = Some (Inr (c', i')) \<Longrightarrow>
      args_inv c' \<Longrightarrow> i \<le> i' \<Longrightarrow> args_len c' \<le> args_len c + 1 \<Longrightarrow>
      \<exists>r. telnet_loop c' first (i + 1) z (i' + 1 + 1) = Some r \<and> parsed c' (i' + 1 + 1) z r"
  shows "\<exists>r. telnet_loop c first s z i = Some r \<and> parsed c i z r"
proof (cases first)
  case False
  have at: "buf_at c i = Some (buf c i)" using i by (simp add: buf_at_def)
  show ?thesis using False i at quote inv by (subst telnet_loop.simps) (simp add: parsed_error)
next
  case True
  have at: "buf_at c i = Some (buf c i)" using i by (simp add: buf_at_def)
  obtain r where r: "telnet_quote c (buf c i) (i + 1) z (i + 1) = Some r"
    "case r of Inl (e, c') \<Rightarrow> e \<noteq> None \<and> args_only c c' \<and> args_inv c'
     | Inr (c', i') \<Rightarrow> args_only c c' \<and> args_inv c' \<and> i + 1 \<le> i' + 1 \<and>
         args_len c' \<le> args_len c + 1 \<and> (i' < z \<or> c' = c)"
    using telnet_quote_total [OF inv room, of "i + 1" z "buf c i" "i + 1"] i by auto
  show ?thesis
  proof (cases r)
    case (Inl ec)
    then have "telnet_loop c first s z i = Some ec"
      using i at quote r(1) True by (subst telnet_loop.simps) simp
    then show ?thesis using r(2) Inl by (auto intro: parsed_error)
  next
    case (Inr ci)
    obtain c' i' where ci: "ci = (c', i')" by fastforce
    then have c': "args_only c c'" "args_inv c'" "i \<le> i'" "args_len c' \<le> args_len c + 1"
      using r(2) Inr by auto
    have eq: "telnet_loop c first s z i = telnet_loop c' first (i + 1) z (i' + 1 + 1)"
      using i at quote r(1) True Inr ci by (subst telnet_loop.simps) simp
    have "\<exists>r. telnet_loop c' first (i + 1) z (i' + 1 + 1) = Some r \<and> parsed c' (i' + 1 + 1) z r"
      by (rule rest [OF True _ c'(2-4)]) (simp add: r(1) Inr ci)
    then show ?thesis unfolding eq using parsed_step [OF _ c'(1)] c'(3) by fastforce
  qed
qed

lemma telnet_pass_line:
  assumes inv: "args_inv c" and room: "args_len c < BUFSIZE" and i: "0 \<le> i" "i < z" "z \<le> BUFSIZE"
    and line: "buf c i = LF"
  shows "\<exists>r. telnet_loop c first s z i = Some r \<and> parsed c i z r"
proof -
  have at: "buf_at c i = Some (buf c i)" using i by (simp add: buf_at_def)
  let ?e = "if s < i \<and> buf_at c (i - 1) = Some CR then i - 1 else i"
  obtain c' where c': "client_append_arg (InBuf s) (to_int (?e - s)) c = Some c'" "args_only c c'" "args_inv c'"
    using append_arg_defined [OF inv room] append_arg_only append_arg_inv [OF _ inv room] by blast
  have "parsed c i z (None, consume (i + 1) c')" "parsed c i z (None, consume (i + 1) c)"
    using c' i inv by (auto intro: parsed_consume)
  then show ?thesis using i at line c'(1) by (subst telnet_loop.simps) (simp add: Let_def)
qed

lemma telnet_total:
  assumes "args_inv c" and "args_len c \<le> i - b" and "0 \<le> b" and "b \<le> i" and "z \<le> BUFSIZE"
  shows "\<exists>r. telnet_loop c first s z i = Some r \<and> parsed c i z r"
  using assms
proof (induction c first s z i rule: telnet_loop.induct)
  case (1 c first s z i)
  show ?case
  proof (cases "i < z")
    case False
    then show ?thesis using 1(6) by (simp add: telnet_loop.simps [of c first s z i] parsed_error)
  next
    case True
    note i = True
    then have at: "buf_at c i = Some (buf c i)" using 1(8-10) by (simp add: buf_at_def)
    have room: "args_len c < BUFSIZE" using i 1(7-10) by simp
    have app: "\<exists>c'. client_append_arg d n c = Some c' \<and> args_only c c' \<and> args_inv c' \<and>
        args_len c' = args_len c + 1" for d n
      using append_arg_defined [OF 1(6) room] append_arg_only append_arg_inv [OF _ 1(6) room] by blast
    consider (quote) "buf c i = CHR 0x27 \<or> buf c i = CHR 0x22"
      | (line) "buf c i = LF" | (space) "buf c i = SP"
      | (word) "\<not> (buf c i = CHR 0x27 \<or> buf c i = CHR 0x22)" "buf c i \<noteq> LF" "buf c i \<noteq> SP"
      by blast
    then show ?thesis
    proof cases
      case quote
      show ?thesis
        by (rule telnet_pass_quote [OF 1(6) room _ i 1(10) quote]) (use 1(1) [OF i at quote] 1(7-10) i in auto)
    next
      case line
      show ?thesis by (rule telnet_pass_line [OF 1(6) room _ i 1(10) line]) (use 1(8,9) in simp)
    next
      case space
      obtain c' where c': "client_append_arg (InBuf s) (to_int (i - s)) c = Some c'"
        "args_only c c'" "args_inv c'" "args_len c' = args_len c + 1"
        using app by blast
      show ?thesis
      proof (cases first)
        case True
        then have "\<exists>r. telnet_loop c first s z (i + 1) = Some r \<and> parsed c (i + 1) z r"
          using space 1(6-10) by (intro 1(2) [OF i at]) auto
        moreover have "telnet_loop c first s z i = telnet_loop c first s z (i + 1)"
          using True i at space by (subst telnet_loop.simps) simp
        ultimately show ?thesis by (auto dest: parsed_next)
      next
        case False
        then have "\<exists>r. telnet_loop c' True s z (i + 1) = Some r \<and> parsed c' (i + 1) z r"
          using space c' 1(6-10) by (intro 1(3) [OF i at]) auto
        moreover have "telnet_loop c first s z i = telnet_loop c' True s z (i + 1)"
          using False i at space c'(1) by (subst telnet_loop.simps) simp
        ultimately show ?thesis using parsed_step [OF _ c'(2), of "i + 1" z] by fastforce
      qed
    next
      case word
      show ?thesis
      proof (cases first)
        case True
        then have "\<exists>r. telnet_loop c False i z (i + 1) = Some r \<and> parsed c (i + 1) z r"
          using word 1(6-10) by (intro 1(4) [OF i at]) auto
        moreover have "telnet_loop c first s z i = telnet_loop c False i z (i + 1)"
          using True i at word by (subst telnet_loop.simps) simp
        ultimately show ?thesis by (auto dest: parsed_next)
      next
        case False
        then have "\<exists>r. telnet_loop c first s z (i + 1) = Some r \<and> parsed c (i + 1) z r"
          using word 1(6-10) by (intro 1(5) [OF i at]) auto
        moreover have "telnet_loop c first s z i = telnet_loop c first s z (i + 1)"
          using False i at word by (subst telnet_loop.simps) simp
        ultimately show ?thesis by (auto dest: parsed_next)
      qed
    qed
  qed
qed

text \<open>
  The only undefined behaviour of reading is a number that \<open>atoi\<close> cannot represent (with room for
  the line end) and an unknown status line.
\<close>

definition number_fits :: "client \<Rightarrow> int \<Rightarrow> int \<Rightarrow> bool" where
  "number_fits c s i \<longleftrightarrow> (\<exists>n. line_number c s i = Some n \<and> INT_MIN \<le> n \<and> n + 2 \<le> INT_MAX)"

lemma number_fits_only: "args_only c c' \<Longrightarrow> number_fits c' s i = number_fits c s i"
  by (simp add: number_fits_def line_number_def args_only_fields)

lemma multibulk_total:
  assumes "(\<forall>k. i \<le> k \<longrightarrow> k < z \<longrightarrow> buf c (k - 1) = CR \<longrightarrow> number_fits c s k) \<or>
      multibulk_loop c s z i \<noteq> None"
    and "0 < i" and "z \<le> BUFSIZE"
  shows "\<exists>r. multibulk_loop c s z i = Some r \<and>
    (case r of Inl e \<Rightarrow> True | Inr (n, i') \<Rightarrow> i \<le> i' \<and> (i \<le> z \<longrightarrow> i' \<le> z))"
  using assms
proof (induction c s z i rule: multibulk_loop.induct)
  case (1 c s z i)
  show ?case
  proof (cases "i < z")
    case False
    then show ?thesis by (simp add: multibulk_loop.simps [of c s z i])
  next
    case True
    then have at: "buf_at c i = Some (buf c i)" using 1(3,4) by (simp add: buf_at_def)
    show ?thesis
    proof (cases "buf c i = LF")
      case True
      have "\<exists>n. line_number c s i = Some n" if "buf_at c (i - 1) = Some CR"
        using 1(2)
      proof
        assume "multibulk_loop c s z i \<noteq> None"
        then show ?thesis using True at that \<open>i < z\<close>
          by (subst (asm) multibulk_loop.simps) (auto split: option.splits)
      qed (use \<open>i < z\<close> that in \<open>auto simp: number_fits_def buf_at_def split: if_splits\<close>)
      then show ?thesis using True at \<open>i < z\<close>
        by (subst multibulk_loop.simps) (auto split: if_splits)
    next
      case False
      moreover have eq: "multibulk_loop c s z i = multibulk_loop c s z (i + 1)"
        using True at False by (subst multibulk_loop.simps) simp
      moreover have "\<exists>r. multibulk_loop c s z (i + 1) = Some r \<and>
          (case r of Inl e \<Rightarrow> True | Inr (n, i') \<Rightarrow> i + 1 \<le> i' \<and> (i + 1 \<le> z \<longrightarrow> i' \<le> z))"
        by (rule 1(1) [OF True at False]) (use 1(2-4) eq in auto)
      ultimately show ?thesis using True by (fastforce split: sum.splits)
    qed
  qed
qed

text \<open>One argument: it adds at most two entries and consumes at least two bytes, or ends the input.\<close>

definition bulk_result :: "client \<Rightarrow> int \<Rightarrow> int \<Rightarrow> (error \<times> client) + (client \<times> bool \<times> int) \<Rightarrow> bool" where
  "bulk_result c i z r \<longleftrightarrow>
     (case r of Inl (e, c') \<Rightarrow> e \<noteq> None \<and> args_only c c' \<and> args_inv c'
      | Inr (c', flag, i') \<Rightarrow> args_only c c' \<and> args_inv c' \<and> i \<le> i' \<and> i' \<le> z \<and>
          2 * args_len c' \<le> 2 * args_len c + (i' - i + 1))"

lemma bulk_data_total:
  assumes "args_inv c" and "args_len c + 1 < BUFSIZE" and "0 \<le> i1" and "z \<le> BUFSIZE"
    and "0 \<le> n" and "n + 2 \<le> INT_MAX"
  shows "\<exists>r. bulk_data c flag z i1 n = Some r \<and> bulk_result c (i1 - 1) z r"
proof (cases "z - i1 < n + 2")
  case True
  then show ?thesis using assms
    by (simp add: bulk_data_def bulk_result_def is_int_def INT_MIN_def)
next
  case False
  then have at: "buf_at c (i1 + n) = Some (buf c (i1 + n))"
    "buf_at c (i1 + n + 1) = Some (buf c (i1 + n + 1))"
    using assms by (simp_all add: buf_at_def)
  have int2: "is_int (n + 2)" using assms by (simp add: is_int_def INT_MIN_def)
  let ?c1 = "if flag then client_append_arg (Literal ''BULK'') 4 c else Some c"
  obtain c1 where c1: "?c1 = Some c1"
    using append_arg_defined [OF assms(1), of "Literal ''BULK''" 4] assms(2) by (cases flag) auto
  have p1: "args_only c c1" "args_inv c1" "args_len c1 \<le> args_len c + 1"
    using c1 assms append_arg_only append_arg_inv by (auto split: if_splits)
  have room: "args_len c1 < BUFSIZE" using p1(3) assms(2) by simp
  obtain c2 where c2: "client_append_arg (InBuf i1) n c1 = Some c2"
    using append_arg_defined [OF p1(2) room] by blast
  have p2: "args_only c c2" "args_inv c2" "args_len c2 \<le> args_len c + 2"
    using append_arg_only [OF c2] append_arg_inv [OF c2 p1(2) room] p1 args_only_trans by auto
  show ?thesis
  proof (cases "buf c (i1 + n) \<noteq> CR \<or> buf c (i1 + n + 1) \<noteq> LF")
    case True
    then show ?thesis using False at int2 assms(1) by (auto simp: bulk_data_def bulk_result_def)
  next
    case ok: False
    then have "bulk_data c flag z i1 n = Some (Inr (c2, False, i1 + (n + 2)))"
      using False at int2 c2 unfolding bulk_data_def c1 by simp
    moreover have "bulk_result c (i1 - 1) z (Inr (c2, False, i1 + (n + 2)))"
      using p2 False assms(5) by (simp add: bulk_result_def)
    ultimately show ?thesis by blast
  qed
qed

lemma bulk_result_step: "bulk_result c i1 z r \<Longrightarrow> i \<le> i1 \<Longrightarrow> bulk_result c i z r"
  by (auto simp: bulk_result_def split: sum.splits)

lemma bulk_total:
  assumes "(\<forall>k. i \<le> k \<longrightarrow> k < z \<longrightarrow> buf c (k - 1) = CR \<longrightarrow> number_fits c s k) \<or>
      bulk_loop c flag s z i \<noteq> None"
    and "args_inv c" and "args_len c + 1 < BUFSIZE" and "0 < i" and "i \<le> z" and "z \<le> BUFSIZE"
  shows "\<exists>r. bulk_loop c flag s z i = Some r \<and> bulk_result c i z r"
  using assms
proof (induction c flag s z i rule: bulk_loop.induct)
  case (1 c flag s z i)
  show ?case
  proof (cases "i < z")
    case False
    then have "bulk_loop c flag s z i = Some (Inr (c, flag, i))" by (simp add: bulk_loop.simps)
    then show ?thesis using 1(3,6) by (simp add: bulk_result_def)
  next
    case True
    note i = True
    then have at: "buf_at c i = Some (buf c i)" using 1(5,7) by (simp add: buf_at_def)
    show ?thesis
    proof (cases "buf c i = LF")
      case False
      have eq: "bulk_loop c flag s z i = bulk_loop c flag s z (i + 1)"
        using i at False by (subst bulk_loop.simps) simp
      moreover have "\<exists>r. bulk_loop c flag s z (i + 1) = Some r \<and> bulk_result c (i + 1) z r"
        by (rule 1(1) [OF i at False]) (use 1(2-7) i eq in auto)
      ultimately show ?thesis using bulk_result_step [of c "i + 1" z _ i] by fastforce
    next
      case True
      have room: "args_len c < BUFSIZE" using 1(4) by simp
      obtain c' where c': "client_append_arg (Literal ''NOT'') 3 c = Some c'"
        using append_arg_defined [OF 1(3) room] by blast
      have "bulk_result c i z (Inr (c', False, i + 1))"
        using append_arg_only [OF c'] append_arg_inv [OF c' 1(3) room] i by (simp add: bulk_result_def)
      moreover have "bulk_result c i z (Inl (Some (Message invalid_length), c))"
        using 1(3) by (simp add: bulk_result_def)
      moreover have "\<exists>r. bulk_data c flag z (i + 1) n = Some r \<and> bulk_result c i z r"
        if "0 \<le> n" "n + 2 \<le> INT_MAX" for n
        using bulk_data_total [OF 1(3,4) _ 1(7) that, of "i + 1" flag] 1(5) by simp
      moreover have "\<exists>n. line_number c s i = Some n \<and> (n < 0 \<or> n + 2 \<le> INT_MAX)"
        if "buf_at c (i - 1) = Some CR"
        using 1(2)
      proof
        assume "bulk_loop c flag s z i \<noteq> None"
        then show ?thesis using True at that i
          by (subst (asm) bulk_loop.simps)
            (auto simp: bulk_data_def is_int_def INT_MAX_def split: option.splits if_splits)
      qed (use i that in \<open>auto simp: number_fits_def buf_at_def split: if_splits\<close>)
      ultimately show ?thesis using i at True c'
        by (subst bulk_loop.simps) (auto split: if_splits)
    qed
  qed
qed

lemma args_total:
  assumes "(\<forall>s k. b < s \<longrightarrow> s < k \<longrightarrow> k < z \<longrightarrow> number_fits c s k) \<or> args_loop n c flag z i \<noteq> None"
    and "args_inv c" and "2 * args_len c \<le> i - b" and "0 \<le> b" and "b \<le> i" and "i \<le> z" and "z \<le> BUFSIZE"
  shows "\<exists>r. args_loop n c flag z i = Some r \<and>
    (case r of Inl (e, c') \<Rightarrow> e \<noteq> None \<and> args_only c (c'\<lparr>tmp_err := tmp_err c\<rparr>) \<and> args_inv c'
     | Inr (c', i') \<Rightarrow> args_only c c' \<and> args_inv c' \<and> i \<le> i' \<and> (0 < n \<longrightarrow> i < i') \<and> i' \<le> z)"
  using assms
proof (induction n arbitrary: c flag i)
  case 0
  then show ?case by simp
next
  case (Suc n)
  have keep: "args_only c (c'\<lparr>tmp_err := tmp_err c\<rparr>)" if "args_only c c'" for c'
    using that by (cases c; cases c'; simp add: args_only_def args_rest_def)
  show ?case
  proof (cases "z \<le> i")
    case True
    then show ?thesis using Suc.prems keep [of c] by simp
  next
    case False
    then have at: "buf_at c i = Some (buf c i)" using Suc.prems by (simp add: buf_at_def)
    show ?thesis
    proof (cases "buf c i = CHR ''$''")
      case dollar: False
      have "args_only c ((snd (client_err_expected_got (CHR ''$'') (buf c i) c))\<lparr>tmp_err := tmp_err c\<rparr>)"
        "args_inv (snd (client_err_expected_got (CHR ''$'') (buf c i) c))"
        using Suc.prems(2)
        by (simp_all add: client_err_expected_got_def client_err_alloc_def Let_def args_only_def
            args_rest_def args_inv_def)
      then show ?thesis using False at dollar
        by (simp add: client_err_expected_got_def Let_def)
    next
      case dollar: True
      have "\<exists>r. bulk_loop c flag (i + 1) z (i + 1) = Some r \<and> bulk_result c (i + 1) z r"
      proof (rule bulk_total)
        have "k \<noteq> i + 1" if "buf c (k - 1) = CR" for k using that dollar by auto
        then show "(\<forall>k. i + 1 \<le> k \<longrightarrow> k < z \<longrightarrow> buf c (k - 1) = CR \<longrightarrow> number_fits c (i + 1) k) \<or>
            bulk_loop c flag (i + 1) z (i + 1) \<noteq> None"
          using Suc.prems(1,5) False at dollar by (fastforce split: option.splits)
      qed (use Suc.prems False in \<open>simp_all add: BUFSIZE_def\<close>)
      then obtain r where r: "bulk_loop c flag (i + 1) z (i + 1) = Some r" "bulk_result c (i + 1) z r"
        by blast
      show ?thesis
      proof (cases r)
        case (Inl ec)
        then show ?thesis using False at dollar r keep
          by (auto simp: bulk_result_def split: prod.splits)
      next
        case (Inr t)
        obtain c' flag' i' where t: "t = (c', flag', i')" by (metis prod_cases3)
        then have c': "args_only c c'" "args_inv c'" "i + 1 \<le> i'" "i' \<le> z"
          "2 * args_len c' \<le> 2 * args_len c + (i' - i)" 
          using r(2) Inr by (auto simp: bulk_result_def)
        have next_arg: "args_loop (Suc n) c flag z i = args_loop n c' flag' z i'"
          using False at dollar r(1) Inr t by simp
        obtain r' where r': "args_loop n c' flag' z i' = Some r'" "case r' of
            Inl (e, c'') \<Rightarrow> e \<noteq> None \<and> args_only c' (c''\<lparr>tmp_err := tmp_err c'\<rparr>) \<and> args_inv c''
          | Inr (c'', i'') \<Rightarrow> args_only c' c'' \<and> args_inv c'' \<and> i' \<le> i'' \<and> (0 < n \<longrightarrow> i' < i'') \<and> i'' \<le> z"
          using Suc.IH [of c' flag' i'] Suc.prems c' number_fits_only [OF c'(1)] next_arg by auto
        have "args_loop (Suc n) c flag z i = Some r'" using r'(1) next_arg by simp
        then show ?thesis using r'(2) c'(1,3) args_only_trans [OF c'(1)] args_only_fields(9) [OF c'(1)]
          by (cases r') (auto split: prod.splits)
      qed
    qed
  qed
qed

section \<open>Which numbers fit\<close>

lemma read_digits_bound:
  assumes "\<exists>d \<le> k. \<not> isdigit (m (i + int d)) \<and> i + int d < lim" and "0 \<le> acc"
  shows "\<exists>v. read_digits m lim i acc = Some v \<and> 0 \<le> v \<and> v < (acc + 1) * 10 ^ k"
  using assms
proof (induction k arbitrary: i acc)
  case 0
  then show ?case by (simp add: read_digits_stop)
next
  case (Suc k)
  show ?case
  proof (cases "isdigit (m i)")
    case False
    then have "read_digits m lim i acc = Some acc" using Suc.prems(1) by (intro read_digits_stop) auto
    moreover have "acc < (acc + 1) * 10 ^ Suc k"
    proof -
      have "(1 :: int) \<le> 10 ^ Suc k" by (rule one_le_power) simp
      then have le: "(acc + 1) * 1 \<le> (acc + 1) * 10 ^ Suc k"
        using Suc.prems(2) by (intro mult_left_mono) simp_all
      have "acc < (acc + 1) * 1" by simp
      from order_less_le_trans [OF this le] show ?thesis .
    qed
    ultimately show ?thesis using Suc.prems(2) by blast
  next
    case True
    obtain d where d: "d \<le> Suc k" "\<not> isdigit (m (i + int d))" "i + int d < lim"
      using Suc.prems(1) by blast
    then have "d \<noteq> 0" using True by (cases d) simp_all
    note d = d this
    let ?acc = "acc * 10 + (c_char (m i) - 48)"
    have a: "0 \<le> ?acc" "?acc + 1 \<le> (acc + 1) * 10" using True Suc.prems(2) by (simp_all add: isdigit_def)
    have "\<exists>d' \<le> k. \<not> isdigit (m (i + 1 + int d')) \<and> i + 1 + int d' < lim"
      using d by (intro exI [of _ "d - 1"]) (auto simp: of_nat_diff)
    from Suc.IH [OF this a(1)] obtain v where
      v: "read_digits m lim (i + 1) ?acc = Some v" "0 \<le> v" "v < (?acc + 1) * 10 ^ k" by blast
    have "(?acc + 1) * 10 ^ k \<le> (acc + 1) * 10 * 10 ^ k" using a(2) by (intro mult_right_mono) simp_all
    also have "\<dots> = (acc + 1) * 10 ^ Suc k" by (simp only: power_Suc mult.assoc)
    finally have "v < (acc + 1) * 10 ^ Suc k" by (rule order_less_le_trans [OF v(3)])
    moreover have "read_digits m lim i acc = read_digits m lim (i + 1) ?acc"
      using True d by (simp add: read_digits.simps [of m lim i acc])
    ultimately show ?thesis using v by auto
  qed
qed

lemma skip_space_bound:
  assumes "i \<le> e" and "e < lim" and "\<not> isspace (m e)"
  shows "\<exists>j. skip_space m lim i = Some j \<and> i \<le> j \<and> j \<le> e \<and> \<not> isspace (m j)"
  using assms
proof (induction m lim i rule: skip_space.induct)
  case (1 m lim i)
  show ?case
  proof (cases "isspace (m i)")
    case True
    then have "i \<noteq> e" using 1(4) by auto
    then show ?thesis using 1 True by (auto simp: skip_space.simps [of m lim i])
  next
    case False
    then show ?thesis using 1 by (simp add: skip_space.simps [of m lim i])
  qed
qed

text \<open>No ten digits in a row among the unread bytes.\<close>

definition short_numbers :: "client \<Rightarrow> bool" where
  "short_numbers c \<longleftrightarrow>
     (\<forall>i. buf_idx c \<le> i \<longrightarrow> i + 10 \<le> buf_idx c + buf_len c \<longrightarrow> (\<exists>d < 10. \<not> isdigit (buf c (i + int d))))"

lemma short_number_fits:
  assumes "parser_inv c" and "short_numbers c" and "buf_idx c < s" and "s < k" and "k < buf_idx c + buf_len c"
  shows "number_fits c s k"
proof -
  let ?m = "(buf c)(k - 1 := NUL)"
  have lim: "k - 1 < BUFSIZE" using assms(1,5) by (simp add: parser_inv_def)
  have nul: "\<not> isspace NUL" "\<not> isdigit NUL"
    by (simp_all add: isspace_def isdigit_def c_char_def)
  obtain j where j: "skip_space ?m BUFSIZE s = Some j" "s \<le> j" "j \<le> k - 1"
    using skip_space_bound [of s "k - 1" BUFSIZE ?m] assms(4) lim nul by auto
  have bound: "\<exists>v. read_digits ?m BUFSIZE l 0 = Some v \<and> 0 \<le> v \<and> v < 10 ^ 9"
    if l: "s \<le> l" "l \<le> k - 1" for l
  proof -
    have "\<exists>d \<le> 9. \<not> isdigit (?m (l + int d)) \<and> l + int d < BUFSIZE"
    proof (cases "l + 9 < k - 1")
      case True
      then obtain d where d: "d < 10" "\<not> isdigit (buf c (l + int d))"
        using assms(2) [unfolded short_numbers_def, rule_format, of l] assms(3,5) l by auto
      have "l + int d \<noteq> k - 1" "l + int d < BUFSIZE" using d(1) True lim by linarith+
      then show ?thesis using d by (intro exI [of _ d]) simp
    next
      case False
      have "l + int (nat (k - 1 - l)) = k - 1" using l by simp
      then show ?thesis using False l lim nul by (intro exI [of _ "nat (k - 1 - l)"]) simp
    qed
    from read_digits_bound [OF this order_refl] show ?thesis by (simp only: add_0 mult_1)
  qed
  have nonul: "j \<noteq> k - 1" if "?m j \<noteq> NUL" using that by auto
  have fits: "\<exists>n. in_int_range v = Some n \<and> INT_MIN \<le> n \<and> n + 2 \<le> INT_MAX" if "- (10 ^ 9) < v" "v < 10 ^ 9" for v
    using that by (simp add: in_int_range_def is_int_def INT_MIN_def INT_MAX_def)
  show ?thesis
  proof (cases "?m j = CHR ''-'' \<or> ?m j = CHR ''+''")
    case True
    then have "?m j \<noteq> NUL" by auto
    then have "j \<noteq> k - 1" by (rule nonul)
    then have "s \<le> j + 1" "j + 1 \<le> k - 1" using j(2,3) by linarith+
    from bound [OF this] obtain v where
      v: "read_digits ?m BUFSIZE (j + 1) 0 = Some v" "0 \<le> v" "v < 10 ^ 9" by blast
    show ?thesis
    proof (cases "?m j = CHR ''-''")
      case minus: True
      then have "line_number c s k = in_int_range (- v)"
        unfolding line_number_def atoi_def using j(1) v(1) by simp
      then show ?thesis using fits [of "- v"] v by (simp add: number_fits_def)
    next
      case False
      then have "line_number c s k = in_int_range v"
        unfolding line_number_def atoi_def using True j(1) v(1) by simp
      then show ?thesis using fits [of v] v by (simp add: number_fits_def)
    qed
  next
    case False
    obtain v where v: "read_digits ?m BUFSIZE j 0 = Some v" "0 \<le> v" "v < 10 ^ 9"
      using bound [OF j(2,3)] by blast
    then have "line_number c s k = in_int_range v"
      unfolding line_number_def atoi_def using False j(1) by simp
    then show ?thesis using fits [of v] v by (simp add: number_fits_def)
  qed
qed

lemma read_args_total:
  assumes "args_inv c" and "args_len c = 0" and "b < i \<or> (b = i \<and> 0 < n)" and "0 \<le> b" and "z \<le> BUFSIZE"
    and "(\<forall>s k. b < s \<longrightarrow> s < k \<longrightarrow> k < z \<longrightarrow> number_fits c s k) \<or> read_args c n flag z i \<noteq> None"
  shows "\<exists>r. read_args c n flag z i = Some r \<and> parsed c b z r"
proof (cases "z \<le> i")
  case True
  then show ?thesis using assms(1) by (simp add: read_args_def parsed_error)
next
  case False
  obtain r where r: "args_loop (nat n) c flag z i = Some r"
    "case r of Inl (e, c') \<Rightarrow> e \<noteq> None \<and> args_only c (c'\<lparr>tmp_err := tmp_err c\<rparr>) \<and> args_inv c'
     | Inr (c', i') \<Rightarrow> args_only c c' \<and> args_inv c' \<and> i \<le> i' \<and> (0 < nat n \<longrightarrow> i < i') \<and> i' \<le> z"
    using args_total [of b z c "nat n" flag i] assms False by (auto simp: read_args_def split: option.splits)
  show ?thesis
  proof (cases r)
    case (Inl ec)
    then show ?thesis using False r by (auto simp: read_args_def parsed_def)
  next
    case (Inr ci)
    obtain c' i' where ci: "ci = (c', i')" by fastforce
    then have "parsed c b z (None, consume i' c')"
      using r(2) Inr assms(3) by (intro parsed_consume) auto
    then show ?thesis using False r(1) Inr ci by (simp add: read_args_def)
  qed
qed

lemma read_command_cases:
  assumes inv: "parser_inv c" and "0 < buf_len c"
  shows "client_read_command c =
    (if buf c (buf_idx c) = CHR ''$''
     then read_args (c\<lparr>args_len := 0\<rparr>) 1 True (buf_idx c + buf_len c) (buf_idx c)
     else if buf c (buf_idx c) = CHR ''+''
     then read_status (c\<lparr>args_len := 0\<rparr>) (buf_idx c + buf_len c) (buf_idx c + 1)
     else if buf c (buf_idx c) = CHR ''*'' then
       (case multibulk_loop (c\<lparr>args_len := 0\<rparr>) (buf_idx c + 1) (buf_idx c + buf_len c) (buf_idx c + 1) of
          None \<Rightarrow> None
        | Some (Inl e) \<Rightarrow> Some (Some (Message e), c\<lparr>args_len := 0\<rparr>)
        | Some (Inr (n, i')) \<Rightarrow> read_args (c\<lparr>args_len := 0\<rparr>) n False (buf_idx c + buf_len c) i')
     else client_parse_telnet_command (c\<lparr>args_len := 0\<rparr>))"
proof -
  have "buf_at (c\<lparr>args_len := 0\<rparr>) (buf_idx c) = Some (buf c (buf_idx c))"
    using assms by (simp add: buf_at_def parser_inv_def)
  then show ?thesis using assms(2)
    by (simp add: client_read_command_def Let_def parser_size_t [OF inv] cong: option.case_cong sum.case_cong)
qed

lemma status_total:
  assumes inv: "parser_inv c" and c: "args_inv (c\<lparr>args_len := 0\<rparr>)" "args_len (c\<lparr>args_len := 0\<rparr>) = 0"
    and "read_status (c\<lparr>args_len := 0\<rparr>) (buf_idx c + buf_len c) (buf_idx c + 1) \<noteq> None"
  shows "\<exists>r. read_status (c\<lparr>args_len := 0\<rparr>) (buf_idx c + buf_len c) (buf_idx c + 1) = Some r \<and>
    parsed (c\<lparr>args_len := 0\<rparr>) (buf_idx c) (buf_idx c + buf_len c) r"
proof -
  let ?c = "c\<lparr>args_len := 0\<rparr>" and ?line = "peek (buf c) (buf_idx c + 1) 4"
  show ?thesis
  proof (cases "buf_idx c + buf_len c \<le> buf_idx c + 1 \<or> buf_len c < 5")
    case True
    then show ?thesis using c by (auto simp: read_status_def parsed_error)
  next
    case False
    obtain c' where c': "client_append_arg (Literal (take 2 ?line)) 2 ?c = Some c'"
      using append_arg_defined [OF c(1), of "Literal (take 2 ?line)" 2] by (auto simp: BUFSIZE_def)
    have p: "args_only ?c c'" "args_inv c'" "buf_len c' = buf_len c" "buf_idx c' = buf_idx c"
      using append_arg_only [OF c'] append_arg_inv [OF c' c(1)] args_only_fields [OF append_arg_only [OF c']]
      by (simp_all add: BUFSIZE_def)
    have inv': "parser_inv c'" using inv p by (simp add: parser_inv_def args_inv_def)
    have "consume (buf_idx c + 5) c' = (let c1 = c'\<lparr>buf_len := buf_len c' - 5\<rparr> in
        if buf_len c1 = 0 then c1\<lparr>buf_idx := 0\<rparr> else c1\<lparr>buf_idx := to_int (buf_idx c + 1 + 4)\<rparr>)"
      using False p inv consume_at [OF inv', of "buf_idx c + 5"]
      by (auto simp: Let_def parser_inv_def to_int_def BUFSIZE_def)
    then have "read_status ?c (buf_idx c + buf_len c) (buf_idx c + 1) = Some (None, consume (buf_idx c + 5) c')"
      using assms(4) False c' by (auto simp: read_status_def Let_def split: if_splits)
    moreover have "parsed ?c (buf_idx c) (buf_idx c + buf_len c) (None, consume (buf_idx c + 5) c')"
      using p False by (intro parsed_consume) auto
    ultimately show ?thesis by blast
  qed
qed

text \<open>Reading is defined, and its result is as described by \<open>parsed\<close> or is that of a status line.\<close>

lemma read_command_total:
  assumes inv: "parser_inv c"
    and ok: "short_numbers c \<and> (0 < buf_len c \<longrightarrow> buf c (buf_idx c) \<noteq> CHR ''+'') \<or>
      client_read_command c \<noteq> None"
  shows "\<exists>r. client_read_command c = Some r \<and> parsed c (buf_idx c) (buf_idx c + buf_len c) r"
proof (cases "0 < buf_len c")
  case False
  then have "client_read_command c = Some (Some ERR_INCOMPLETE, c\<lparr>args_len := 0\<rparr>)"
    by (simp add: client_read_command_def Let_def parser_size_t [OF inv])
  moreover have "args_only c (c\<lparr>args_len := 0\<rparr>)" by (simp add: args_only_def args_rest_def)
  ultimately show ?thesis using inv by (simp add: parsed_error parser_inv_def args_inv_def)
next
  case True
  let ?c = "c\<lparr>args_len := 0\<rparr>" and ?b = "buf_idx c" and ?z = "buf_idx c + buf_len c"
  have c: "args_only c ?c" "args_inv ?c" "args_len ?c = 0" "0 \<le> ?b" "?z \<le> BUFSIZE"
    using inv by (simp_all add: args_only_def args_rest_def parser_inv_def args_inv_def)
  have at: "buf_at ?c ?b = Some (buf c ?b)" using c True by (simp add: buf_at_def)
  have fits: "(\<forall>s k. ?b < s \<longrightarrow> s < k \<longrightarrow> k < ?z \<longrightarrow> number_fits ?c s k) \<or> client_read_command c \<noteq> None"
    using ok short_number_fits [OF inv] number_fits_only [OF c(1)] by auto
  have result: "\<exists>r. f = Some r \<and> parsed ?c ?b ?z r \<Longrightarrow> \<exists>r. f = Some r \<and> parsed c ?b ?z r" for f
    using parsed_step [OF _ c(1)] by blast
  note read = read_command_cases [OF inv True]
  consider (bulk) "buf c ?b = CHR ''$''" | (multi) "buf c ?b = CHR ''*''"
    | (status) "buf c ?b = CHR ''+''"
    | (words) "buf c ?b \<noteq> CHR ''$''" "buf c ?b \<noteq> CHR ''*''" "buf c ?b \<noteq> CHR ''+''" by blast
  then show ?thesis
  proof cases
    case bulk
    have "client_read_command c = read_args ?c 1 True ?z ?b"
      using bulk unfolding read by simp
    then show ?thesis using read_args_total [OF c(2,3) _ c(4,5), of ?b 1 True] fits result by simp
  next
    case multi
    have loop: "client_read_command c = (case multibulk_loop ?c (?b + 1) ?z (?b + 1) of None \<Rightarrow> None
        | Some (Inl e) \<Rightarrow> Some (Some (Message e), ?c)
        | Some (Inr (n, i')) \<Rightarrow> read_args ?c n False ?z i')"
      using multi unfolding read by simp
    have "k \<noteq> ?b + 1" if "buf ?c (k - 1) = CR" for k using that multi by auto
    then have "(\<forall>k. ?b + 1 \<le> k \<longrightarrow> k < ?z \<longrightarrow> buf ?c (k - 1) = CR \<longrightarrow> number_fits ?c (?b + 1) k) \<or>
        multibulk_loop ?c (?b + 1) ?z (?b + 1) \<noteq> None"
      using fits loop by (fastforce split: option.splits)
    from multibulk_total [OF this _ c(5)] obtain r where
      r: "multibulk_loop ?c (?b + 1) ?z (?b + 1) = Some r"
      "case r of Inl e \<Rightarrow> True | Inr (n, i') \<Rightarrow> ?b + 1 \<le> i' \<and> (?b + 1 \<le> ?z \<longrightarrow> i' \<le> ?z)"
      using c(4) by auto
    have eq: "client_read_command c = (case r of Inl e \<Rightarrow> Some (Some (Message e), ?c)
        | Inr (n, i') \<Rightarrow> read_args ?c n False ?z i')"
      using r(1) unfolding loop by simp
    show ?thesis
    proof (cases r)
      case (Inl e)
      then show ?thesis using eq c by (simp add: parsed_error)
    next
      case (Inr ni)
      obtain n i' where ni: "ni = (n, i')" by fastforce
      then have "?b < i'" using r(2) Inr by simp
      then show ?thesis
        using read_args_total [OF c(2,3) _ c(4,5), of i' n False] fits result eq Inr ni by simp
    qed
  next
    case status
    then have "client_read_command c \<noteq> None" "client_read_command c = read_status ?c ?z (?b + 1)"
      using ok True unfolding read by auto
    then show ?thesis using status_total [OF inv c(2,3)] result by simp
  next
    case words
    have "client_read_command c = client_parse_telnet_command ?c"
      using words True unfolding read by simp
    also have "\<dots> = telnet_loop ?c True ?b ?z ?b"
      using True by (simp add: client_parse_telnet_command_def Let_def parser_size_t [OF inv])
    finally show ?thesis using telnet_total [OF c(2) _ c(4) _ c(5), of ?b True ?b] c(3) result by simp
  qed
qed

lemma parsed_facts:
  assumes inv: "parser_inv c" and p: "parsed c (buf_idx c) (buf_idx c + buf_len c) (e, c')"
  shows "parser_inv c'"
    and "e = None \<Longrightarrow> buf_len c' < buf_len c \<and> (\<exists>k > 0. unread c' = drop k (unread c))"
    and "e \<noteq> None \<Longrightarrow> buf c' = buf c \<and> buf_len c' = buf_len c \<and> buf_idx c' = buf_idx c"
    and "out_buf c' = out_buf c \<and> output_len c' = output_len c \<and> output_offset c' = output_offset c \<and>
      output_valid c' = output_valid c \<and> fd c' = fd c \<and> buf c' = buf c"
proof -
  have error: "args_only c (c'\<lparr>tmp_err := tmp_err c\<rparr>)" "args_inv c'" if "e \<noteq> None"
    using p that by (auto simp: parsed_def)
  have ok: "\<exists>c'' i'. c' = consume i' c'' \<and> args_only c c'' \<and> args_inv c'' \<and> buf_idx c < i' \<and>
      i' \<le> buf_idx c + buf_len c" if "e = None"
    using p that by (auto simp: parsed_def)
  have "parser_inv c' \<and>
    (e = None \<longrightarrow> buf_len c' < buf_len c \<and> (\<exists>k > 0. unread c' = drop k (unread c))) \<and>
    (e \<noteq> None \<longrightarrow> buf c' = buf c \<and> buf_len c' = buf_len c \<and> buf_idx c' = buf_idx c) \<and>
    out_buf c' = out_buf c \<and> output_len c' = output_len c \<and> output_offset c' = output_offset c \<and>
      output_valid c' = output_valid c \<and> fd c' = fd c \<and> buf c' = buf c"
  proof (cases "e = None")
    case True
    then obtain c'' i' where c'': "c' = consume i' c''" "args_only c c''" "args_inv c''"
      "buf_idx c < i'" "i' \<le> buf_idx c + buf_len c"
      using ok by blast
    note f = args_only_fields [OF c''(2)]
    have inv': "parser_inv c''" using parser_inv_only [OF inv c''(2,3)] .
    have i: "buf_idx c'' \<le> i'" "i' \<le> buf_idx c'' + buf_len c''" using c''(4,5) f by simp_all
    have "unread c' = drop (nat (i' - buf_idx c)) (unread c)"
      using consume_unread [OF inv' i] unread_only [OF c''(2)] c''(1) f by simp
    moreover have "0 < nat (i' - buf_idx c)" using c''(4) by simp
    ultimately have "\<exists>k > 0. unread c' = drop k (unread c)" by blast
    then show ?thesis
      using True consume_inv [OF inv' i] consume_at [OF inv' i] c'' f by simp
  next
    case False
    from args_only_fields [OF error(1) [OF False]] show ?thesis
      using False error(2) [OF False] inv by (simp add: parser_inv_def args_inv_def)
  qed
  then show "parser_inv c'"
    and "e = None \<Longrightarrow> buf_len c' < buf_len c \<and> (\<exists>k > 0. unread c' = drop k (unread c))"
    and "e \<noteq> None \<Longrightarrow> buf c' = buf c \<and> buf_len c' = buf_len c \<and> buf_idx c' = buf_idx c"
    and "out_buf c' = out_buf c \<and> output_len c' = output_len c \<and> output_offset c' = output_offset c \<and>
      output_valid c' = output_valid c \<and> fd c' = fd c \<and> buf c' = buf c"
    by blast+
qed

lemma read_command_facts:
  assumes "parser_inv c" and "client_read_command c = Some (e, c')"
  shows "parsed c (buf_idx c) (buf_idx c + buf_len c) (e, c')"
  using read_command_total [OF assms(1)] assms(2) by auto

section \<open>Properties\<close>

text \<open>
  C13: reading has no undefined behaviour - no access outside the buffer or the argument arrays, no
  overflow - on any unread bytes without ten digits in a row, unless they begin with a plus sign.
\<close>

theorem read_command_safe:
  assumes "parser_inv c" and "short_numbers c" and "buf_len c = 0 \<or> hd (unread c) \<noteq> CHR ''+''"
  shows "\<exists>e c'. client_read_command c = Some (e, c') \<and> parser_inv c'"
proof -
  have "hd (unread c) = buf c (buf_idx c)" if "0 < buf_len c"
    using that by (cases "nat (buf_len c)") (simp_all add: unread_def)
  then have "0 < buf_len c \<longrightarrow> buf c (buf_idx c) \<noteq> CHR ''+''" using assms(3) by auto
  then obtain r where "client_read_command c = Some r" "parsed c (buf_idx c) (buf_idx c + buf_len c) r"
    using read_command_total [OF assms(1)] assms(2) by blast
  then show ?thesis using parsed_facts(1) [OF assms(1)] by (cases r) auto
qed

theorem read_command_safe_witness:
  "\<exists>e c'. client_read_command (client_of ''GET k'') = Some (e, c') \<and> parser_inv c'"
proof (rule read_command_safe)
  show "parser_inv (client_of ''GET k'')" by (rule client_of_inv) (simp add: BUFSIZE_def)
  show "short_numbers (client_of ''GET k'')"
    by (auto simp: short_numbers_def client_of_def client_new_def)
  show "buf_len (client_of ''GET k'') = 0 \<or> hd (unread (client_of ''GET k'')) \<noteq> CHR ''+''"
    by (simp add: client_of_unread)
qed

text \<open>
  C14: whatever the input, a read that returns keeps the buffer indices within the buffer; a command
  read takes at least one byte off the front of the unread bytes; an error takes none; the reply
  buffer is not touched.
\<close>

theorem read_command_progress:
  assumes "parser_inv c" and "client_read_command c = Some (e, c')"
  shows "parser_inv c' \<and>
    (if e = None then buf_len c' < buf_len c \<and> (\<exists>k > 0. unread c' = drop k (unread c))
     else unread c' = unread c) \<and>
    out_buf c' = out_buf c \<and> output_len c' = output_len c"
  using parsed_facts [OF assms(1) read_command_facts [OF assms]] by (simp add: unread_def)

theorem read_command_progress_witness:
  "\<exists>c'. client_read_command (client_of (''+OK'' @ [LF])) = Some (Some ERR_INCOMPLETE, c') \<and>
     unread c' = ''+OK'' @ [LF]"
proof -
  let ?c = "client_of (''+OK'' @ [LF])"
  have inv: "parser_inv ?c" by (rule client_of_inv) (simp add: BUFSIZE_def)
  have r: "client_read_command ?c = Some (Some ERR_INCOMPLETE, ?c\<lparr>args_len := 0\<rparr>)"
    unfolding client_read_command_def Let_def parser_size_t [OF inv]
    by (simp add: client_of_def client_new_def buf_at_def BUFSIZE_def read_status_def to_size_t_def)
  show ?thesis using read_command_progress [OF inv r] r by (simp add: client_of_unread)
qed

end
