(* ===== verification/TelnetWords.thy ===== *)
theory TelnetWords
  imports ParserSafety
begin

text \<open>
  What a line of plain words is read as: the meaning of \<open>client_parse_telnet_command\<close> on the input
  it is written for, and the replies that \<open>client_read_command\<close> also understands.
\<close>

definition plain_byte :: "byte \<Rightarrow> bool" where
  "plain_byte x \<longleftrightarrow> x \<noteq> CHR 0x27 \<and> x \<noteq> CHR 0x22 \<and> x \<noteq> LF \<and> x \<noteq> SP"

definition plain_word :: "byte list \<Rightarrow> bool" where
  "plain_word w \<longleftrightarrow> w \<noteq> [] \<and> (\<forall>x \<in> set w. plain_byte x)"

fun words_line :: "byte list list \<Rightarrow> byte list" where
  "words_line [] = []"
| "words_line [w] = w"
| "words_line (w # v # ws) = w @ SP # words_line (v # ws)"

lemma telnet_skip:
  assumes "holds (buf c) i xs" and "\<forall>x \<in> set xs. plain_byte x" and "0 \<le> i"
    and "i + int (length xs) \<le> z" and "z \<le> BUFSIZE"
  shows "telnet_loop c False s z i = telnet_loop c False s z (i + int (length xs))"
  using assms
proof (induction xs arbitrary: i)
  case (Cons x xs)
  then have "telnet_loop c False s z i = telnet_loop c False s z (i + 1)"
    by (subst telnet_loop.simps) (auto simp: buf_at_def plain_byte_def)
  with Cons show ?case by (simp add: ac_simps)
qed simp

lemma telnet_word:
  assumes h: "holds (buf c) i w" and w: "plain_word w" and i: "0 \<le> i" "i + int (length w) < z" "z \<le> BUFSIZE"
  shows "telnet_loop c True s z i = telnet_loop c False i z (i + int (length w))"
proof -
  obtain x xs where x: "w = x # xs" using w by (cases w) (auto simp: plain_word_def)
  have px: "plain_byte x" "\<forall>y \<in> set xs. plain_byte y" using w x by (auto simp: plain_word_def)
  have "telnet_loop c True s z i = telnet_loop c False i z (i + 1)"
    using h i x px by (subst telnet_loop.simps) (auto simp: buf_at_def plain_byte_def)
  also have "\<dots> = telnet_loop c False i z (i + 1 + int (length xs))"
    by (rule telnet_skip) (use h i x px in simp_all)
  finally show ?thesis using x by (simp add: ac_simps)
qed

lemma to_int_buf: "0 \<le> n \<Longrightarrow> n \<le> BUFSIZE \<Longrightarrow> to_int n = n"
  by (simp add: to_int_def BUFSIZE_def)

lemma telnet_words_run:
  assumes "ws \<noteq> []" and "\<forall>w \<in> set ws. plain_word w"
    and "holds (buf c) i (words_line ws @ [CR, LF])" and "0 \<le> i"
    and "i + int (length (words_line ws)) + 2 \<le> z" and "z \<le> BUFSIZE"
    and "args_inv c" and "args_len c \<le> i"
  shows "\<exists>c'. telnet_loop c True s z i = Some (None, consume (i + int (length (words_line ws)) + 2) c') \<and>
    args_only c c' \<and> args_inv c' \<and> arg_list c' = arg_list c @ map Some ws"
  using assms
proof (induction ws arbitrary: c i s rule: words_line.induct)
  case 1
  then show ?case by simp
next
  case (2 w)
  let ?n = "int (length w)"
  have h: "holds (buf c) i w" "buf c (i + ?n) = CR" "buf c (i + ?n + 1) = LF"
    using 2(3) by (simp_all add: holds_append algebra_simps)
  have w: "plain_word w" "0 < ?n" using 2(2) by (auto simp: plain_word_def)
  have room: "args_len c < BUFSIZE" using 2(5,6,8) w(2) by simp
  obtain c' where c': "client_append_arg (InBuf i) ?n c = Some c'"
    using append_arg_defined [OF 2(7) room] by blast
  have "arg_bytes c (InBuf i) ?n = Some w"
    using h(1) 2(4-6) by (simp add: arg_bytes_def holds_peek)
  then have p: "args_only c c'" "args_inv c'" "arg_list c' = arg_list c @ [Some w]"
    using append_arg_only [OF c'] append_arg_inv [OF c' 2(7) room] append_arg_list [OF c'] by simp_all
  have "telnet_loop c True s z i = telnet_loop c False i z (i + ?n)"
    by (rule telnet_word) (use h w 2(4-6) in simp_all)
  also have "\<dots> = telnet_loop c False i z (i + ?n + int (length [CR]))"
    by (rule telnet_skip) (use h 2(4-6) in \<open>simp_all add: plain_byte_def\<close>)
  also have "\<dots> = Some (None, consume (i + ?n + 1 + 1) c')"
    using h(2,3) w(2) 2(4-6) c' to_int_buf [of ?n]
    by (subst telnet_loop.simps) (simp add: buf_at_def Let_def)
  finally show ?case using p by (intro exI [of _ c']) (simp add: algebra_simps)
next
  case (3 w v ws)
  let ?n = "int (length w)" and ?l = "words_line (v # ws)"
  have h: "holds (buf c) i w" "buf c (i + ?n) = SP" "holds (buf c) (i + ?n + 1) (?l @ [CR, LF])"
    using 3(4) by (simp_all add: holds_append algebra_simps)
  have w: "plain_word w" "0 < ?n" using 3(3) by (auto simp: plain_word_def)
  have room: "args_len c < BUFSIZE" using 3(6,7,9) by simp
  obtain c' where c': "client_append_arg (InBuf i) ?n c = Some c'"
    using append_arg_defined [OF 3(8) room] by blast
  have "arg_bytes c (InBuf i) ?n = Some w"
    using h(1) 3(5-7) by (simp add: arg_bytes_def holds_peek)
  then have p: "args_only c c'" "args_inv c'" "args_len c' = args_len c + 1"
    "arg_list c' = arg_list c @ [Some w]"
    using append_arg_only [OF c'] append_arg_inv [OF c' 3(8) room] append_arg_list [OF c'] by simp_all
  have "telnet_loop c True s z i = telnet_loop c False i z (i + ?n)"
    by (rule telnet_word) (use h w 3(5-7) in simp_all)
  also have "\<dots> = telnet_loop c' True i z (i + ?n + 1)"
    using h(2) 3(5-7) c' to_int_buf [of ?n] by (subst telnet_loop.simps) (simp add: buf_at_def)
  finally have step: "telnet_loop c True s z i = telnet_loop c' True i z (i + ?n + 1)" .
  have "\<exists>c''. telnet_loop c' True i z (i + ?n + 1) =
      Some (None, consume (i + ?n + 1 + int (length ?l) + 2) c'') \<and>
    args_only c' c'' \<and> args_inv c'' \<and> arg_list c'' = arg_list c' @ map Some (v # ws)"
    by (rule 3(1)) (use 3(3,5-7,9) h(3) p args_only_fields(1) [OF p(1)] w(2) in simp_all)
  then show ?case using step p args_only_trans [OF p(1)] by (fastforce simp: algebra_simps)
qed

section \<open>Properties\<close>

text \<open>
  A line of words without quotes, separated by one space each, is read as those words, and
  only the line is consumed.
\<close>

theorem telnet_words:
  assumes inv: "parser_inv c" and ws: "ws \<noteq> []" "\<forall>w \<in> set ws. plain_word w"
    and first: "hd (words_line ws) \<notin> {CHR ''*'', CHR ''$'', CHR ''+''}"
    and u: "unread c = words_line ws @ [CR, LF] @ rest"
  shows "\<exists>c'. client_read_command c = Some (None, c') \<and> arg_list c' = map Some ws \<and>
    unread c' = rest \<and> parser_inv c'"
proof -
  let ?c = "c\<lparr>args_len := 0\<rparr>" and ?b = "buf_idx c" and ?z = "buf_idx c + buf_len c"
  let ?n = "int (length (words_line ws)) + 2"
  have ne: "words_line ws \<noteq> []"
    using ws by (cases ws rule: words_line.cases) (auto simp: plain_word_def)
  have len: "buf_len c = ?n + int (length rest)"
    using unread_length [OF u] inv by (simp add: parser_inv_def)
  have "holds (buf c) ?b ((words_line ws @ [CR, LF]) @ rest)" using unread_holds [OF u] by simp
  then have h: "holds (buf c) ?b (words_line ws @ [CR, LF])" by (simp only: holds_append)
  have hd: "buf c ?b = hd (words_line ws)" using h ne by (cases "words_line ws") auto
  have c: "args_only c ?c" "args_inv ?c" "0 \<le> ?b" "?z \<le> BUFSIZE"
    using inv by (simp_all add: args_only_def args_rest_def parser_inv_def args_inv_def)
  have pos: "0 < buf_len c" using len by simp
  have read: "client_read_command c = telnet_loop ?c True ?b ?z ?b"
    using read_command_cases [OF inv pos] pos first hd
    by (simp add: client_parse_telnet_command_def Let_def parser_size_t [OF inv])
  obtain c' where c': "telnet_loop ?c True ?b ?z ?b = Some (None, consume (?b + int (length (words_line ws)) + 2) c')"
    "args_only ?c c'" "args_inv c'" "arg_list c' = arg_list ?c @ map Some ws"
    using telnet_words_run [OF ws, of ?c ?b ?z ?b] h c len by auto
  have only: "args_only c c'" using args_only_trans [OF c(1) c'(2)] .
  have inv': "parser_inv c'" using parser_inv_only [OF inv only c'(3)] .
  have i: "buf_idx c' \<le> ?b + ?n" "?b + ?n \<le> buf_idx c' + buf_len c'"
    using len args_only_fields [OF only] by simp_all
  have "nat (?b + ?n - buf_idx c') = length (words_line ws @ [CR, LF])"
    using args_only_fields [OF only] by simp
  then have "unread (consume (?b + ?n) c') = rest"
    using consume_unread [OF inv' i] unread_only [OF only] u by simp
  then show ?thesis using read c' consume_inv [OF inv' i] consume_args [of "?b + ?n" c']
    by (auto simp: arg_list_def add.assoc)
qed

theorem telnet_words_witness:
  "\<exists>c'. client_read_command (client_of (''GET user7'' @ [CR, LF] @ ''x'')) = Some (None, c') \<and>
     arg_list c' = [Some ''GET'', Some ''user7''] \<and> unread c' = ''x''"
proof -
  let ?xs = "''GET user7'' @ [CR, LF] @ ''x''"
  have inv: "parser_inv (client_of ?xs)" by (rule client_of_inv) (simp add: BUFSIZE_def)
  have line: "words_line [''GET'', ''user7''] = ''GET user7''" by simp
  have words: "\<forall>w \<in> set [''GET'', ''user7'']. plain_word w" by (simp add: plain_word_def plain_byte_def)
  have "unread (client_of ?xs) = words_line [''GET'', ''user7''] @ [CR, LF] @ ''x''"
    unfolding line by (rule client_of_unread)
  from telnet_words [OF inv _ words _ this] show ?thesis by auto
qed

text \<open>
  A complete bulk string is read as the two arguments \<open>BULK\<close> and its data, and only it is
  consumed.
\<close>

theorem read_bulk_reply:
  assumes inv: "parser_inv c" and u: "unread c = resp_bulk a @ rest"
  shows "\<exists>c'. client_read_command c = Some (None, c') \<and> arg_list c' = [Some ''BULK'', Some a] \<and>
    unread c' = rest \<and> parser_inv c'"
proof -
  let ?c = "c\<lparr>args_len := 0\<rparr>" and ?b = "buf_idx c" and ?z = "buf_idx c + buf_len c"
  let ?n = "int (length (resp_bulk a))"
  have len: "buf_len c = ?n + int (length rest)"
    using unread_length [OF u] inv by (simp add: parser_inv_def)
  have h: "holds (buf ?c) ?b (resp_bulk a)" using unread_holds [OF u] by (simp add: holds_append)
  have hd: "buf c ?b = CHR ''$''" using h by (simp add: resp_bulk_def)
  have n: "0 < ?n" by (simp add: resp_bulk_def)
  have c: "args_only c ?c" "args_inv ?c" "0 \<le> ?b" "?z \<le> BUFSIZE" "args_len ?c + 1 < BUFSIZE"
    using inv by (simp_all add: args_only_def args_rest_def parser_inv_def args_inv_def BUFSIZE_def)
  obtain c' where c': "\<And>n. args_loop (Suc n) ?c True ?z ?b = args_loop n c' False ?z (?b + ?n)"
    "args_only ?c c'" "args_inv c'" "arg_list c' = arg_list ?c @ [Some ''BULK''] @ [Some a]"
    using arg_run [OF h c(3) _ _ c(2,5), where bulk_flag = True, of ?z] len c(4) by auto
  have read: "client_read_command c = Some (None, consume (?b + ?n) c')"
  proof -
    have pos: "0 < buf_len c" using len n by linarith
    have "nat 1 = Suc 0" by simp
    then have "args_loop (nat 1) ?c True ?z ?b = Some (Inr (c', ?b + ?n))"
      by (simp only: c'(1) args_loop.simps(1))
    then have "read_args ?c 1 True ?z ?b = Some (None, consume (?b + ?n) c')"
      using pos by (simp only: read_args_def) simp
    then show ?thesis using read_command_cases [OF inv pos] hd by simp
  qed
  have only: "args_only c c'" using args_only_trans [OF c(1) c'(2)] .
  have inv': "parser_inv c'" using parser_inv_only [OF inv only c'(3)] .
  have i: "buf_idx c' \<le> ?b + ?n" "?b + ?n \<le> buf_idx c' + buf_len c'"
    using len args_only_fields [OF only] by simp_all
  have "unread (consume (?b + ?n) c') = rest"
    using consume_unread [OF inv' i] unread_only [OF only] u args_only_fields [OF only] by simp
  then show ?thesis using read c'(4) consume_inv [OF inv' i] consume_args [of "?b + ?n" c']
    by (auto simp: arg_list_def)
qed

theorem read_bulk_reply_witness:
  "\<exists>c'. client_read_command (client_of (resp_bulk ''v'' @ ''x'')) = Some (None, c') \<and>
     arg_list c' = [Some ''BULK'', Some ''v''] \<and> unread c' = ''x''"
proof -
  have "parser_inv (client_of (resp_bulk ''v'' @ ''x''))"
    by (rule client_of_inv) (simp add: length_resp_bulk length_dec_one BUFSIZE_def)
  from read_bulk_reply [OF this client_of_unread] show ?thesis by auto
qed

end
