(* ===== verification/Request.thy ===== *)
theory Request
  imports Client
begin

text \<open>
  \<open>request.h\<close>, \<open>request.cc\<close>: the requests that the command handlers pass to the storage engine,
  with the configuration of the Makefile (\<open>LSMTREE\<close>, \<open>ENABLE_LIBFTL\<close> and \<open>SEQ\<close> defined, \<open>TIME\<close>
  not). The storage engine (\<open>libmemio\<close>, \<open>LR_inter\<close>) and the profiling calls (\<open>threading\<close>) are
  not part of the repository: each call of them is an event of the trace, and what they return is
  the environment \<open>env\<close>, a function of the events so far. A request that is freed is gone from
  the state; its DMA buffer has \<open>DMA_SIZE\<close> bytes.
\<close>

definition DMA_SIZE :: int where "DMA_SIZE = 8192"

text \<open>\<open>value\<close> is \<open>None\<close> for the \<open>NULL\<close> that \<open>calloc\<close> leaves; \<open>req_client\<close> names the client \<open>c\<close>.\<close>

record req =
  req_fd :: int
  dmaTag :: int
  org_type :: int
  req_client :: "nat option"
  req_type :: int
  req_key :: int
  req_value :: "mem option"

datatype event =
  DmaAlloc int int \<comment> \<open>type, tag returned\<close>
| DmaFree int int \<comment> \<open>type, tag\<close>
| Submit req \<comment> \<open>\<open>lr_make_req\<close>\<close>
| ThreadsetInit | ThreadsetPrint | TimerStart | TimerStop

record env =
  alloc_tag :: "event list \<Rightarrow> int"
  alloc_mem :: "event list \<Rightarrow> mem option"
  lr_make_req :: "event list \<Rightarrow> int"

record world =
  key1 :: int
  key2 :: int
  trace :: "event list"

definition init_world :: world where
  "init_world = \<lparr>key1 = 1, key2 = 1, trace = []\<rparr>"

definition emit :: "event list \<Rightarrow> world \<Rightarrow> world" where
  "emit es w = w\<lparr>trace := trace w @ es\<rparr>"

definition alloc_dma :: "env \<Rightarrow> req \<Rightarrow> world \<Rightarrow> req \<times> world" where
  "alloc_dma e r w =
     (let tag = alloc_tag e (trace w)
      in (r\<lparr>dmaTag := tag, req_value := alloc_mem e (trace w)\<rparr>, emit [DmaAlloc (req_type r) tag] w))"

definition free_dma :: "req \<Rightarrow> world \<Rightarrow> world" where
  "free_dma r w = emit [DmaFree (req_type r) (dmaTag r)] w"

definition alloc_req :: req where
  "alloc_req = \<lparr>req_fd = 0, dmaTag = 0, org_type = 0, req_client = None, req_type = 0, req_key = 0,
     req_value = None\<rparr>"

definition free_req :: "req \<Rightarrow> world \<Rightarrow> world" where
  "free_req r w =
     (let r1 = (if req_type r \<noteq> 1 then r\<lparr>req_type := 2\<rparr> else r)
      in if req_type r1 \<le> 2 then free_dma r1 w else w)"

text \<open>The profiling calls that the request counter \<open>key\<close> triggers.\<close>

definition profile :: "int \<Rightarrow> event list" where
  "profile key =
     (if key = 1000 then [ThreadsetInit, TimerStart] else []) @
     (if key mod 1000000 = 0 then [ThreadsetPrint, TimerStop, TimerStart] else [])"

definition make_req :: "env \<Rightarrow> req \<Rightarrow> world \<Rightarrow> world outcome" where
  "make_req e r w =
     (let flag = (req_type r = 2);
          w1 = (if flag then (emit (profile (key1 w)) w)\<lparr>key1 := to_uint64 (key1 w + 1)\<rparr>
                else (emit (profile (key2 w)) w)\<lparr>key2 := to_uint64 (key2 w + 1)\<rparr>);
          r1 = r\<lparr>req_key := to_uint64 (req_key r + 1)\<rparr>
      in if lr_make_req e (trace w1 @ [Submit r1]) = - 1 then Exit 1
         else Ret (emit [Submit r1] w1))"

section \<open>Which requests were submitted\<close>

fun submitted :: "event list \<Rightarrow> req list" where
  "submitted [] = []"
| "submitted (Submit r # es) = r # submitted es"
| "submitted (e # es) = submitted es"

lemma submitted_append [simp]: "submitted (es @ fs) = submitted es @ submitted fs"
  by (induction es rule: submitted.induct) simp_all

lemma submitted_profile [simp]: "submitted (profile k) = []"
  by (simp add: profile_def)

lemma emit_trace [simp]: "trace (emit es w) = trace w @ es"
  by (simp add: emit_def)

lemma make_req_submits:
  assumes "make_req e r w = Ret w'"
  shows "submitted (trace w') = submitted (trace w) @ [r\<lparr>req_key := to_uint64 (req_key r + 1)\<rparr>]"
  using assms by (auto simp: make_req_def Let_def split: if_splits)

end
