(* ===== verification/Exec.thy ===== *)
theory Exec
  imports ClientParser Request Util
begin

text \<open>
  \<open>exec.cc\<close>: the command handlers and their dispatch. A handler works on the client whose command
  was read (its number \<open>cid\<close> stands for the pointer that a request keeps) and on the \<open>world\<close> of the
  storage engine. Outcomes: \<open>Ret\<close> the returned error with the new client and world, \<open>Exit\<close> when
  the engine refuses a request, \<open>Undef\<close> undefined behaviour.
\<close>

type_synonym exec_result = "(error \<times> client \<times> world) outcome"

definition argv :: "client \<Rightarrow> int \<Rightarrow> arg_ptr option" where
  "argv c k = (if 0 \<le> k \<and> k < args_len c then Some (args c k) else None)"

definition arg_string :: "client \<Rightarrow> int \<Rightarrow> byte list option" where
  "arg_string c k = Option.bind (argv c k) (\<lambda>p. arg_bytes c p (args_size c k))"

text \<open>\<open>(uint64_t)(atoi(argv[k]+4))\<close>; a string literal is followed by its zero byte.\<close>

definition literal_mem :: "byte list \<Rightarrow> mem" where
  "literal_mem l i = (if 0 \<le> i \<and> i < int (length l) then l ! nat i else NUL)"

definition arg_key :: "client \<Rightarrow> int \<Rightarrow> int option" where
  "arg_key c k =
     (case argv c k of
        None \<Rightarrow> None
      | Some (InBuf s) \<Rightarrow> map_option to_uint64 (atoi (buf c) BUFSIZE (s + 4))
      | Some (Literal l) \<Rightarrow> map_option to_uint64 (atoi (literal_mem l) (int (length l) + 1) 4))"

section \<open>Comparing command names\<close>

text \<open>The second list is the rest of the literal with its zero byte; at its end: undefined.\<close>

fun islstr_loop :: "byte list \<Rightarrow> byte list \<Rightarrow> bool option" where
  "islstr_loop bs [] = None"
| "islstr_loop [] (s # str) = Some (s = NUL)"
| "islstr_loop (b # bs) (s # str) =
     (if c_char b \<noteq> c_char s \<and> c_char b \<noteq> c_char s - 32 then Some False else islstr_loop bs str)"

definition islstr :: "client \<Rightarrow> int \<Rightarrow> byte list \<Rightarrow> bool option" where
  "islstr c k str = Option.bind (arg_string c k) (\<lambda>bs. islstr_loop bs (str @ [NUL]))"

definition iscmd :: "client \<Rightarrow> byte list \<Rightarrow> bool option" where
  "iscmd c cmd = islstr c 0 cmd"

section \<open>Requests of the handlers\<close>

definition wrong_args :: "byte list \<Rightarrow> error" where
  "wrong_args name = Some (Message (''wrong number of arguments for '' @ [CHR 0x27] @ name @ [CHR 0x27] @ '' command''))"

definition reply_ok :: "client \<Rightarrow> client option" where
  "reply_ok c = map_option (\<lambda>c. c\<lparr>output_valid := True\<rparr>) (client_write (''+OK'' @ [CR, LF]) 5 c)"

definition reply_ko :: "client \<Rightarrow> client option" where
  "reply_ko c = map_option (\<lambda>c. c\<lparr>output_valid := True\<rparr>) (client_write (''+KO'' @ [CR, LF]) 5 c)"

text \<open>\<open>memcpy\<close> into the DMA buffer: \<open>NULL\<close> or more than its size is undefined.\<close>

definition fill_value :: "byte list \<Rightarrow> req \<Rightarrow> req option" where
  "fill_value bs r =
     (case req_value r of
        None \<Rightarrow> None
      | Some m \<Rightarrow> if int (length bs) \<le> DMA_SIZE then Some (r\<lparr>req_value := Some (poke m 0 bs)\<rparr>) else None)"

definition exec_set :: "env \<Rightarrow> nat \<Rightarrow> client \<Rightarrow> world \<Rightarrow> exec_result" where
  "exec_set e cid c w =
     (if args_len c \<noteq> 3 then Ret (wrong_args ''set'', c, w)
      else and_then (defined (arg_key c 1)) (\<lambda>key.
        let (r, w1) = alloc_dma e (alloc_req\<lparr>req_client := Some cid, req_key := key, req_type := 1\<rparr>) w in
        and_then (defined (arg_string c 2)) (\<lambda>bs.
        and_then (defined (fill_value bs r)) (\<lambda>r1.
        and_then (make_req e r1 w1) (\<lambda>w2.
        and_then (defined (reply_ok c)) (\<lambda>c1. Ret (None, c1, w2)))))))"

definition exec_upt :: "env \<Rightarrow> nat \<Rightarrow> client \<Rightarrow> world \<Rightarrow> exec_result" where
  "exec_upt e cid c w =
     (if args_len c \<noteq> 3 then Ret (wrong_args ''set'', c, w)
      else and_then (defined (arg_key c 1)) (\<lambda>key.
        let (r, w1) = alloc_dma e (alloc_req\<lparr>req_client := Some cid, req_key := key, req_type := 1\<rparr>) w in
        and_then (defined (arg_string c 2)) (\<lambda>bs.
        and_then (defined (fill_value bs r)) (\<lambda>r1.
        and_then (make_req e r1 w1) (\<lambda>w2.
        and_then (defined (reply_ko c)) (\<lambda>c1. Ret (None, c1, w2)))))))"

definition exec_get :: "env \<Rightarrow> nat \<Rightarrow> client \<Rightarrow> world \<Rightarrow> exec_result" where
  "exec_get e cid c w =
     (if args_len c \<noteq> 2 then Ret (wrong_args ''get'', c, w)
      else and_then (defined (arg_key c 1)) (\<lambda>key.
        let (r, w1) = alloc_dma e (alloc_req\<lparr>req_key := key, req_type := 2, req_client := Some cid\<rparr>) w in
        and_then (make_req e r w1) (\<lambda>w2. Ret (None, c, w2))))"

text \<open>The loops of \<open>mset\<close> and \<open>mget\<close>; the first argument counts the passes left.\<close>

fun mset_loop :: "nat \<Rightarrow> int \<Rightarrow> env \<Rightarrow> nat \<Rightarrow> client \<Rightarrow> world \<Rightarrow> world outcome" where
  "mset_loop 0 i e cid c w = Ret w"
| "mset_loop (Suc n) i e cid c w =
     and_then (defined (arg_key c i)) (\<lambda>key.
       let (r, w1) = alloc_dma e (alloc_req\<lparr>req_client := Some cid, req_key := key, req_type := 1\<rparr>) w in
       and_then (make_req e r w1) (\<lambda>w2. mset_loop n (i + 2) e cid c w2))"

definition exec_mset :: "env \<Rightarrow> nat \<Rightarrow> client \<Rightarrow> world \<Rightarrow> exec_result" where
  "exec_mset e cid c w =
     and_then (mset_loop (nat (args_len c) div 2) 1 e cid c w) (\<lambda>w1.
     and_then (defined (reply_ok c)) (\<lambda>c1. Ret (None, c1, w1)))"

fun mget_loop :: "nat \<Rightarrow> int \<Rightarrow> env \<Rightarrow> nat \<Rightarrow> client \<Rightarrow> world \<Rightarrow> world outcome" where
  "mget_loop 0 i e cid c w = Ret w"
| "mget_loop (Suc n) i e cid c w =
     and_then (defined (arg_key c i)) (\<lambda>key.
       let (r, w1) = alloc_dma e (alloc_req\<lparr>req_key := key, req_type := 2, req_client := Some cid\<rparr>) w in
       and_then (make_req e r w1) (\<lambda>w2. mget_loop n (i + 1) e cid c w2))"

text \<open>The header is printed into an array of ten bytes.\<close>

definition exec_mget :: "env \<Rightarrow> nat \<Rightarrow> client \<Rightarrow> world \<Rightarrow> exec_result" where
  "exec_mget e cid c w =
     (let argc = args_len c;
          c1 = c\<lparr>current_items := current_items c + (argc - 1)\<rparr>;
          msg = CHR ''*'' # sprint_d (argc - 1) @ [CR, LF]
      in if \<not> is_int (current_items c1) \<or> 10 \<le> length msg then Undef
         else and_then (defined (client_write msg (int (length msg)) c1)) (\<lambda>c2.
              and_then (mget_loop (nat (argc - 1)) 1 e cid c2 w) (\<lambda>w1. Ret (None, c2, w1))))"

definition exec_del :: "env \<Rightarrow> nat \<Rightarrow> client \<Rightarrow> world \<Rightarrow> exec_result" where
  "exec_del e cid c w =
     (if args_len c \<noteq> 2 then Ret (wrong_args ''set'', c, w)
      else and_then (defined (arg_key c 1)) (\<lambda>key.
        and_then (make_req e (alloc_req\<lparr>req_client := Some cid, req_key := key, req_type := 3\<rparr>) w) (\<lambda>w1.
        and_then (defined (reply_ko c)) (\<lambda>c1. Ret (None, c1, w1)))))"

definition exec_quit :: "env \<Rightarrow> nat \<Rightarrow> client \<Rightarrow> world \<Rightarrow> exec_result" where
  "exec_quit e cid c w = and_then (defined (reply_ok c)) (\<lambda>c1. Ret (Some ERR_QUIT, c1, w))"

definition exec_flushdb :: "env \<Rightarrow> nat \<Rightarrow> client \<Rightarrow> world \<Rightarrow> exec_result" where
  "exec_flushdb e cid c w =
     (if args_len c \<noteq> 1 then Ret (wrong_args ''flushdb'', c, w)
      else and_then (defined (reply_ok c)) (\<lambda>c1. Ret (None, c1, w)))"

section \<open>Scanning\<close>

fun write_filler :: "nat \<Rightarrow> client \<Rightarrow> client option" where
  "write_filler 0 c = Some c"
| "write_filler (Suc n) c = Option.bind (client_write_byte (CHR ''?'') c) (write_filler n)"

text \<open>
  The iteration over the keys is disabled in the source: \<open>total\<close> and \<open>ncursor\<close> stay 0. The header is
  copied to the fixed place before byte 128 of the reply buffer.
\<close>

definition exec_scan_keys :: "client \<Rightarrow> bool \<Rightarrow> byte list \<Rightarrow> (error \<times> client) option" where
  "exec_scan_keys c scan pat =
     (let (star, start, stop) = pattern_limits pat;
          filler = 128;
          nb = (if scan then ''*2'' @ [CR, LF] @ CHR ''$'' # dec (length (sprint_d 0)) @ [CR, LF] @
                             sprint_d 0 @ [CR, LF] @ CHR ''*'' # sprint_d 0 @ [CR, LF]
                else CHR ''*'' # sprint_d 0 @ [CR, LF]);
          nbn = int (length nb)
      in map_option (\<lambda>c1. (None, c1\<lparr>out_buf := poke (out_buf c1) (filler - nbn) nb,
                                    output_offset := filler - nbn\<rparr>))
           (write_filler (nat filler) c))"

definition exec_keys :: "env \<Rightarrow> nat \<Rightarrow> client \<Rightarrow> world \<Rightarrow> exec_result" where
  "exec_keys e cid c w =
     (if args_len c \<noteq> 2 then Ret (wrong_args ''keys'', c, w)
      else and_then (defined (arg_string c 1)) (\<lambda>pat.
           and_then (defined (exec_scan_keys c False pat)) (\<lambda>(err, c1). Ret (err, c1, w))))"

text \<open>The options of \<open>scan\<close>: the pattern, or the error. The first argument counts those left.\<close>

fun scan_options :: "nat \<Rightarrow> int \<Rightarrow> client \<Rightarrow> byte list \<Rightarrow> (byte list + byte list) option" where
  "scan_options 0 i c pat = Some (Inr pat)"
| "scan_options (Suc n) i c pat =
     do { m \<leftarrow> islstr c i ''match'';
          if m then (case n of 0 \<Rightarrow> Some (Inl ''syntax error'')
            | Suc n' \<Rightarrow> do { pat' \<leftarrow> arg_string c (i + 1); scan_options n' (i + 2) c pat' })
          else do { k \<leftarrow> islstr c i ''count'';
            if k then (case n of 0 \<Rightarrow> Some (Inl ''syntax error'')
              | Suc n' \<Rightarrow> do { s \<leftarrow> arg_string c (i + 1); count \<leftarrow> atop s;
                  if count < 0 then Some (Inl ''value is not an integer or out of range'')
                  else scan_options n' (i + 2) c pat })
            else Some (Inl ''syntax error'') } }"

definition exec_scan :: "env \<Rightarrow> nat \<Rightarrow> client \<Rightarrow> world \<Rightarrow> exec_result" where
  "exec_scan e cid c w =
     (if args_len c < 2 then Ret (wrong_args ''scan'', c, w)
      else and_then (defined (Option.bind (arg_string c 1) atop)) (\<lambda>cursor.
        if cursor < 0 then Ret (Some (Message ''invalid cursor''), c, w)
        else and_then (defined (scan_options (nat (args_len c - 2)) 2 c ''*'')) (\<lambda>opts.
          case opts of
            Inl err \<Rightarrow> Ret (Some (Message err), c, w)
          | Inr pat \<Rightarrow> and_then (defined (exec_scan_keys c True pat)) (\<lambda>(err, c1). Ret (err, c1, w)))))"

section \<open>Replies read as commands\<close>

definition exec_ok :: "env \<Rightarrow> nat \<Rightarrow> client \<Rightarrow> world \<Rightarrow> exec_result" where
  "exec_ok e cid c w = Ret (if args_len c \<noteq> 1 then wrong_args ''ok'' else None, c, w)"

definition exec_ko :: "env \<Rightarrow> nat \<Rightarrow> client \<Rightarrow> world \<Rightarrow> exec_result" where
  "exec_ko e cid c w = Ret (if args_len c \<noteq> 1 then wrong_args ''ok'' else None, c, w)"

definition exec_bulk :: "env \<Rightarrow> nat \<Rightarrow> client \<Rightarrow> world \<Rightarrow> exec_result" where
  "exec_bulk e cid c w = Ret (if args_len c \<noteq> 2 then wrong_args ''bulk'' else None, c, w)"

definition exec_not :: "env \<Rightarrow> nat \<Rightarrow> client \<Rightarrow> world \<Rightarrow> exec_result" where
  "exec_not e cid c w = Ret (if args_len c \<noteq> 1 then wrong_args ''not'' else None, c, w)"

section \<open>The dispatch\<close>

definition commands :: "(byte list \<times> (env \<Rightarrow> nat \<Rightarrow> client \<Rightarrow> world \<Rightarrow> exec_result)) list" where
  "commands =
     [(''set'', exec_set), (''mset'', exec_mset), (''get'', exec_get), (''mget'', exec_mget),
      (''del'', exec_del), (''quit'', exec_quit), (''keys'', exec_keys), (''scan'', exec_scan),
      (''flushdb'', exec_flushdb), (''upt'', exec_upt), (''OK'', exec_ok), (''BULK'', exec_bulk),
      (''NOT'', exec_not), (''KO'', exec_ko)]"

fun dispatch :: "(byte list \<times> (env \<Rightarrow> nat \<Rightarrow> client \<Rightarrow> world \<Rightarrow> exec_result)) list \<Rightarrow>
    env \<Rightarrow> nat \<Rightarrow> client \<Rightarrow> world \<Rightarrow> exec_result" where
  "dispatch [] e cid c w =
     and_then (defined (client_err_unknown_command (args c 0) (args_size c 0) c))
       (\<lambda>(err, c1). Ret (err, c1, w))"
| "dispatch ((name, handler) # rest) e cid c w =
     (case iscmd c name of
        None \<Rightarrow> Undef
      | Some True \<Rightarrow> handler e cid c w
      | Some False \<Rightarrow> dispatch rest e cid c w)"

definition exec_command :: "env \<Rightarrow> nat \<Rightarrow> client \<Rightarrow> world \<Rightarrow> exec_result" where
  "exec_command e cid c w =
     (if args_len c = 0 \<or> (args_len c = 1 \<and> args_size c 0 = 0) then Ret (None, c, w)
      else dispatch commands e cid c w)"

section \<open>All commands in the buffer\<close>

text \<open>
  \<open>client_exec_commands\<close> (\<open>client.cc\<close>); the first argument bounds the number of passes, \<open>Loops\<close>
  is a loop that needs more.
\<close>

fun client_exec_commands :: "nat \<Rightarrow> env \<Rightarrow> nat \<Rightarrow> client \<Rightarrow> world \<Rightarrow> (bool \<times> client \<times> world) outcome" where
  "client_exec_commands 0 e cid c w = Loops"
| "client_exec_commands (Suc n) e cid c w =
     and_then (defined (client_read_command c)) (\<lambda>(err, c1).
       case err of
         Some ERR_INCOMPLETE \<Rightarrow> Ret (True, c1, w)
       | Some ERR_QUIT \<Rightarrow> and_then (defined (client_write_error ''quit'' c1)) (\<lambda>c2. Ret (False, c2, w))
       | Some (Message msg) \<Rightarrow> and_then (defined (client_write_error msg c1)) (\<lambda>c2. Ret (False, c2, w))
       | None \<Rightarrow>
           and_then (exec_command e cid c1 w) (\<lambda>(err2, c2, w2).
             case err2 of
               None \<Rightarrow> client_exec_commands n e cid c2 w2
             | Some ERR_QUIT \<Rightarrow> Ret (False, c2, w2)
             | Some ERR_INCOMPLETE \<Rightarrow>
                 and_then (defined (client_write_error ''incomplete'' c2)) (\<lambda>c3. Ret (True, c3, w2))
             | Some (Message msg) \<Rightarrow>
                 and_then (defined (client_write_error msg c2)) (\<lambda>c3. Ret (True, c3, w2))))"

end
