(* ===== verification/Replies.thy ===== *)
theory Replies
  imports Exec ParserSafety
begin

text \<open>
  What the command handlers do to a connection: they write replies, set the flag and the message of
  the connection, and place the header of a scan. The locale \<open>reply_growth\<close> lifts a relation that is
  closed under these steps to every handler, the dispatch and the error replies: the input of the
  connection is left alone.
\<close>

lemma defined_Ret [simp]: "defined x = Ret a \<longleftrightarrow> x = Some a"
  by (cases x) simp_all

locale reply_growth =
  fixes keeps :: "client \<Rightarrow> client \<Rightarrow> bool"
  assumes refl: "keeps c c"
    and trans: "keeps c c1 \<Longrightarrow> keeps c1 c2 \<Longrightarrow> keeps c c2"
    and written: "client_write d n c = Some c' \<Longrightarrow> keeps c c'"
    and flag: "keeps c (c\<lparr>output_valid := v\<rparr>)"
    and message: "keeps c (c\<lparr>tmp_err := m\<rparr>)"
    and items: "keeps c (c\<lparr>current_items := k\<rparr>)"
    and header: "exec_scan_keys c scan pat = Some (err, c') \<Longrightarrow> keeps c c'"
begin

declare refl [simp]

lemma client_write_byte_keeps: "client_write_byte b c = Some c' \<Longrightarrow> keeps c c'"
  by (auto simp: client_write_byte_eq dest: written)

lemma client_write_error_keeps:
  assumes "client_write_error m c = Some c'"
  shows "keeps c c'"
proof -
  obtain c1 c2 c3 where "client_write ''-ERR '' 5 c = Some c1"
    "client_write m (int (length (cstr m))) c1 = Some c2" "client_write_byte CR c2 = Some c3"
    "client_write_byte LF c3 = Some c'"
    using assms by (auto simp: client_write_error_def Option.bind_eq_Some_conv)
  from written [OF this(1)] written [OF this(2)] client_write_byte_keeps [OF this(3)]
    client_write_byte_keeps [OF this(4)]
  show ?thesis by (blast intro: trans)
qed

lemma reply_keeps: "reply_ok c = Some c' \<Longrightarrow> keeps c c'" "reply_ko c = Some c' \<Longrightarrow> keeps c c'"
  by (auto simp: reply_ok_def reply_ko_def intro: trans [OF written flag])

lemma unknown_command_keeps: "client_err_unknown_command p n c = Some (err, c') \<Longrightarrow> keeps c c'"
  by (auto simp: client_err_unknown_command_def client_err_alloc_def Let_def Option.bind_eq_Some_conv message)

lemma exec_set_keeps: "exec_set e cid c w = Ret (err, c', w') \<Longrightarrow> keeps c c'"
  by (auto simp: exec_set_def Let_def case_prod_unfold dest: reply_keeps(1) split: if_splits prod.splits sum.splits)

lemma exec_upt_keeps: "exec_upt e cid c w = Ret (err, c', w') \<Longrightarrow> keeps c c'"
  by (auto simp: exec_upt_def Let_def case_prod_unfold dest: reply_keeps(2) split: if_splits prod.splits sum.splits)

lemma exec_get_keeps: "exec_get e cid c w = Ret (err, c', w') \<Longrightarrow> keeps c c'"
  by (auto simp: exec_get_def Let_def case_prod_unfold split: if_splits prod.splits sum.splits)

lemma exec_mset_keeps: "exec_mset e cid c w = Ret (err, c', w') \<Longrightarrow> keeps c c'"
  by (auto simp: exec_mset_def Let_def dest: reply_keeps(1) split: if_splits prod.splits sum.splits)

lemma exec_del_keeps: "exec_del e cid c w = Ret (err, c', w') \<Longrightarrow> keeps c c'"
  by (auto simp: exec_del_def Let_def dest: reply_keeps(2) split: if_splits prod.splits sum.splits)

lemma exec_quit_keeps: "exec_quit e cid c w = Ret (err, c', w') \<Longrightarrow> keeps c c'"
  by (auto simp: exec_quit_def Let_def dest: reply_keeps(1) split: if_splits prod.splits sum.splits)

lemma exec_flushdb_keeps: "exec_flushdb e cid c w = Ret (err, c', w') \<Longrightarrow> keeps c c'"
  by (auto simp: exec_flushdb_def Let_def dest: reply_keeps(1) split: if_splits prod.splits sum.splits)

lemma exec_keys_keeps: "exec_keys e cid c w = Ret (err, c', w') \<Longrightarrow> keeps c c'"
  by (auto simp: exec_keys_def Let_def dest: header split: if_splits prod.splits sum.splits)

lemma exec_scan_keeps:
  assumes "exec_scan e cid c w = Ret (err, c', w')"
  shows "keeps c c'"
proof (cases "args_len c < 2")
  case False
  then obtain cursor where cursor: "Option.bind (arg_string c 1) atop = Some cursor"
    using assms by (auto simp: exec_scan_def)
  show ?thesis
  proof (cases "cursor < 0")
    case nonneg: False
    then obtain opts where "scan_options (nat (args_len c - 2)) 2 c ''*'' = Some opts"
      using assms False cursor by (auto simp: exec_scan_def)
    then show ?thesis using assms False cursor nonneg
      by (cases opts) (auto simp: exec_scan_def dest: header)
  qed (use assms False cursor in \<open>simp add: exec_scan_def\<close>)
qed (use assms in \<open>simp add: exec_scan_def\<close>)

lemma exec_ok_keeps: "exec_ok e cid c w = Ret (err, c', w') \<Longrightarrow> keeps c c'"
  by (auto simp: exec_ok_def Let_def split: if_splits prod.splits sum.splits)

lemma exec_ko_keeps: "exec_ko e cid c w = Ret (err, c', w') \<Longrightarrow> keeps c c'"
  by (auto simp: exec_ko_def Let_def split: if_splits prod.splits sum.splits)

lemma exec_bulk_keeps: "exec_bulk e cid c w = Ret (err, c', w') \<Longrightarrow> keeps c c'"
  by (auto simp: exec_bulk_def Let_def split: if_splits prod.splits sum.splits)

lemma exec_not_keeps: "exec_not e cid c w = Ret (err, c', w') \<Longrightarrow> keeps c c'"
  by (auto simp: exec_not_def Let_def split: if_splits prod.splits sum.splits)

lemma exec_mget_keeps:
  assumes "exec_mget e cid c w = Ret (err, c', w')"
  shows "keeps c c'"
proof -
  let ?c = "c\<lparr>current_items := current_items c + (args_len c - 1)\<rparr>"
  obtain d n where "client_write d n ?c = Some c'"
    using assms by (auto simp: exec_mget_def Let_def split: if_splits)
  then show ?thesis using trans [OF items written] by blast
qed

lemmas handlers_keep = exec_set_keeps exec_mset_keeps exec_get_keeps exec_mget_keeps exec_del_keeps
  exec_quit_keeps exec_keys_keeps exec_scan_keeps exec_flushdb_keeps exec_upt_keeps exec_ok_keeps
  exec_bulk_keeps exec_not_keeps exec_ko_keeps

lemma handler_keeps:
  assumes "(name, h) \<in> set commands" and "h e cid c w = Ret (err, c', w')"
  shows "keeps c c'"
  using assms by (auto simp: commands_def dest: handlers_keep)

lemma dispatch_keeps:
  assumes "dispatch cmds e cid c w = Ret (err, c', w')" and "set cmds \<subseteq> set commands"
  shows "keeps c c'"
  using assms
proof (induction cmds)
  case Nil
  then show ?case by (auto dest!: unknown_command_keeps)
next
  case (Cons cmd cmds)
  then show ?case using handler_keeps [of "fst cmd" "snd cmd" e cid c w err c' w']
    by (cases cmd) (auto split: option.splits bool.splits)
qed

lemma exec_command_keeps: "exec_command e cid c w = Ret (err, c', w') \<Longrightarrow> keeps c c'"
  by (auto simp: exec_command_def split: if_splits dest: dispatch_keeps)

end

section \<open>The input is left alone\<close>

definition input_same :: "client \<Rightarrow> client \<Rightarrow> bool" where
  "input_same c c' \<longleftrightarrow> buf c' = buf c \<and> buf_idx c' = buf_idx c \<and> buf_len c' = buf_len c \<and>
     args c' = args c \<and> args_len c' = args_len c \<and> args_cap c' = args_cap c \<and>
     args_size c' = args_size c \<and> fd c' = fd c \<and> which_queue c' = which_queue c"

lemma input_same_refl [simp]: "input_same c c"
  by (simp add: input_same_def)

lemma input_same_trans [trans]: "input_same c c1 \<Longrightarrow> input_same c1 c2 \<Longrightarrow> input_same c c2"
  by (simp add: input_same_def)

lemma input_same_inv: "input_same c c' \<Longrightarrow> parser_inv c \<Longrightarrow> parser_inv c'"
  by (simp add: input_same_def parser_inv_def)

lemma write_filler_same: "write_filler n c = Some c' \<Longrightarrow> input_same c c'"
proof (induction n arbitrary: c)
  case (Suc n)
  then obtain c1 where "client_write_byte (CHR ''?'') c = Some c1" "write_filler n c1 = Some c'"
    by (auto simp: Option.bind_eq_Some_conv)
  with Suc.IH [OF this(2)] show ?case
    by (auto simp: client_write_byte_def input_same_def split: if_splits)
qed simp

interpretation untouched: reply_growth input_same
proof
  fix c scan pat err c'
  assume "exec_scan_keys c scan pat = Some (err, c')"
  then show "input_same c c'"
    by (auto simp: exec_scan_keys_def input_same_def Let_def dest!: write_filler_same split: prod.splits)
next
  fix c c1 c2
  assume "input_same c c1" "input_same c1 c2"
  then show "input_same c c2" by (rule input_same_trans)
qed (auto simp: client_write_def input_same_def split: if_splits)

end
