(* ===== verification/ExecProps.thy ===== *)
theory ExecProps
  imports Replies
begin

text \<open>
  What the command handlers do: the names the dispatch accepts, that no handler touches the input
  buffer, that the loop over the commands in the buffer ends, and the path of a \<open>set\<close> and a \<open>get\<close>
  from the bytes received to the request submitted.
\<close>

lemma defined_not_Loops [simp]: "defined x \<noteq> Loops"
  by (cases x) simp_all

lemma and_then_Loops: "and_then x f = Loops \<longleftrightarrow> x = Loops \<or> (\<exists>a. x = Ret a \<and> f a = Loops)"
  by (cases x) simp_all

section \<open>Command names\<close>

definition same_letter :: "byte \<Rightarrow> byte \<Rightarrow> bool" where
  "same_letter b s \<longleftrightarrow> c_char b = c_char s \<or> c_char b = c_char s - 32"

lemma islstr_loop_iff:
  assumes "NUL \<notin> set str" and "NUL \<notin> set bs" and "CHR 0xE0 \<notin> set bs"
  shows "islstr_loop bs (str @ [NUL]) = Some (list_all2 same_letter bs str)"
  using assms
proof (induction bs arbitrary: str)
  case Nil
  then show ?case by (cases str) auto
next
  case (Cons b bs)
  show ?case
  proof (cases str)
    case Nil
    have "c_char b \<noteq> c_char NUL \<and> c_char b \<noteq> c_char NUL - 32"
    proof -
      have "c_char NUL = 0" "c_char (CHR 0xE0) = - 32" by (simp_all add: c_char_def)
      moreover have "b \<noteq> NUL" "b \<noteq> CHR 0xE0" using Cons.prems by auto
      ultimately show ?thesis using c_char_inj [of b NUL] c_char_inj [of b "CHR 0xE0"] by simp
    qed
    then show ?thesis using Nil by simp
  next
    case (Cons s str')
    then show ?thesis using Cons.IH [of str'] Cons.prems by (simp add: same_letter_def)
  qed
qed

section \<open>The loop over the commands ends\<close>

lemma make_req_not_Loops [simp]: "make_req e r w \<noteq> Loops"
  by (simp add: make_req_def Let_def)

lemma mset_loop_not_Loops [simp]: "mset_loop n i e cid c w \<noteq> Loops"
  by (induction n arbitrary: i w) (simp_all add: and_then_Loops Let_def case_prod_unfold)

lemma mget_loop_not_Loops [simp]: "mget_loop n i e cid c w \<noteq> Loops"
  by (induction n arbitrary: i w) (simp_all add: and_then_Loops Let_def case_prod_unfold)

lemma exec_scan_not_Loops [simp]: "exec_scan e cid c w \<noteq> Loops"
proof -
  have "(case opts of Inl err \<Rightarrow> Ret (Some (Message err), c, w)
      | Inr pat \<Rightarrow> and_then (defined (exec_scan_keys c True pat)) (\<lambda>(err, c1). Ret (err, c1, w))) \<noteq> Loops" for opts
    by (cases opts) (simp_all add: and_then_Loops case_prod_unfold)
  then show ?thesis by (simp add: exec_scan_def and_then_Loops)
qed

lemma handler_not_Loops: "(name, h) \<in> set commands \<Longrightarrow> h e cid c w \<noteq> Loops"
  by (auto simp: commands_def exec_set_def exec_upt_def exec_get_def exec_mset_def exec_mget_def
      exec_del_def exec_quit_def exec_flushdb_def exec_keys_def exec_ok_def exec_ko_def
      exec_bulk_def exec_not_def Let_def and_then_Loops case_prod_unfold split: if_splits)

lemma dispatch_not_Loops: "set cmds \<subseteq> set commands \<Longrightarrow> dispatch cmds e cid c w \<noteq> Loops"
proof (induction cmds)
  case (Cons cmd cmds)
  then show ?case using handler_not_Loops [of "fst cmd" "snd cmd" e cid c w]
    by (cases cmd) (auto split: option.splits bool.splits)
qed (simp add: and_then_Loops case_prod_unfold)

lemma exec_command_not_Loops [simp]: "exec_command e cid c w \<noteq> Loops"
  by (simp add: exec_command_def dispatch_not_Loops)

lemma exec_commands_end:
  "parser_inv c \<Longrightarrow> nat (buf_len c) < n \<Longrightarrow> client_exec_commands n e cid c w \<noteq> Loops"
proof (induction n arbitrary: c w)
  case (Suc n)
  have "client_exec_commands n e cid c2 w2 \<noteq> Loops"
    if "client_read_command c = Some (None, c1)" "exec_command e cid c1 w = Ret (None, c2, w2)"
    for c1 c2 w2
  proof -
    have c1: "parser_inv c1" "buf_len c1 < buf_len c"
      using parsed_facts(1,2) [OF Suc.prems(1) read_command_facts [OF Suc.prems(1) that(1)]] by simp_all
    have same: "input_same c1 c2" using untouched.exec_command_keeps [OF that(2)] .
    have "nat (buf_len c2) < n"
      using c1 same Suc.prems(2) unfolding input_same_def parser_inv_def by linarith
    then show ?thesis using Suc.IH input_same_inv [OF same c1(1)] by blast
  qed
  then show ?case
    by (auto simp: and_then_Loops case_prod_unfold split: option.splits err.splits)
qed simp

text \<open>More passes than are needed change nothing.\<close>

lemma exec_commands_more:
  "client_exec_commands n e cid c w \<noteq> Loops \<Longrightarrow>
     client_exec_commands (n + k) e cid c w = client_exec_commands n e cid c w"
proof (induction n arbitrary: c w)
  case (Suc n)
  show ?case
  proof (cases "client_read_command c")
    case (Some r)
    obtain err c1 where r: "client_read_command c = Some (err, c1)" using Some by (cases r) auto
    show ?thesis
    proof (cases err)
      case None
      show ?thesis
      proof (cases "exec_command e cid c1 w")
        case (Ret x)
        then obtain err2 c2 w2 where x: "exec_command e cid c1 w = Ret (err2, c2, w2)" by (cases x) auto
        show ?thesis
        proof (cases err2)
          case None
          then have "client_exec_commands n e cid c2 w2 \<noteq> Loops" using Suc.prems r x \<open>err = None\<close> by simp
          from Suc.IH [OF this] show ?thesis using r x \<open>err = None\<close> None by simp
        qed (simp add: r x \<open>err = None\<close>)
      qed (simp_all add: r None)
    qed (simp add: r)
  qed simp
qed simp

lemma exec_commands_inv:
  "parser_inv c \<Longrightarrow> client_exec_commands n e cid c w = Ret (keep, c', w') \<Longrightarrow>
     parser_inv c' \<and> (\<exists>k. unread c' = drop k (unread c)) \<and> fd c' = fd c"
proof (induction n arbitrary: c w)
  case (Suc n)
  obtain err c1 where read: "client_read_command c = Some (err, c1)"
    using Suc.prems(2) by auto
  have keep: "parser_inv c2 \<and> unread c2 = unread c1 \<and> fd c2 = fd c1"
    if "input_same c1 c2" "parser_inv c1" for c1 c2
    using that input_same_inv by (auto simp: input_same_def unread_def)
  note facts = parsed_facts [OF Suc.prems(1) read_command_facts [OF Suc.prems(1) read]]
  have "\<exists>k. unread c1 = drop k (unread c)"
  proof (cases "err = None")
    case False
    then have "unread c1 = unread c" using facts(3) by (simp add: unread_def)
    then show ?thesis by (intro exI [of _ 0]) simp
  qed (use facts(2) in blast)
  with facts have c1: "parser_inv c1" "\<exists>k. unread c1 = drop k (unread c)" "fd c1 = fd c"
    by simp_all
  show ?case
  proof (cases err)
    case (Some m)
    then have "input_same c1 c'"
      using Suc.prems(2) read by (cases m) (auto dest: untouched.client_write_error_keeps)
    then show ?thesis using keep c1 by metis
  next
    case None
    then obtain err2 c2 w2 where exec: "exec_command e cid c1 w = Ret (err2, c2, w2)"
      using Suc.prems(2) read by auto
    note c2 = keep [OF untouched.exec_command_keeps [OF exec] c1(1)]
    show ?thesis
    proof (cases err2)
      case None
      then have "client_exec_commands n e cid c2 w2 = Ret (keep, c', w')"
        using Suc.prems(2) read exec \<open>err = None\<close> by simp
      from Suc.IH [OF _ this] c2 c1 show ?thesis by (metis drop_drop)
    next
      case (Some m)
      then have "input_same c2 c'"
        using Suc.prems(2) read exec \<open>err = None\<close> by (cases m) (auto dest: untouched.client_write_error_keeps)
      then show ?thesis using keep c1 c2 by metis
    qed
  qed
qed simp

section \<open>From the bytes to the request\<close>

lemma ended_arg_string:
  assumes "ended_arg c k a" and "0 \<le> k" and "k < args_len c"
  shows "arg_string c k = Some a"
proof -
  obtain i where i: "args c k = InBuf i" "0 \<le> i" "i + int (length a) < BUFSIZE" "holds (buf c) i (a @ [CR])"
    and n: "args_size c k = int (length a)"
    using assms(1) by (auto simp: ended_arg_def)
  have "holds (buf c) i a" using i(4) by (simp only: holds_append)
  then show ?thesis using i n assms(2,3) by (simp add: arg_string_def argv_def arg_bytes_def holds_peek)
qed

lemma ended_arg_key:
  assumes "ended_arg c k (pre @ dec n)" and "length pre = 4" and "int n \<le> INT_MAX"
    and "0 \<le> k" and "k < args_len c"
  shows "arg_key c k = Some (int n)"
proof -
  obtain i where i: "args c k = InBuf i" "0 \<le> i" "i + int (length (pre @ dec n)) < BUFSIZE"
    "holds (buf c) i ((pre @ dec n) @ [CR])"
    using assms(1) by (auto simp: ended_arg_def)
  have h: "holds (buf c) (i + 4) (dec n)" "buf c (i + 4 + int (length (dec n))) = CR"
    using i(4) assms(2) by (simp_all add: holds_append algebra_simps)
  have "atoi (buf c) BUFSIZE (i + 4) = Some (int n)"
    by (rule atoi_dec [OF h(1)]) (use h(2) i(3) assms(2,3) in \<open>simp_all add: isdigit_def c_char_def\<close>)
  moreover have "to_uint64 (int n) = int n" using assms(3) by (simp add: to_uint64_id INT_MAX_def)
  ultimately show ?thesis using i(1) assms(4,5) by (simp add: arg_key_def argv_def)
qed

lemma islstr_loop_match: "list_all2 same_letter bs str \<Longrightarrow> islstr_loop bs (str @ [NUL]) = Some True"
proof (induction bs str rule: list_all2_induct)
  case (Cons b bs s str)
  then show ?case by (auto simp: same_letter_def)
qed simp

lemma set_dispatch:
  assumes "arg_string c 0 = Some name" and "list_all2 same_letter name ''set''" and "1 < args_len c"
  shows "exec_command e cid c w = exec_set e cid c w"
proof -
  have "iscmd c ''set'' = Some True"
    using islstr_loop_match [OF assms(2)] assms(1) by (simp add: iscmd_def islstr_def)
  then show ?thesis using assms(3) by (simp add: exec_command_def commands_def)
qed

lemma get_dispatch:
  assumes "arg_string c 0 = Some name" and "list_all2 same_letter name ''get''" and "1 < args_len c"
  shows "exec_command e cid c w = exec_get e cid c w"
proof -
  obtain b bs where name: "name = b # bs" "same_letter b (CHR ''g'')"
    using assms(2) by (auto simp: list_all2_Cons2)
  have "iscmd c ''get'' = Some True"
    using islstr_loop_match [OF assms(2)] assms(1) by (simp add: iscmd_def islstr_def)
  moreover have "iscmd c ''set'' = Some False" "iscmd c ''mset'' = Some False"
    using assms(1) name by (auto simp: iscmd_def islstr_def same_letter_def c_char_def)
  ultimately show ?thesis using assms(3) by (simp add: exec_command_def commands_def)
qed

lemma reply_ok_output:
  assumes "output_inv c" and "output_len c + 5 \<le> OUTPUT_BUFSIZE"
  shows "\<exists>c'. reply_ok c = Some c' \<and> output_inv c' \<and> output_valid c' \<and>
    output_len c' = output_len c + 5 \<and> output_offset c' = output_offset c \<and>
    output_bytes c' = output_bytes c @ ''+OK'' @ [CR, LF]"
proof -
  have "\<exists>c'. client_write (''+OK'' @ [CR, LF]) 5 c = Some c'"
    using client_write_ok [of c "''+OK'' @ [CR, LF]"] assms by (simp add: output_inv_def)
  then obtain c' where c': "client_write (''+OK'' @ [CR, LF]) 5 c = Some c'" by blast
  have "output_len c' = output_len c + 5 \<and> output_offset c' = output_offset c"
    by (subst (1 2) client_write_output(2) [OF c']) simp
  with c' client_write_output(1,3) [OF c'] show ?thesis
    by (intro exI [of _ "c'\<lparr>output_valid := True\<rparr>"])
      (simp add: reply_ok_def output_inv_def output_bytes_def)
qed

lemma make_req_accepted:
  assumes "\<forall>es. lr_make_req e es \<noteq> - 1"
  shows "\<exists>w'. make_req e r w = Ret w'"
  using assms by (simp add: make_req_def Let_def)

lemma get_exec:
  assumes e: "ended_arg c1 0 name" "ended_arg c1 1 (pre @ dec n)" and len: "args_len c1 = 2"
    and name: "list_all2 same_letter name ''get''" and key: "length pre = 4" "int n \<le> INT_MAX"
    and engine: "\<forall>es. lr_make_req e es \<noteq> - 1"
  shows "\<exists>w2. exec_command e cid c1 w = Ret (None, c1, w2) \<and>
    submitted (trace w2) = submitted (trace w) @
      [\<lparr>req_fd = 0, dmaTag = alloc_tag e (trace w), org_type = 0, req_client = Some cid, req_type = 2,
        req_key = int n + 1, req_value = alloc_mem e (trace w)\<rparr>]"
proof -
  let ?r = "\<lparr>req_fd = 0, dmaTag = alloc_tag e (trace w), org_type = 0, req_client = Some cid, req_type = 2,
        req_key = int n, req_value = alloc_mem e (trace w)\<rparr>"
  let ?w1 = "emit [DmaAlloc 2 (alloc_tag e (trace w))] w"
  obtain w2 where w2: "make_req e ?r ?w1 = Ret w2" using make_req_accepted [OF engine] by blast
  have "exec_command e cid c1 w = exec_get e cid c1 w"
    by (rule get_dispatch [OF ended_arg_string [OF e(1)] name]) (simp_all add: len)
  also have "\<dots> = Ret (None, c1, w2)"
    using len ended_arg_key [OF e(2) key] w2
    by (simp add: exec_get_def alloc_dma_def alloc_req_def Let_def)
  finally have exec: "exec_command e cid c1 w = Ret (None, c1, w2)" .
  have "to_uint64 (int n + 1) = int n + 1" using key(2) by (simp add: to_uint64_id INT_MAX_def)
  then show ?thesis using exec make_req_submits(1) [OF w2] by (intro exI [of _ w2]) simp
qed

lemma get_run:
  assumes inv: "parser_inv c" and u: "unread c = resp_command [name, pre @ dec n] @ rest"
    and name: "list_all2 same_letter name ''get''" and key: "length pre = 4" "int n \<le> INT_MAX"
    and engine: "\<forall>es. lr_make_req e es \<noteq> - 1"
  shows "\<exists>c1 w2. client_read_command c = Some (None, c1) \<and>
    exec_command e cid c1 w = Ret (None, c1, w2) \<and> unread c1 = rest \<and>
    output_bytes c1 = output_bytes c \<and> output_len c1 = output_len c \<and>
    output_inv c1 = output_inv c \<and> output_valid c1 = output_valid c \<and> output_offset c1 = output_offset c \<and>
    submitted (trace w2) = submitted (trace w) @
      [\<lparr>req_fd = 0, dmaTag = alloc_tag e (trace w), org_type = 0, req_client = Some cid, req_type = 2,
        req_key = int n + 1, req_value = alloc_mem e (trace w)\<rparr>]"
proof -
  obtain c1 where c1: "client_read_command c = Some (None, c1)" "unread c1 = rest" "args_len c1 = 2"
    "\<forall>j < 2. ended_arg c1 (int j) ([name, pre @ dec n] ! j)"
    using read_command_ended [OF inv(1) _ u] by auto
  have e: "ended_arg c1 0 name" "ended_arg c1 1 (pre @ dec n)"
    using c1(4) [rule_format, of 0] c1(4) [rule_format, of 1] by simp_all
  have out: "output_bytes c1 = output_bytes c" "output_len c1 = output_len c"
    "output_inv c1 = output_inv c" "output_valid c1 = output_valid c" "output_offset c1 = output_offset c"
    using parsed_facts(4) [OF inv(1) read_command_facts [OF inv(1) c1(1)]]
    by (simp_all add: output_bytes_def output_inv_def)
  show ?thesis using c1(1,2) out get_exec [OF e c1(3) name key engine] by blast
qed

lemma set_exec:
  assumes e: "ended_arg c1 0 name" "ended_arg c1 1 (pre @ dec n)" "ended_arg c1 2 v" and len: "args_len c1 = 3"
    and name: "list_all2 same_letter name ''set''" and key: "length pre = 4" "int n \<le> INT_MAX"
    and v: "int (length v) \<le> DMA_SIZE"
    and engine: "alloc_mem e (trace w) = Some m" "\<forall>es. lr_make_req e es \<noteq> - 1"
    and ok: "reply_ok c1 = Some c2"
  shows "\<exists>w2. exec_command e cid c1 w = Ret (None, c2, w2) \<and>
    submitted (trace w2) = submitted (trace w) @
      [\<lparr>req_fd = 0, dmaTag = alloc_tag e (trace w), org_type = 0, req_client = Some cid, req_type = 1,
        req_key = int n + 1, req_value = Some (poke m 0 v)\<rparr>]"
proof -
  let ?r = "\<lparr>req_fd = 0, dmaTag = alloc_tag e (trace w), org_type = 0, req_client = Some cid, req_type = 1,
        req_key = int n, req_value = Some (poke m 0 v)\<rparr>"
  let ?w1 = "emit [DmaAlloc 1 (alloc_tag e (trace w))] w"
  obtain w2 where w2: "make_req e ?r ?w1 = Ret w2" using make_req_accepted [OF engine(2)] by blast
  have "exec_command e cid c1 w = exec_set e cid c1 w"
    by (rule set_dispatch [OF ended_arg_string [OF e(1)] name]) (simp_all add: len)
  also have "\<dots> = Ret (None, c2, w2)"
    using len ended_arg_key [OF e(2) key] ended_arg_string [OF e(3)] engine(1) v w2 ok
    by (simp add: exec_set_def alloc_dma_def alloc_req_def fill_value_def Let_def)
  finally have exec: "exec_command e cid c1 w = Ret (None, c2, w2)" .
  have "to_uint64 (int n + 1) = int n + 1" using key(2) by (simp add: to_uint64_id INT_MAX_def)
  then show ?thesis using exec make_req_submits(1) [OF w2] by (intro exI [of _ w2]) simp
qed

lemma set_run:
  assumes inv: "parser_inv c" "output_inv c" "output_len c + 5 \<le> OUTPUT_BUFSIZE"
    and u: "unread c = resp_command [name, pre @ dec n, v] @ rest"
    and name: "list_all2 same_letter name ''set''" and key: "length pre = 4" "int n \<le> INT_MAX"
    and v: "int (length v) \<le> DMA_SIZE"
    and engine: "alloc_mem e (trace w) = Some m" "\<forall>es. lr_make_req e es \<noteq> - 1"
  shows "\<exists>c1 c2 w2. client_read_command c = Some (None, c1) \<and>
    exec_command e cid c1 w = Ret (None, c2, w2) \<and> unread c2 = rest \<and> input_same c1 c2 \<and>
    output_bytes c2 = output_bytes c @ ''+OK'' @ [CR, LF] \<and> output_len c2 = output_len c + 5 \<and>
    output_inv c2 \<and> output_valid c2 \<and> output_offset c2 = output_offset c \<and>
    submitted (trace w2) = submitted (trace w) @
      [\<lparr>req_fd = 0, dmaTag = alloc_tag e (trace w), org_type = 0, req_client = Some cid, req_type = 1,
        req_key = int n + 1, req_value = Some (poke m 0 v)\<rparr>]"
proof -
  obtain c1 where c1: "client_read_command c = Some (None, c1)" "unread c1 = rest" "args_len c1 = 3"
    "\<forall>j < 3. ended_arg c1 (int j) ([name, pre @ dec n, v] ! j)"
    using read_command_ended [OF inv(1) _ u] by auto
  have e: "ended_arg c1 0 name" "ended_arg c1 1 (pre @ dec n)" "ended_arg c1 2 v"
    using c1(4) [rule_format, of 0] c1(4) [rule_format, of 1] c1(4) [rule_format, of 2] by simp_all
  have out: "output_inv c1" "output_len c1 + 5 \<le> OUTPUT_BUFSIZE" "output_bytes c1 = output_bytes c"
    "output_len c1 = output_len c" "output_offset c1 = output_offset c"
    using parsed_facts(4) [OF inv(1) read_command_facts [OF inv(1) c1(1)]] inv(2,3)
    by (simp_all add: output_inv_def output_bytes_def)
  obtain c2 where c2: "reply_ok c1 = Some c2" "output_inv c2" "output_valid c2"
    "output_len c2 = output_len c1 + 5" "output_offset c2 = output_offset c1"
    "output_bytes c2 = output_bytes c1 @ ''+OK'' @ [CR, LF]"
    using reply_ok_output [OF out(1,2)] by blast
  obtain w2 where w2: "exec_command e cid c1 w = Ret (None, c2, w2)" "submitted (trace w2) = submitted (trace w) @
      [\<lparr>req_fd = 0, dmaTag = alloc_tag e (trace w), org_type = 0, req_client = Some cid, req_type = 1,
        req_key = int n + 1, req_value = Some (poke m 0 v)\<rparr>]"
    using set_exec [OF e c1(3) name key v engine c2(1), of cid] by blast
  have same: "input_same c1 c2" by (rule untouched.reply_keeps(1) [OF c2(1)])
  then have "unread c2 = rest" using c1(2) by (simp add: input_same_def unread_def)
  then show ?thesis using c1(1) same w2 c2 out(3-5)
    by (intro exI [of _ c1] exI [of _ c2] exI [of _ w2]) simp
qed

section \<open>Properties\<close>

text \<open>
  C6: a \<open>set\<close> command in any letter case, received in full, is read and executed: one request goes to
  the storage engine, with the number after the four-byte prefix of the key plus one as its key and
  the value, of at most 8192 bytes, in its DMA buffer, and the reply is \<open>+OK\<close>.
\<close>

theorem set_submits:
  assumes inv: "parser_inv c" "output_inv c" "output_len c + 5 \<le> OUTPUT_BUFSIZE"
    and u: "unread c = resp_command [name, pre @ dec n, v] @ rest"
    and name: "list_all2 same_letter name ''set''" and key: "length pre = 4" "int n \<le> INT_MAX"
    and v: "int (length v) \<le> DMA_SIZE"
    and engine: "alloc_mem e (trace w) = Some m" "\<forall>es. lr_make_req e es \<noteq> - 1"
  shows "\<exists>c1 c2 w2. client_read_command c = Some (None, c1) \<and>
    exec_command e cid c1 w = Ret (None, c2, w2) \<and> unread c2 = rest \<and>
    output_bytes c2 = output_bytes c @ ''+OK'' @ [CR, LF] \<and> output_valid c2 \<and>
    submitted (trace w2) = submitted (trace w) @
      [\<lparr>req_fd = 0, dmaTag = alloc_tag e (trace w), org_type = 0, req_client = Some cid, req_type = 1,
        req_key = int n + 1, req_value = Some (poke m 0 v)\<rparr>]"
  using set_run [OF assms, of cid] by blast

definition sample_env :: env where
  "sample_env = \<lparr>alloc_tag = (\<lambda>es. int (length es)), alloc_mem = (\<lambda>es. Some (\<lambda>_. NUL)), lr_make_req = (\<lambda>es. 0)\<rparr>"

theorem set_submits_witness:
  "\<exists>c1 c2 w2. client_read_command (client_of (resp_command [''SET'', ''user'' @ dec 7, ''v''] @ [])) = Some (None, c1) \<and>
     exec_command sample_env 5 c1 init_world = Ret (None, c2, w2) \<and>
     output_bytes c2 = ''+OK'' @ [CR, LF] \<and> map req_key (submitted (trace w2)) = [8]"
proof -
  let ?xs = "resp_command [''SET'', ''user'' @ dec 7, ''v''] @ []"
  have len: "int (length ?xs) \<le> BUFSIZE"
    by (simp add: resp_command_def length_resp_bulk length_dec_one BUFSIZE_def)
  have name: "list_all2 same_letter ''SET'' ''set''" by (simp add: same_letter_def c_char_def)
  have out: "output_inv (client_of ?xs)" "output_len (client_of ?xs) + 5 \<le> OUTPUT_BUFSIZE"
    "output_bytes (client_of ?xs) = []"
    by (simp_all add: client_of_def client_new_def output_inv_def OUTPUT_BUFSIZE_def output_bytes_def)
  have engine: "alloc_mem sample_env (trace init_world) = Some (\<lambda>_. NUL)" "\<forall>es. lr_make_req sample_env es \<noteq> - 1"
    by (simp_all add: sample_env_def)
  from set_submits [OF client_of_inv [OF len] out(1,2) client_of_unread name _ _ _ engine, of 5] out(3)
  show ?thesis by (auto simp: init_world_def INT_MAX_def DMA_SIZE_def)
qed

text \<open>
  A \<open>get\<close> command in any letter case, received in full, is read and executed: one request goes to
  the storage engine, for the number after the prefix plus one and with a fresh DMA buffer; nothing
  is replied yet.
\<close>

theorem get_submits:
  assumes inv: "parser_inv c" and u: "unread c = resp_command [name, pre @ dec n] @ rest"
    and name: "list_all2 same_letter name ''get''" and key: "length pre = 4" "int n \<le> INT_MAX"
    and engine: "\<forall>es. lr_make_req e es \<noteq> - 1"
  shows "\<exists>c1 w2. client_read_command c = Some (None, c1) \<and>
    exec_command e cid c1 w = Ret (None, c1, w2) \<and> unread c1 = rest \<and>
    output_bytes c1 = output_bytes c \<and>
    submitted (trace w2) = submitted (trace w) @
      [\<lparr>req_fd = 0, dmaTag = alloc_tag e (trace w), org_type = 0, req_client = Some cid, req_type = 2,
        req_key = int n + 1, req_value = alloc_mem e (trace w)\<rparr>]"
  using get_run [OF assms, of cid w] by blast

theorem get_submits_witness:
  "\<exists>c1 w2. client_read_command (client_of (resp_command [''GET'', ''user'' @ dec 7] @ [])) = Some (None, c1) \<and>
     exec_command sample_env 5 c1 init_world = Ret (None, c1, w2) \<and>
     map req_key (submitted (trace w2)) = [8]"
proof -
  let ?xs = "resp_command [''GET'', ''user'' @ dec 7] @ []"
  have len: "int (length ?xs) \<le> BUFSIZE"
    by (simp add: resp_command_def length_resp_bulk length_dec_one BUFSIZE_def)
  have name: "list_all2 same_letter ''GET'' ''get''" by (simp add: same_letter_def c_char_def)
  have engine: "\<forall>es. lr_make_req sample_env es \<noteq> - 1" by (simp add: sample_env_def)
  from get_submits [OF client_of_inv [OF len] client_of_unread name _ _ engine, of 5 init_world]
  show ?thesis by (auto simp: init_world_def INT_MAX_def)
qed

text \<open>
  On arguments without the bytes 0 and 0xE0, a name of the dispatch matches exactly the strings
  of its length whose bytes are the byte of the name or the one 32 below it.
\<close>

theorem islstr_matches:
  assumes "arg_string c k = Some bs" and "NUL \<notin> set str" and "NUL \<notin> set bs" and "CHR 0xE0 \<notin> set bs"
  shows "islstr c k str = Some (list_all2 same_letter bs str)"
  using islstr_loop_iff [OF assms(2-4)] assms(1) by (simp add: islstr_def)

theorem islstr_matches_witness:
  "islstr (client_of (resp_bulk ''v'')\<lparr>args_len := 1, args := (\<lambda>_. Literal ''/+''), args_size := (\<lambda>_. 2)\<rparr>) 0 ''OK'' = Some True"
proof -
  let ?c = "client_of (resp_bulk ''v'')\<lparr>args_len := 1, args := (\<lambda>_. Literal ''/+''), args_size := (\<lambda>_. 2)\<rparr>"
  have "arg_string ?c 0 = Some ''/+''" by (simp add: arg_string_def argv_def arg_bytes_def)
  from islstr_matches [OF this, of "''OK''"] show ?thesis by (simp add: same_letter_def c_char_def)
qed

text \<open>
  C7: executing the commands of the input buffer ends, whatever the bytes are, after at most one pass
  more than there are unread bytes: every pass but the last takes a byte off the buffer, and the last
  one finds no complete command. Any larger number of passes gives the same result. The loop keeps
  the buffer indices valid and only takes bytes off the front.
\<close>

theorem exec_commands_terminate:
  assumes "parser_inv c" and "nat (buf_len c) < n"
  shows "client_exec_commands n e cid c w \<noteq> Loops \<and>
    client_exec_commands (n + k) e cid c w = client_exec_commands n e cid c w \<and>
    (\<forall>keep c' w'. client_exec_commands n e cid c w = Ret (keep, c', w') \<longrightarrow>
       parser_inv c' \<and> (\<exists>k. unread c' = drop k (unread c)))"
  using exec_commands_end [OF assms] exec_commands_more [OF exec_commands_end [OF assms]]
    exec_commands_inv [OF assms(1)] by blast

theorem exec_commands_terminate_witness:
  "client_exec_commands 4 sample_env 5 (client_of ''GET'') init_world \<noteq> Loops \<and>
   client_exec_commands 20 sample_env 5 (client_of ''GET'') init_world =
     client_exec_commands 4 sample_env 5 (client_of ''GET'') init_world"
proof -
  have inv: "parser_inv (client_of ''GET'')" by (rule client_of_inv) (simp add: BUFSIZE_def)
  have "nat (buf_len (client_of ''GET'')) < 4" by (simp add: client_of_def)
  from exec_commands_terminate [OF inv this, where k = 16 and e = sample_env and cid = 5 and w = init_world]
  show ?thesis by simp
qed

text \<open>The header that \<open>exec_scan_keys\<close> puts before byte 128.\<close>

definition scan_header :: "bool \<Rightarrow> byte list" where
  "scan_header scan =
     (if scan then ''*2'' @ [CR, LF] @ ''$1'' @ [CR, LF] @ ''0'' @ [CR, LF] @ ''*0'' @ [CR, LF]
      else ''*0'' @ [CR, LF])"

lemma write_filler_output:
  assumes "output_inv c" and "output_len c + int n \<le> OUTPUT_BUFSIZE"
  shows "\<exists>c'. write_filler n c = Some c' \<and> output_inv c' \<and> output_len c' = output_len c + int n \<and>
    output_bytes c' = output_bytes c @ replicate n (CHR ''?'')"
  using assms
proof (induction n arbitrary: c)
  case (Suc n)
  have "\<exists>c1. put_output ''?'' c = Some c1"
    using client_write_ok [of c "''?''"] Suc.prems by (simp add: put_output_def output_inv_def)
  then obtain c1 where c1: "put_output ''?'' c = Some c1" by blast
  have out: "output_inv c1" "output_bytes c1 = output_bytes c @ ''?''"
    using reply.put_some [OF Suc.prems(1) c1] by simp_all
  have len: "output_len c1 = output_len c + 1"
    using c1 by (auto simp: put_output_def client_write_def split: if_splits)
  obtain c' where "write_filler n c1 = Some c'" "output_inv c'" "output_len c' = output_len c1 + int n"
    "output_bytes c' = output_bytes c1 @ replicate n (CHR ''?'')"
    using Suc.IH [OF out(1)] len Suc.prems(2) by auto
  then show ?case using c1 out(2) len
    by (intro exI [of _ c']) (simp add: client_write_byte_put replicate_append_same [symmetric])
qed simp

text \<open>
  \<open>keys\<close> and \<open>scan\<close> answer an empty list that starts at a fixed place of the reply buffer: what a
  flush from \<open>output_offset\<close> then sends is the header followed by the reply buffer from byte 128 on,
  so it is the header alone only when the reply buffer was empty.
\<close>

theorem scan_reply:
  assumes inv: "output_inv c" and room: "output_len c + 128 \<le> OUTPUT_BUFSIZE"
  shows "\<exists>c'. exec_scan_keys c scan pat = Some (None, c') \<and> output_len c' = output_len c + 128 \<and>
    peek (out_buf c') (output_offset c') (nat (output_len c' - output_offset c')) =
      scan_header scan @ drop 128 (output_bytes c @ replicate 128 (CHR ''?''))"
proof -
  obtain c1 where c1: "write_filler 128 c = Some c1" "output_len c1 = output_len c + 128"
    "output_bytes c1 = output_bytes c @ replicate 128 (CHR ''?'')"
    using write_filler_output [OF inv, of 128] room by auto
  let ?n = "int (length (scan_header scan))"
  let ?c = "c1\<lparr>out_buf := poke (out_buf c1) (128 - ?n) (scan_header scan), output_offset := 128 - ?n\<rparr>"
  have n: "0 \<le> ?n" "?n \<le> 128" by (simp_all add: scan_header_def)
  have d: "sprint_d 0 = ''0''" by (simp add: sprint_d_def dec_0)
  have "exec_scan_keys c scan pat = Some (None, ?c)"
    unfolding exec_scan_keys_def d
    by (cases scan) (simp_all add: c1(1) scan_header_def dec_0 Let_def case_prod_unfold)
  moreover have "peek (out_buf ?c) (128 - ?n) (nat (output_len c1 - (128 - ?n))) =
      scan_header scan @ drop 128 (output_bytes c1)"
  proof -
    have pos: "0 \<le> output_len c" using inv by (simp add: output_inv_def)
    have split1: "nat (output_len c1 - (128 - ?n)) = length (scan_header scan) + nat (output_len c)"
      using c1(2) n pos by simp
    have split2: "nat (output_len c1) = 128 + nat (output_len c)" using c1(2) pos by simp
    have "peek (out_buf ?c) 128 (nat (output_len c)) = peek (out_buf c1) 128 (nat (output_len c))"
      by (rule peek_cong) (use n in \<open>simp add: poke_outside\<close>)
    also have "\<dots> = drop 128 (output_bytes c1)"
      unfolding output_bytes_def split2 peek_append by simp
    finally show ?thesis unfolding split1 peek_append
      using peek_poke_same [of "out_buf c1" "128 - ?n" "scan_header scan"] by simp
  qed
  ultimately show ?thesis using c1(2,3) by (intro exI [of _ ?c]) simp
qed

theorem scan_reply_witness:
  "\<exists>c'. exec_scan_keys (client_of ''KEYS'') False ''*'' = Some (None, c') \<and>
     peek (out_buf c') (output_offset c') (nat (output_len c' - output_offset c')) = ''*0'' @ [CR, LF]"
proof -
  have "output_inv (client_of ''KEYS'')" "output_len (client_of ''KEYS'') + 128 \<le> OUTPUT_BUFSIZE"
    "output_bytes (client_of ''KEYS'') = []"
    by (simp_all add: client_of_def client_new_def output_inv_def OUTPUT_BUFSIZE_def output_bytes_def)
  from scan_reply [OF this(1,2), of False "''*''"] this(3) show ?thesis
    by (auto simp: scan_header_def)
qed

end
