(* ===== verification/Server.thy ===== *)
theory Server
  imports ExecProps MpmcQueue
begin

text \<open>
  \<open>poll_server.cpp\<close>, \<open>poll_server_buse.cpp\<close>, \<open>poll_server_busefs.cpp\<close>, \<open>multi_server.cpp\<close>: reading from
  a connection, the thread that answers finished requests, and \<open>end_req\<close> of \<open>request.cc\<close>. The three
  poll servers differ in the bytes of the constant \<open>get\<close> reply, in whether a request is freed after
  its reply, and in the blocking mode of the connections. System calls are given by their results.
\<close>

datatype recv_result = Received "byte list" | RecvWouldBlock | RecvError

definition exec_fuel :: nat where "exec_fuel = nat BUFSIZE + 2"

section \<open>Reading from a connection\<close>

definition get_buffer :: "client \<Rightarrow> int" where
  "get_buffer c = buf_idx c + buf_len c"

text \<open>\<open>memcpy\<close> to the start of the buffer: overlapping regions are undefined.\<close>

definition compact :: "client \<Rightarrow> client outcome" where
  "compact c =
     (if BUFSIZE - buf_idx c - buf_len c < 100000 then
        (if 0 \<le> buf_idx c \<and> 0 \<le> buf_len c \<and> buf_idx c + buf_len c \<le> BUFSIZE \<and>
            (buf_len c = 0 \<or> buf_len c \<le> buf_idx c)
         then Ret (c\<lparr>buf := poke (buf c) 0 (peek (buf c) (buf_idx c) (nat (buf_len c))), buf_idx := 0\<rparr>)
         else Undef)
      else Ret c)"

type_synonym read_state = "int option \<times> byte list \<times> client \<times> world \<times> write_result list"

text \<open>
  The rest of \<open>on_read\<close> after \<open>recv\<close>. The first component is the value returned: \<open>None\<close> when the
  function ends without a return statement.
\<close>

definition on_data :: "env \<Rightarrow> nat \<Rightarrow> client \<Rightarrow> world \<Rightarrow> write_result list \<Rightarrow> read_state outcome" where
  "on_data e cid c w ws =
     and_then (client_exec_commands exec_fuel e cid c w) (\<lambda>(keep_alive, c1, w1).
     and_then (compact c1) (\<lambda>c2.
     and_then (if output_valid c2
               then and_then (client_flush_offset (output_offset c2) c2 ws) (\<lambda>(out, c3, ws').
                      Ret (out, (client_clear c3)\<lparr>time_valid := 1, output_valid := False\<rparr>, ws'))
               else Ret ([], c2, ws)) (\<lambda>(out, c4, ws').
     Ret (if keep_alive then None else Some 1, out, c4, w1, ws'))))"

definition store_received :: "byte list \<Rightarrow> client \<Rightarrow> client option" where
  "store_received bs c =
     (if 0 \<le> get_buffer c \<and> get_buffer c + int (length bs) \<le> BUFSIZE
      then Some (c\<lparr>buf := poke (buf c) (get_buffer c) bs, buf_len := buf_len c + int (length bs)\<rparr>)
      else None)"

definition on_read :: "env \<Rightarrow> nat \<Rightarrow> client \<Rightarrow> world \<Rightarrow> recv_result \<Rightarrow> write_result list \<Rightarrow>
    read_state outcome" where
  "on_read e cid c w rr ws =
     (case rr of
        RecvError \<Rightarrow> Ret (Some 1, [], c, w, ws)
      | RecvWouldBlock \<Rightarrow> on_data e cid (c\<lparr>buf_len := buf_len c - 1\<rparr>) w ws
      | Received bs \<Rightarrow>
          (let got = take (nat (to_size_t (BUFSIZE - buf_idx c - buf_len c))) bs
           in if got = [] then Ret (Some 1, [], c, w, ws)
              else and_then (defined (store_received got c)) (\<lambda>c1. on_data e cid c1 w ws)))"

definition buse_on_read :: "env \<Rightarrow> nat \<Rightarrow> client \<Rightarrow> world \<Rightarrow> recv_result \<Rightarrow> write_result list \<Rightarrow>
    read_state outcome" where
  "buse_on_read = on_read"

definition busefs_on_read :: "env \<Rightarrow> nat \<Rightarrow> client \<Rightarrow> world \<Rightarrow> recv_result \<Rightarrow> write_result list \<Rightarrow>
    read_state outcome" where
  "busefs_on_read = on_read"

text \<open>
  The version of \<open>multi_server.cpp\<close>: it asks for \<open>BUFSIZE\<close> bytes wherever the data ends, never moves
  the data, and flushes only when the input is empty.
\<close>

definition multi_on_data :: "env \<Rightarrow> nat \<Rightarrow> client \<Rightarrow> world \<Rightarrow> write_result list \<Rightarrow> read_state outcome" where
  "multi_on_data e cid c w ws =
     and_then (client_exec_commands exec_fuel e cid c w) (\<lambda>(keep_alive, c1, w1).
     and_then (if output_valid c1 \<and> buf_idx c1 + buf_len c1 = 0
               then and_then (client_flush_offset (output_offset c1) c1 ws) (\<lambda>(out, c2, ws').
                      Ret (out, (client_clear c2)\<lparr>time_valid := 1\<rparr>, ws'))
               else Ret ([], c1, ws)) (\<lambda>(out, c3, ws').
     Ret (if keep_alive then None else Some 1, out, c3\<lparr>output_valid := False\<rparr>, w1, ws')))"

definition multi_on_read :: "env \<Rightarrow> nat \<Rightarrow> client \<Rightarrow> world \<Rightarrow> recv_result \<Rightarrow> write_result list \<Rightarrow>
    read_state outcome" where
  "multi_on_read e cid c w rr ws =
     (case rr of
        RecvError \<Rightarrow> Ret (Some 1, [], c, w, ws)
      | RecvWouldBlock \<Rightarrow> multi_on_data e cid (c\<lparr>buf_len := buf_len c - 1\<rparr>) w ws
      | Received bs \<Rightarrow>
          (let got = take (nat BUFSIZE) bs
           in if got = [] then Ret (Some 1, [], c, w, ws)
              else and_then (defined (store_received got c)) (\<lambda>c1. multi_on_data e cid c1 w ws)))"

section \<open>Finished requests\<close>

text \<open>
  \<open>end_req\<close>: \<open>None\<close> is the spinning loop while the queue is full. The counters and times that only
  feed \<open>printf\<close> are left out.
\<close>

definition end_req :: "req \<Rightarrow> world \<Rightarrow> req mpmc \<Rightarrow> (world \<times> req mpmc) option" where
  "end_req r w q =
     (if req_type r = 1 then Some (free_req r w, q)
      else (case mpmc_enq r q of (ok, q') \<Rightarrow> if ok then Some (w, q') else None))"

text \<open>One pass of the loop of \<open>end_req_q_handler\<close> for the request \<open>r\<close> taken off the queue.\<close>

type_synonym handler_state = "byte list \<times> client \<times> world \<times> write_result list"

definition flush_and_clear :: "client \<Rightarrow> write_result list \<Rightarrow> (byte list \<times> client \<times> write_result list) outcome" where
  "flush_and_clear c ws =
     and_then (client_flush_offset 0 c ws) (\<lambda>(out, c1, ws'). Ret (out, client_clear c1, ws'))"

definition answer :: "byte \<Rightarrow> bool \<Rightarrow> req \<Rightarrow> client \<Rightarrow> world \<Rightarrow> write_result list \<Rightarrow> handler_state outcome" where
  "answer fill frees r c w ws =
     (if req_type r = 2 then
        and_then (defined (client_write_bulk (replicate 8192 fill) 8192 c)) (\<lambda>c1.
        and_then (flush_and_clear c1 ws) (\<lambda>(out, c2, ws').
        Ret (out, c2, if frees then free_req r w else w, ws')))
      else if req_type r = 1 then
        and_then (defined (client_write (''+OK'' @ [CR, LF]) 5 c)) (\<lambda>c1.
        and_then (flush_and_clear c1 ws) (\<lambda>(out, c2, ws'). Ret (out, c2, w, ws')))
      else
        and_then (defined (client_write (''$-1'' @ [CR, LF]) 5 c)) (\<lambda>c1.
        and_then (flush_and_clear c1 ws) (\<lambda>(out, c2, ws').
        Ret (out, c2, if frees then free_req r w else w, ws'))))"

definition end_req_q_handler :: "req \<Rightarrow> client \<Rightarrow> world \<Rightarrow> write_result list \<Rightarrow> handler_state outcome" where
  "end_req_q_handler = answer NUL True"

definition buse_end_req_q_handler :: "req \<Rightarrow> client \<Rightarrow> world \<Rightarrow> write_result list \<Rightarrow> handler_state outcome" where
  "buse_end_req_q_handler = answer (CHR ''c'') True"

definition busefs_end_req_q_handler :: "req \<Rightarrow> client \<Rightarrow> world \<Rightarrow> write_result list \<Rightarrow> handler_state outcome" where
  "busefs_end_req_q_handler = answer NUL False"

section \<open>What reading keeps\<close>

lemma compact_inv:
  assumes inv: "parser_inv c" and r: "compact c = Ret c'"
  shows "parser_inv c'" and "unread c' = unread c" and "fd c' = fd c"
    and "min 100000 (BUFSIZE - buf_len c') \<le> BUFSIZE - buf_idx c' - buf_len c'"
proof -
  consider "c' = c" "\<not> BUFSIZE - buf_idx c - buf_len c < 100000"
    | "c' = c\<lparr>buf := poke (buf c) 0 (peek (buf c) (buf_idx c) (nat (buf_len c))), buf_idx := 0\<rparr>"
    using r by (auto simp: compact_def split: if_splits)
  then have "parser_inv c' \<and> unread c' = unread c \<and> fd c' = fd c \<and>
    min 100000 (BUFSIZE - buf_len c') \<le> BUFSIZE - buf_idx c' - buf_len c'"
  proof cases
    case 1
    then show ?thesis using inv by (simp add: parser_inv_def)
  next
    case 2
    have "unread c' = unread c"
      using peek_poke_same [of "buf c" 0 "unread c"] by (simp add: 2 unread_def)
    then show ?thesis using inv by (simp add: 2 parser_inv_def)
  qed
  then show "parser_inv c'" and "unread c' = unread c" and "fd c' = fd c"
    and "min 100000 (BUFSIZE - buf_len c') \<le> BUFSIZE - buf_idx c' - buf_len c'"
    by blast+
qed

lemma flush_same: "client_flush_offset k c ws = Ret (out, c', ws') \<Longrightarrow> input_same c c'"
  by (auto simp: client_flush_offset_def input_same_def split: if_splits)

lemma store_received_unread:
  assumes inv: "parser_inv c" and s: "store_received bs c = Some c'"
  shows "parser_inv c' \<and> unread c' = unread c @ bs \<and> fd c' = fd c"
proof -
  have c': "c' = c\<lparr>buf := poke (buf c) (get_buffer c) bs, buf_len := buf_len c + int (length bs)\<rparr>"
    "get_buffer c + int (length bs) \<le> BUFSIZE"
    using s by (auto simp: store_received_def split: if_splits)
  have i: "0 \<le> buf_idx c" "0 \<le> buf_len c" using inv by (simp_all add: parser_inv_def)
  have n: "nat (buf_len c + int (length bs)) = nat (buf_len c) + length bs" using i by simp
  have "unread c' = peek (poke (buf c) (get_buffer c) bs) (buf_idx c) (nat (buf_len c)) @
      peek (poke (buf c) (get_buffer c) bs) (get_buffer c) (length bs)"
    using i by (simp add: c'(1) unread_def n peek_append get_buffer_def)
  also have "\<dots> = unread c @ bs"
    using i by (simp add: peek_poke_before peek_poke_same unread_def get_buffer_def)
  finally show ?thesis using inv c' by (simp add: parser_inv_def get_buffer_def)
qed

lemma on_data_inv:
  assumes inv: "parser_inv c" and r: "on_data e cid c w ws = Ret (ret, out, c', w', ws')"
  shows "parser_inv c' \<and> (\<exists>k. unread c' = drop k (unread c)) \<and> fd c' = fd c \<and>
    min 100000 (BUFSIZE - buf_len c') \<le> BUFSIZE - buf_idx c' - buf_len c'"
proof -
  obtain keep c1 w1 c2 where exec: "client_exec_commands exec_fuel e cid c w = Ret (keep, c1, w1)"
    and comp: "compact c1 = Ret c2"
    using r by (auto simp: on_data_def)
  have same: "input_same c2 c'"
    using r exec comp flush_same [of "output_offset c2" c2 ws]
    by (auto simp: on_data_def client_clear_def input_same_def split: if_splits)
  note c1 = exec_commands_inv [OF inv exec]
  note c2 = compact_inv [OF conjunct1 [OF c1] comp]
  show ?thesis using c1 c2 same input_same_inv [OF same c2(1)]
    by (simp add: input_same_def unread_def)
qed

definition client_ok :: "client \<Rightarrow> bool" where
  "client_ok c \<longleftrightarrow> parser_inv c \<and> min 100000 (BUFSIZE - buf_len c) \<le> BUFSIZE - buf_idx c - buf_len c"

lemma client_new_ok: "client_ok (client_new b out)"
  by (simp add: client_ok_def parser_inv_def client_new_def BUFSIZE_def)

lemma on_read_inv:
  assumes inv: "parser_inv c" and room: "min 100000 (BUFSIZE - buf_len c) \<le> BUFSIZE - buf_idx c - buf_len c"
    and r: "on_read e cid c w (Received bs) ws = Ret (ret, out, c', w', ws')"
  shows "parser_inv c' \<and>
    (\<exists>k. unread c' = drop k (unread c @ take (nat (BUFSIZE - buf_idx c - buf_len c)) bs)) \<and>
    min 100000 (BUFSIZE - buf_len c') \<le> BUFSIZE - buf_idx c' - buf_len c' \<and> fd c' = fd c"
proof -
  have siz: "to_size_t (BUFSIZE - buf_idx c - buf_len c) = BUFSIZE - buf_idx c - buf_len c"
    using inv by (intro to_size_t_id) (auto simp: parser_inv_def BUFSIZE_def)
  let ?got = "take (nat (BUFSIZE - buf_idx c - buf_len c)) bs"
  show ?thesis
  proof (cases "?got = []")
    case True
    then have "c' = c" using r siz by (auto simp: on_read_def Let_def)
    then show ?thesis using inv room True by (intro conjI exI [of _ 0]) auto
  next
    case False
    then obtain c1 where c1: "store_received ?got c = Some c1"
      and data: "on_data e cid c1 w ws = Ret (ret, out, c', w', ws')"
      using r siz by (auto simp: on_read_def Let_def)
    from store_received_unread [OF inv c1] on_data_inv [OF _ data] show ?thesis by metis
  qed
qed

text \<open>The version of \<open>multi_server.cpp\<close>.\<close>

lemma multi_on_data_inv:
  assumes inv: "parser_inv c" and r: "multi_on_data e cid c w ws = Ret (ret, out, c', w', ws')"
  shows "parser_inv c' \<and> (\<exists>k. unread c' = drop k (unread c))"
proof -
  obtain keep c1 w1 where exec: "client_exec_commands exec_fuel e cid c w = Ret (keep, c1, w1)"
    using r by (auto simp: multi_on_data_def)
  have same: "input_same c1 c'"
    using r exec flush_same [of "output_offset c1" c1 ws]
    by (auto simp: multi_on_data_def client_clear_def input_same_def split: if_splits)
  note c1 = exec_commands_inv [OF inv exec]
  show ?thesis using c1 same input_same_inv [OF same conjunct1 [OF c1]]
    by (simp add: input_same_def unread_def)
qed

lemma multi_on_read_overflow:
  assumes "bs \<noteq> []" and "BUFSIZE < get_buffer c + int (length (take (nat BUFSIZE) bs))"
  shows "multi_on_read e cid c w (Received bs) ws = Undef"
proof -
  have "take (nat BUFSIZE) bs \<noteq> []" using assms(1) by (simp add: BUFSIZE_def)
  moreover have "store_received (take (nat BUFSIZE) bs) c = None" using assms(2) by (simp add: store_received_def)
  ultimately show ?thesis by (simp add: multi_on_read_def Let_def)
qed

lemma multi_on_read_inv:
  assumes inv: "parser_inv c" and r: "multi_on_read e cid c w (Received bs) ws = Ret (ret, out, c', w', ws')"
  shows "parser_inv c' \<and> (\<exists>k. unread c' = drop k (unread c @ take (nat BUFSIZE) bs))"
proof (cases "take (nat BUFSIZE) bs = []")
  case True
  then have "c' = c" using r by (simp add: multi_on_read_def Let_def)
  then show ?thesis using inv True by (intro conjI exI [of _ 0]) simp_all
next
  case False
  then obtain c1 where c1: "store_received (take (nat BUFSIZE) bs) c = Some c1"
    and data: "multi_on_data e cid c1 w ws = Ret (ret, out, c', w', ws')"
    using r by (auto simp: multi_on_read_def Let_def)
  from store_received_unread [OF inv c1] multi_on_data_inv [OF _ data] show ?thesis by metis
qed

section \<open>Properties\<close>

text \<open>
  C15: a read that returns keeps the buffer indices valid; what is unread afterwards is a rest of the
  old unread bytes followed by the bytes received, and at least 100000 bytes (or all but the unread
  ones) are free at the end of the buffer for the next read.
\<close>

theorem on_read_keeps:
  assumes inv: "parser_inv c" and room: "min 100000 (BUFSIZE - buf_len c) \<le> BUFSIZE - buf_idx c - buf_len c"
    and r: "on_read e cid c w (Received bs) ws = Ret (ret, out, c', w', ws')"
  shows "parser_inv c' \<and>
    (\<exists>k. unread c' = drop k (unread c @ take (nat (BUFSIZE - buf_idx c - buf_len c)) bs)) \<and>
    min 100000 (BUFSIZE - buf_len c') \<le> BUFSIZE - buf_idx c' - buf_len c'"
  using on_read_inv [OF assms] by blast

theorem on_read_keeps_witness:
  "\<exists>ret out c' w' ws'. on_read sample_env 5 (client_of []) init_world (Received ''*'') [] =
      Ret (ret, out, c', w', ws') \<and> parser_inv c' \<and> (\<exists>k. unread c' = drop k ''*'')"
proof -
  let ?c = "client_of []"
  have inv: "parser_inv ?c" by (rule client_of_inv) (simp add: BUFSIZE_def)
  have f: "buf_idx ?c = 0" "buf_len ?c = 0" by (simp_all add: client_of_def client_new_def)
  obtain c1 where c1: "store_received ''*'' ?c = Some c1"
    by (simp add: store_received_def get_buffer_def f BUFSIZE_def)
  then have c1_eq: "c1 = ?c\<lparr>buf := poke (buf ?c) 0 ''*'', buf_len := 1\<rparr>"
    by (auto simp: store_received_def get_buffer_def f split: if_splits)
  have u: "parser_inv c1" "unread c1 = ''*''"
    using store_received_unread [OF inv c1] client_of_unread [of "[]"] by simp_all
  have read: "client_read_command c1 = Some (Some ERR_INCOMPLETE, c1\<lparr>args_len := 0\<rparr>)"
    by (rule count_cut [OF u(1), of 1 0]) (simp_all add: u(2))
  have data: "on_data e 5 c1 w [] = Ret (None, [], c1\<lparr>args_len := 0\<rparr>, w, [])" for e w
  proof -
    let ?d = "c1\<lparr>args_len := 0\<rparr>"
    have "client_exec_commands exec_fuel e 5 c1 w = Ret (True, ?d, w)"
      unfolding exec_fuel_def add_2_eq_Suc' client_exec_commands.simps read by simp
    moreover have "compact ?d = Ret ?d"
      by (simp add: compact_def c1_eq f BUFSIZE_def)
    moreover have "\<not> output_valid ?d" by (simp add: c1_eq client_of_def client_new_def)
    ultimately show ?thesis by (simp only: on_data_def and_then.simps prod.case if_True if_False)
  qed
  have got: "take (nat (to_size_t (BUFSIZE - buf_idx ?c - buf_len ?c))) ''*'' = ''*''"
    "take (nat (BUFSIZE - buf_idx ?c - buf_len ?c)) ''*'' = ''*''"
    by (simp_all add: to_size_t_def f BUFSIZE_def)
  have read: "on_read sample_env 5 ?c init_world (Received ''*'') [] =
      Ret (None, [], c1\<lparr>args_len := 0\<rparr>, init_world, [])"
    by (simp add: on_read_def got(1) c1 data Let_def)
  have "min 100000 (BUFSIZE - buf_len ?c) \<le> BUFSIZE - buf_idx ?c - buf_len ?c"
    by (simp add: f BUFSIZE_def)
  from on_read_keeps [OF inv this read] read show ?thesis
    unfolding got(2) client_of_unread by auto
qed

lemma get_answer_run:
  assumes out: "output_inv c" "output_len c + 8201 \<le> OUTPUT_BUFSIZE" and r: "req_type r = 2"
    and ws: "\<forall>x \<in> set ws. \<exists>n. x = Wrote n" "output_len c + 8201 \<le> int (taken ws)"
  shows "\<exists>c' ws'. answer fill frees r c w ws =
      Ret (output_bytes c @ ''$8192'' @ [CR, LF] @ replicate 8192 fill @ [CR, LF], c',
        if frees then free_req r w else w, ws') \<and> output_len c' = 0"
proof -
  have dec: "dec (length (replicate 8192 fill)) = ''8192''" by (simp only: length_replicate dec_8192)
  have "\<exists>c1. client_write_bulk (replicate 8192 fill) (int (length (replicate 8192 fill))) c = Some c1 \<and>
      output_inv c1 \<and> output_bytes c1 = output_bytes c @
        CHR ''$'' # dec (length (replicate 8192 fill)) @ [CR, LF] @ replicate 8192 fill @ [CR, LF]"
    by (rule client_write_bulk_ok [OF out(1)])
      (use out(2) in \<open>simp add: dec_8192\<close>)
  then obtain c1 where c1: "client_write_bulk (replicate 8192 fill) 8192 c = Some c1" "output_inv c1"
    "output_bytes c1 = output_bytes c @ ''$8192'' @ [CR, LF] @ replicate 8192 fill @ [CR, LF]"
    unfolding dec by auto
  have pos: "0 \<le> output_len c" "0 \<le> output_len c1" using out(1) c1(2) by (simp_all add: output_inv_def)
  have "length (output_bytes c1) = length (output_bytes c) + 8201" unfolding c1(3) by simp
  then have len: "output_len c1 = output_len c + 8201" using pos by (simp add: output_bytes_def)
  have "\<exists>c2 ws'. client_flush_offset 0 c1 ws =
        Ret (peek (out_buf c1) 0 (nat (output_len c1 - 0)), c2, ws') \<and>
      (0 < output_len c1 \<longrightarrow> c2 = c1\<lparr>output_len := 0\<rparr>)"
    by (rule client_flush_all [OF _ _ c1(2) ws(1)]) (use pos len ws(2) in simp_all)
  then obtain c2 ws' where c2: "client_flush_offset 0 c1 ws = Ret (output_bytes c1, c2, ws')"
    by (auto simp: output_bytes_def)
  have "answer fill frees r c w ws = Ret (output_bytes c1, client_clear c2, if frees then free_req r w else w, ws')"
    unfolding answer_def by (simp add: r c1(1) flush_and_clear_def c2)
  moreover have "output_len (client_clear c2) = 0" by (simp add: client_clear_def)
  ultimately show ?thesis unfolding c1(3) by blast
qed

text \<open>
  C16: the answer to a finished \<open>get\<close> when the socket takes all bytes: what was pending in the reply
  buffer, then a bulk string of 8192 zero bytes whatever the value of the key; the DMA buffer of the
  request is freed and the reply buffer is empty.
\<close>

theorem get_answer:
  assumes "output_inv c" and "output_len c + 8201 \<le> OUTPUT_BUFSIZE" and "req_type r = 2"
    and "\<forall>x \<in> set ws. \<exists>n. x = Wrote n" and "output_len c + 8201 \<le> int (taken ws)"
  shows "\<exists>c' w' ws'. end_req_q_handler r c w ws =
      Ret (output_bytes c @ ''$8192'' @ [CR, LF] @ replicate 8192 NUL @ [CR, LF], c', w', ws') \<and>
    output_len c' = 0 \<and> trace w' = trace w @ [DmaFree 2 (dmaTag r)]"
  using get_answer_run [OF assms, of NUL True w] assms(3)
  by (auto simp: end_req_q_handler_def free_req_def free_dma_def Let_def)

theorem get_answer_witness:
  "\<exists>c' w' ws'. end_req_q_handler (alloc_req\<lparr>req_type := 2, dmaTag := 6\<rparr>) (client_of []) init_world [Wrote 9000] =
      Ret ([] @ ''$8192'' @ [CR, LF] @ replicate 8192 NUL @ [CR, LF], c', w', ws') \<and>
    trace w' = [DmaFree 2 6]"
proof -
  have "output_inv (client_of [])" "output_len (client_of []) + 8201 \<le> OUTPUT_BUFSIZE"
    "output_len (client_of []) + 8201 \<le> int (taken [Wrote 9000])" and out: "output_bytes (client_of []) = []"
    by (simp_all add: client_of_def client_new_def output_inv_def OUTPUT_BUFSIZE_def output_bytes_def)
  from get_answer [OF this(1,2) _ _ this(3), of "alloc_req\<lparr>req_type := 2, dmaTag := 6\<rparr>" init_world] out
  show ?thesis by (auto simp: init_world_def)
qed

text \<open>
  C27: a read of \<open>multi_server.cpp\<close> is undefined when the bytes received do not fit behind the unread
  ones, which it never moves; a read that returns keeps the buffer indices valid and leaves a rest of
  the unread bytes and those received.
\<close>

theorem multi_read_bounds:
  assumes "parser_inv c"
  shows "(bs \<noteq> [] \<and> BUFSIZE < get_buffer c + int (length (take (nat BUFSIZE) bs)) \<longrightarrow>
       multi_on_read e cid c w (Received bs) ws = Undef) \<and>
    (\<forall>ret out c' w' ws'. multi_on_read e cid c w (Received bs) ws = Ret (ret, out, c', w', ws') \<longrightarrow>
       parser_inv c' \<and> (\<exists>k. unread c' = drop k (unread c @ take (nat BUFSIZE) bs)))"
  using multi_on_read_overflow multi_on_read_inv [OF assms] by blast

theorem multi_read_bounds_witness:
  "multi_on_read sample_env 5 ((client_of [])\<lparr>buf_idx := BUFSIZE - 1\<rparr>) init_world (Received ''GET'') [] = Undef"
proof -
  let ?c = "(client_of [])\<lparr>buf_idx := BUFSIZE - 1\<rparr>"
  have inv: "parser_inv ?c"
    using client_of_inv [of "[]"] by (simp add: parser_inv_def client_of_def client_new_def BUFSIZE_def)
  have "BUFSIZE < get_buffer ?c + int (length (take (nat BUFSIZE) ''GET''))"
    by (simp add: get_buffer_def client_of_def client_new_def BUFSIZE_def)
  then show ?thesis using multi_read_bounds [OF inv, of "''GET''" sample_env 5 init_world "[]"] by simp
qed

end
