(* ===== verification/Growth.thy ===== *)
theory Growth
  imports Server
begin

text \<open>
  What the command handlers do to the \<open>world\<close>: each of them only allocates DMA buffers for requests of
  the types 1 and 2 and submits them, or submits requests of type 3, for the client whose command it
  executes. The locale \<open>world_growth\<close> lifts any relation that is closed under these steps from
  \<open>make_req\<close> to every handler, the dispatch, the command loop and \<open>on_read\<close>.
\<close>

lemma exec_scan_world:
  assumes "exec_scan e cid c w = Ret (err, c', w')"
  shows "w' = w"
proof (cases "args_len c < 2")
  case False
  then obtain cursor where cursor: "Option.bind (arg_string c 1) atop = Some cursor"
    using assms by (auto simp: exec_scan_def)
  show ?thesis
  proof (cases "cursor < 0")
    case nonneg: False
    then obtain opts where "scan_options (nat (args_len c - 2)) 2 c ''*'' = Some opts"
      using assms False cursor by (auto simp: exec_scan_def)
    then show ?thesis using assms False cursor nonneg by (cases opts) (auto simp: exec_scan_def)
  qed (use assms False cursor in \<open>simp add: exec_scan_def\<close>)
qed (use assms in \<open>simp add: exec_scan_def\<close>)

lemma exec_keys_world: "exec_keys e cid c w = Ret (err, c', w') \<Longrightarrow> w' = w"
  by (auto simp: exec_keys_def split: if_splits)

lemma alloc_dma_fields:
  "req_type (fst (alloc_dma e r w)) = req_type r" "req_client (fst (alloc_dma e r w)) = req_client r"
  "dmaTag (fst (alloc_dma e r w)) = alloc_tag e (trace w)"
  "trace (snd (alloc_dma e r w)) = trace w @ [DmaAlloc (req_type r) (alloc_tag e (trace w))]"
  by (simp_all add: alloc_dma_def Let_def)

lemma fill_value_fields:
  "fill_value bs r = Some r' \<Longrightarrow>
     req_type r' = req_type r \<and> req_client r' = req_client r \<and> dmaTag r' = dmaTag r"
  by (auto simp: fill_value_def split: option.splits if_splits)

locale world_growth =
  fixes grows :: "nat \<Rightarrow> world \<Rightarrow> world \<Rightarrow> bool"
  assumes refl: "grows cid w w"
    and trans: "grows cid w w1 \<Longrightarrow> grows cid w1 w2 \<Longrightarrow> grows cid w w2"
    and alloc_make: "make_req e r2 (snd (alloc_dma e r w)) = Ret w2 \<Longrightarrow> req_type r2 = req_type r \<Longrightarrow>
      dmaTag r2 = alloc_tag e (trace w) \<Longrightarrow> req_type r \<in> {1, 2} \<Longrightarrow> req_client r2 = Some cid \<Longrightarrow> grows cid w w2"
    and make_del: "make_req e r w = Ret w' \<Longrightarrow> req_type r = 3 \<Longrightarrow> dmaTag r = 0 \<Longrightarrow>
      req_client r = Some cid \<Longrightarrow> grows cid w w'"
begin

declare refl [simp]

lemma get_then_make:
  assumes "make_req e (fst (alloc_dma e r w)) (snd (alloc_dma e r w)) = Ret w2"
    and "req_type r \<in> {1, 2}" and "req_client r = Some cid"
  shows "grows cid w w2"
  using alloc_make [OF assms(1)] assms(2,3) by (simp add: alloc_dma_fields)

lemma fill_then_make:
  assumes "fill_value bs (fst (alloc_dma e r w)) = Some r1" and "make_req e r1 (snd (alloc_dma e r w)) = Ret w2"
    and "req_type r \<in> {1, 2}" and "req_client r = Some cid"
  shows "grows cid w w2"
  using alloc_make [OF assms(2)] fill_value_fields [OF assms(1)] assms(3,4) by (simp add: alloc_dma_fields)

lemma exec_set_grows: "exec_set e cid c w = Ret (err, c', w') \<Longrightarrow> grows cid w w'"
  by (auto simp: exec_set_def Let_def case_prod_unfold split: if_splits dest: fill_then_make)

lemma exec_upt_grows: "exec_upt e cid c w = Ret (err, c', w') \<Longrightarrow> grows cid w w'"
  by (auto simp: exec_upt_def Let_def case_prod_unfold split: if_splits dest: fill_then_make)

lemma exec_get_grows: "exec_get e cid c w = Ret (err, c', w') \<Longrightarrow> grows cid w w'"
  by (auto simp: exec_get_def Let_def case_prod_unfold split: if_splits dest: get_then_make)

lemma exec_del_grows: "exec_del e cid c w = Ret (err, c', w') \<Longrightarrow> grows cid w w'"
  by (auto simp: exec_del_def alloc_req_def split: if_splits dest: make_del)

lemma mset_loop_grows: "mset_loop n i e cid c w = Ret w' \<Longrightarrow> grows cid w w'"
proof (induction n arbitrary: i w)
  case (Suc n)
  then obtain key w1 where
    "make_req e (fst (alloc_dma e (alloc_req\<lparr>req_client := Some cid, req_key := key, req_type := 1\<rparr>) w))
       (snd (alloc_dma e (alloc_req\<lparr>req_client := Some cid, req_key := key, req_type := 1\<rparr>) w)) = Ret w1"
    "mset_loop n (i + 2) e cid c w1 = Ret w'"
    by (auto simp: Let_def case_prod_unfold)
  from trans [OF get_then_make [OF this(1)] Suc.IH [OF this(2)]] show ?case by simp
qed simp

lemma mget_loop_grows: "mget_loop n i e cid c w = Ret w' \<Longrightarrow> grows cid w w'"
proof (induction n arbitrary: i w)
  case (Suc n)
  then obtain key w1 where
    "make_req e (fst (alloc_dma e (alloc_req\<lparr>req_key := key, req_type := 2, req_client := Some cid\<rparr>) w))
       (snd (alloc_dma e (alloc_req\<lparr>req_key := key, req_type := 2, req_client := Some cid\<rparr>) w)) = Ret w1"
    "mget_loop n (i + 1) e cid c w1 = Ret w'"
    by (auto simp: Let_def case_prod_unfold)
  from trans [OF get_then_make [OF this(1)] Suc.IH [OF this(2)]] show ?case by simp
qed simp

lemma exec_mset_grows: "exec_mset e cid c w = Ret (err, c', w') \<Longrightarrow> grows cid w w'"
  by (auto simp: exec_mset_def dest: mset_loop_grows)

lemma exec_mget_grows: "exec_mget e cid c w = Ret (err, c', w') \<Longrightarrow> grows cid w w'"
  by (auto simp: exec_mget_def Let_def split: if_splits dest: mget_loop_grows)

lemmas handlers_grow = exec_set_grows exec_upt_grows exec_get_grows exec_del_grows
  exec_mset_grows exec_mget_grows

lemma handler_grows:
  assumes "(name, h) \<in> set commands" and "h e cid c w = Ret (err, c', w')"
  shows "grows cid w w'"
  using assms
  by (auto simp: commands_def exec_quit_def exec_flushdb_def exec_ok_def exec_ko_def exec_bulk_def
      exec_not_def split: if_splits dest: handlers_grow exec_scan_world exec_keys_world)

lemma dispatch_grows:
  assumes "dispatch cmds e cid c w = Ret (err, c', w')" and "set cmds \<subseteq> set commands"
  shows "grows cid w w'"
  using assms
proof (induction cmds)
  case (Cons cmd cmds)
  then show ?case using handler_grows [of "fst cmd" "snd cmd" e cid c w err c' w']
    by (cases cmd) (auto split: option.splits bool.splits)
qed auto

lemma exec_command_grows: "exec_command e cid c w = Ret (err, c', w') \<Longrightarrow> grows cid w w'"
  by (auto simp: exec_command_def split: if_splits dest: dispatch_grows)

lemma exec_commands_grow:
  "client_exec_commands n e cid c w = Ret (keep, c', w') \<Longrightarrow> grows cid w w'"
proof (induction n arbitrary: c w)
  case (Suc n)
  obtain err c1 where read: "client_read_command c = Some (err, c1)"
    using Suc.prems by auto
  show ?case
  proof (cases err)
    case (Some m)
    then show ?thesis using Suc.prems read by (cases m) auto
  next
    case None
    then obtain err2 c2 w2 where exec: "exec_command e cid c1 w = Ret (err2, c2, w2)"
      using Suc.prems read by auto
    note sub = exec_command_grows [OF exec]
    show ?thesis
    proof (cases err2)
      case None
      then have "client_exec_commands n e cid c2 w2 = Ret (keep, c', w')"
        using Suc.prems read exec \<open>err = None\<close> by simp
      from trans [OF sub Suc.IH [OF this]] show ?thesis .
    next
      case (Some m)
      then show ?thesis using Suc.prems read exec \<open>err = None\<close> sub by (cases m) auto
    qed
  qed
qed simp

lemma on_data_grows: "on_data e cid c w ws = Ret (ret, out, c', w', ws') \<Longrightarrow> grows cid w w'"
  by (auto simp: on_data_def dest: exec_commands_grow)

lemma on_read_grows: "on_read e cid c w rr ws = Ret (ret, out, c', w', ws') \<Longrightarrow> grows cid w w'"
  by (auto simp: on_read_def Let_def split: recv_result.splits if_splits dest: on_data_grows)

end

end
