(* ===== verification/System.thy ===== *)
theory System
  imports Growth
begin

text \<open>
  The server as a whole: the polling thread reads from the connections and submits requests to the
  storage engine, the engine finishes requests in any order, and the answering thread takes the
  finished ones off the queue. One step is one \<open>on_read\<close>, one \<open>end_req\<close>, one \<open>dequeue\<close> of the answering
  thread or the rest of its pass, or a connection that opens or closes; the steps of the threads
  interleave. A finished request whose client is gone has no step: the code uses freed memory there.
  \<open>engine\<close> and \<open>finished\<close> are the requests the engine holds and those that are done, \<open>answering\<close> is
  the one the answering thread has taken, \<open>sent\<close> the bytes sent on each connection.
\<close>

record server =
  conns :: "nat \<Rightarrow> client option"
  wld :: world
  engine :: "req list"
  endq :: "req mpmc"
  answering :: "req option"
  finished :: "req list"
  sent :: "nat \<Rightarrow> byte list"

text \<open>After \<open>on_read\<close> the engine has the requests that were submitted meanwhile.\<close>

definition after_read :: "nat \<Rightarrow> byte list \<Rightarrow> client \<Rightarrow> world \<Rightarrow> server \<Rightarrow> server" where
  "after_read i out c' w' s = s\<lparr>conns := (conns s)(i \<mapsto> c'), wld := w',
     engine := engine s @ drop (length (submitted (trace (wld s)))) (submitted (trace w')),
     sent := (sent s)(i := sent s i @ out)\<rparr>"

inductive server_step :: "env \<Rightarrow> server \<Rightarrow> server \<Rightarrow> bool" for e where
  step_open: "conns s i = None \<Longrightarrow>
    server_step e s (s\<lparr>conns := (conns s)(i \<mapsto> (client_new b out)\<lparr>fd := sd, which_queue := j\<rparr>), sent := (sent s)(i := [])\<rparr>)"
| step_close: "conns s i = Some c \<Longrightarrow> server_step e s (s\<lparr>conns := (conns s)(i := None)\<rparr>)"
| step_read: "conns s i = Some c \<Longrightarrow> on_read e i c (wld s) rr ws = Ret (ret, out, c', w', ws') \<Longrightarrow>
    server_step e s (after_read i out c' w' s)"
| step_done: "engine s = xs @ r # ys \<Longrightarrow> req_type r' = req_type r \<or> req_type r' \<noteq> 1 \<Longrightarrow>
    req_client r' = req_client r \<Longrightarrow> req_key r' = req_key r \<Longrightarrow> dmaTag r' = dmaTag r \<Longrightarrow>
    end_req r' (wld s) (endq s) = Some (w', q') \<Longrightarrow>
    server_step e s (s\<lparr>wld := w', engine := xs @ ys, endq := q',
      finished := (if req_type r' = 1 then finished s @ [r'] else finished s)\<rparr>)"
| step_take: "answering s = None \<Longrightarrow> mpmc_deq (endq s) = (Some r, q') \<Longrightarrow>
    server_step e s (s\<lparr>endq := q', answering := Some r\<rparr>)"
| step_answer: "answering s = Some r \<Longrightarrow> req_client r = Some i \<Longrightarrow> conns s i = Some c \<Longrightarrow>
    end_req_q_handler r c (wld s) ws = Ret (out, c', w', ws') \<Longrightarrow>
    server_step e s (s\<lparr>conns := (conns s)(i \<mapsto> c'), wld := w', answering := None,
      finished := finished s @ [r], sent := (sent s)(i := sent s i @ out)\<rparr>)"

definition start_server :: "req mpmc \<Rightarrow> server" where
  "start_server q = \<lparr>conns = Map.empty, wld = init_world, engine = [], endq = q, answering = None,
     finished = [], sent = (\<lambda>_. [])\<rparr>"

inductive server_reachable :: "env \<Rightarrow> req mpmc \<Rightarrow> server \<Rightarrow> bool" for e q where
  serve_start: "server_reachable e q (start_server q)"
| serve_step: "server_reachable e q s \<Longrightarrow> server_step e s s' \<Longrightarrow> server_reachable e q s'"

section \<open>What executing commands adds to the trace\<close>

text \<open>The tags of the DMA buffers that were allocated and of those that were freed, in order.\<close>

fun allocs :: "event list \<Rightarrow> int list" where
  "allocs [] = []"
| "allocs (DmaAlloc t u # es) = u # allocs es"
| "allocs (ev # es) = allocs es"

fun frees :: "event list \<Rightarrow> int list" where
  "frees [] = []"
| "frees (DmaFree t u # es) = u # frees es"
| "frees (ev # es) = frees es"

definition dels :: "req list \<Rightarrow> nat" where
  "dels rs = length (filter (\<lambda>r. req_type r = 3) rs)"

lemma allocs_append [simp]: "allocs (es @ fs) = allocs es @ allocs fs"
  by (induction es rule: allocs.induct) simp_all

lemma frees_append [simp]: "frees (es @ fs) = frees es @ frees fs"
  by (induction es rule: frees.induct) simp_all

lemma profile_counts [simp]: "allocs (profile k) = []" "frees (profile k) = []"
  by (simp_all add: profile_def)

lemma dels_append [simp]: "dels (xs @ ys) = dels xs + dels ys" "dels [] = 0"
  by (simp_all add: dels_def)

text \<open>
  The new events free nothing, and every request they submit has the tag of a buffer allocated for it,
  or the tag 0 that \<open>calloc\<close> leaves if it is a \<open>del\<close>.
\<close>

definition tagged :: "event list \<Rightarrow> bool" where
  "tagged es \<longleftrightarrow> mset (map dmaTag (submitted es)) = mset (allocs es) + replicate_mset (dels (submitted es)) 0"

lemma tagged_append: "tagged es \<Longrightarrow> tagged fs \<Longrightarrow> tagged (es @ fs)"
proof -
  have "replicate_mset (m + n) x = replicate_mset m x + replicate_mset n x" for m n and x :: int
    by (induction m) simp_all
  then show "tagged es \<Longrightarrow> tagged fs \<Longrightarrow> tagged (es @ fs)" by (simp add: tagged_def)
qed

lemma tagged_free [simp]: "tagged (es @ [DmaFree t u]) = tagged es"
  by (simp add: tagged_def)

definition submits :: "world \<Rightarrow> world \<Rightarrow> bool" where
  "submits w w' \<longleftrightarrow> (\<exists>es. trace w' = trace w @ es \<and> frees es = [] \<and> tagged es)"

lemma submits_refl [simp]: "submits w w"
  by (auto simp: submits_def tagged_def intro!: exI [of _ "[]"])

lemma submits_trans: 
  assumes "submits w w1" and "submits w1 w2"
  shows "submits w w2"
proof -
  from assms obtain es fs where
    "trace w1 = trace w @ es" "frees es = []" "tagged es" "trace w2 = trace w1 @ fs" "frees fs = []" "tagged fs"
    by (auto simp: submits_def)
  then show ?thesis unfolding submits_def by (intro exI [of _ "es @ fs"]) (simp add: tagged_append)
qed

lemma make_req_events:
  assumes "make_req e r w = Ret w'"
  shows "\<exists>k. trace w' = trace w @ profile k @ [Submit (r\<lparr>req_key := to_uint64 (req_key r + 1)\<rparr>)]"
  using assms by (auto simp: make_req_def Let_def emit_def split: if_splits)

lemma alloc_make_submits:
  assumes "alloc_dma e r w = (r1, w1)" and "req_type r2 = req_type r" and "req_type r \<noteq> 3"
    and "make_req e r2 w1 = Ret w2" and "dmaTag r2 = alloc_tag e (trace w)"
  shows "submits w w2"
proof -
  obtain k where k: "trace w2 = trace w1 @ profile k @ [Submit (r2\<lparr>req_key := to_uint64 (req_key r2 + 1)\<rparr>)]"
    using make_req_events [OF assms(4)] by blast
  have "trace w1 = trace w @ [DmaAlloc (req_type r) (alloc_tag e (trace w))]"
    using assms(1) by (auto simp: alloc_dma_def Let_def)
  with k show ?thesis unfolding submits_def
    by (intro exI [of _ "[DmaAlloc (req_type r) (alloc_tag e (trace w))] @ profile k @
      [Submit (r2\<lparr>req_key := to_uint64 (req_key r2 + 1)\<rparr>)]"]) (simp add: assms(2,3,5) tagged_def dels_def)
qed

lemma del_submits:
  assumes "make_req e r w = Ret w'" and "req_type r = 3" and "dmaTag r = 0"
  shows "submits w w'"
proof -
  obtain k where "trace w' = trace w @ profile k @ [Submit (r\<lparr>req_key := to_uint64 (req_key r + 1)\<rparr>)]"
    using make_req_events [OF assms(1)] by blast
  then show ?thesis unfolding submits_def
    by (intro exI [of _ "profile k @ [Submit (r\<lparr>req_key := to_uint64 (req_key r + 1)\<rparr>)]"])
      (simp add: assms(2,3) tagged_def dels_def)
qed

text \<open>So does every handler and every \<open>on_read\<close>.\<close>

interpretation ledger: world_growth "\<lambda>_. submits"
proof
  fix e r r2 w w2
  assume "make_req e r2 (snd (alloc_dma e r w)) = Ret w2" "req_type r2 = req_type r"
    "dmaTag r2 = alloc_tag e (trace w)" "req_type r \<in> {1, 2}"
  then show "submits w w2" using alloc_make_submits [OF prod.collapse [symmetric], of r2 r e w w2] by auto
qed (auto intro: submits_trans del_submits)

section \<open>The invariant of the server\<close>

text \<open>A request is followed through the server by its client, its key and its DMA tag.\<close>

definition rid :: "req \<Rightarrow> nat option \<times> int \<times> int" where
  "rid r = (req_client r, req_key r, dmaTag r)"

definition taken_off :: "server \<Rightarrow> req list" where
  "taken_off s = (case answering s of None \<Rightarrow> [] | Some r \<Rightarrow> [r])"

definition server_inv :: "server \<Rightarrow> bool" where
  "server_inv s \<longleftrightarrow> mpmc_inv (endq s) \<and> (\<forall>r \<in> set (mpmc_items (endq s) @ taken_off s). req_type r \<noteq> 1) \<and>
     mset (map rid (submitted (trace (wld s)))) =
       mset (map rid (engine s @ mpmc_items (endq s) @ taken_off s @ finished s)) \<and>
     tagged (trace (wld s)) \<and> mset (frees (trace (wld s))) = mset (map dmaTag (finished s))"

lemma free_req_trace: "\<exists>t. trace (free_req r w) = trace w @ [DmaFree t (dmaTag r)]"
  by (auto simp: free_req_def free_dma_def Let_def)

lemma inv_free:
  assumes "trace w' = trace w @ [DmaFree t u]"
  shows "submitted (trace w') = submitted (trace w)" "allocs (trace w') = allocs (trace w)"
    "frees (trace w') = frees (trace w) @ [u]" "tagged (trace w') = tagged (trace w)"
  using assms by simp_all

lemma end_req_cases:
  assumes "end_req r w q = Some (w', q')" and "mpmc_inv q"
  obtains (set) t where "req_type r = 1" "q' = q" "trace w' = trace w @ [DmaFree t (dmaTag r)]"
    | (queued) "req_type r \<noteq> 1" "w' = w" "mpmc_inv q'" "mpmc_items q' = mpmc_items q @ [r]"
proof (cases "req_type r = 1")
  case True
  then show ?thesis using assms(1) free_req_trace [of r w] set by (auto simp: end_req_def)
next
  case False
  then have "mpmc_enq r q = (True, q')" "w' = w"
    using assms(1) by (auto simp: end_req_def split: prod.splits if_splits)
  then show ?thesis
    using mpmc.enq_invar [OF assms(2), of r] mpmc.enq_contents [OF assms(2), of r] queued False by simp
qed

lemma handler_frees:
  assumes "end_req_q_handler r c w ws = Ret (out, c', w', ws')" and "req_type r \<noteq> 1"
  shows "\<exists>t. trace w' = trace w @ [DmaFree t (dmaTag r)]"
proof -
  have "w' = free_req r w"
    using assms by (auto simp: end_req_q_handler_def answer_def split: if_splits)
  then show ?thesis using free_req_trace by simp
qed

lemma inv_read:
  assumes inv: "server_inv s" and sub: "submits (wld s) w'"
  shows "server_inv (after_read i out c' w' s)"
proof -
  obtain es where es: "trace w' = trace (wld s) @ es" "frees es = []" "tagged es"
    using sub by (auto simp: submits_def)
  moreover have "tagged (trace (wld s) @ es)" using tagged_append inv \<open>tagged es\<close> by (simp add: server_inv_def)
  ultimately show ?thesis using inv by (simp add: server_inv_def after_read_def taken_off_def)
qed

lemma inv_done:
  assumes inv: "server_inv s" and e: "engine s = xs @ r # ys" and id: "rid r' = rid r"
    and d: "end_req r' (wld s) (endq s) = Some (w', q')"
  shows "server_inv (s\<lparr>wld := w', engine := xs @ ys, endq := q',
    finished := (if req_type r' = 1 then finished s @ [r'] else finished s)\<rparr>)"
proof -
  have q: "mpmc_inv (endq s)" using inv by (simp add: server_inv_def)
  show ?thesis using d q
  proof (cases rule: end_req_cases)
    case (set t)
    then show ?thesis using inv e id inv_free [OF set(3)] by (simp add: server_inv_def taken_off_def)
  next
    case queued
    then show ?thesis using inv e id by (simp add: server_inv_def taken_off_def)
  qed
qed

lemma inv_take:
  assumes inv: "server_inv s" and idle: "answering s = None" and d: "mpmc_deq (endq s) = (Some r, q')"
  shows "server_inv (s\<lparr>endq := q', answering := Some r\<rparr>)"
proof -
  have q: "mpmc_inv (endq s)" using inv by (simp add: server_inv_def)
  have "mpmc_items (endq s) = r # mpmc_items q'" "mpmc_inv q'"
    using mpmc.deq_contents [OF q] mpmc.deq_invar [OF q] d by simp_all
  then show ?thesis using inv idle by (simp add: server_inv_def taken_off_def)
qed

lemma inv_answer:
  assumes inv: "server_inv s" and r: "answering s = Some r"
    and h: "end_req_q_handler r c (wld s) ws = Ret (out, c', w', ws')"
  shows "server_inv (s\<lparr>conns := cs, wld := w', answering := None, finished := finished s @ [r], sent := snt\<rparr>)"
proof -
  have "req_type r \<noteq> 1" using inv r by (simp add: server_inv_def taken_off_def)
  then obtain t where "trace w' = trace (wld s) @ [DmaFree t (dmaTag r)]"
    using handler_frees [OF h] by blast
  then show ?thesis using inv r inv_free by (simp add: server_inv_def taken_off_def)
qed

lemma server_step_inv: "server_step e s s' \<Longrightarrow> server_inv s \<Longrightarrow> server_inv s'"
proof (induction rule: server_step.induct)
  case (step_read s i c rr ws ret out c' w' ws')
  then show ?case using inv_read [OF step_read(3) ledger.on_read_grows [OF step_read(2)]] by blast
next
  case (step_done s xs r ys r' w' q')
  then show ?case using inv_done [of s xs r ys r' w' q'] by (simp add: rid_def)
next
  case (step_take s r q')
  then show ?case using inv_take by blast
next
  case (step_answer s r i c ws out c' w' ws')
  then show ?case using inv_answer by blast
qed (simp_all add: server_inv_def taken_off_def)

lemma server_reachable_inv:
  assumes "server_reachable e q s" and "mpmc_new js jd 4096 = Some q"
  shows "server_inv s"
  using assms(1)
proof (induction rule: server_reachable.induct)
  case serve_start
  obtain q' where "mpmc_new js jd (2 ^ 12) = Some q'" "mpmc_inv q'" "mpmc_items q' = []"
    using mpmc_new_inv [of 12 js jd] by auto
  then have "mpmc_inv q" "mpmc_items q = []" using assms(2) by simp_all
  then show ?case by (simp add: server_inv_def start_server_def init_world_def taken_off_def tagged_def)
next
  case (serve_step s s')
  then show ?case using server_step_inv by blast
qed

text \<open>Where the buffers are: freed, or with a request that is not finished.\<close>

lemma server_inv_ledger:
  assumes "server_inv s"
  shows "mset (allocs (trace (wld s))) + replicate_mset (dels (submitted (trace (wld s)))) 0 =
    mset (frees (trace (wld s))) + mset (map dmaTag (engine s @ mpmc_items (endq s) @ taken_off s))"
proof -
  have tag: "image_mset (\<lambda>r. snd (snd r)) (mset (map rid rs)) = mset (map dmaTag rs)" for rs
    by (simp add: rid_def image_mset.compositionality comp_def)
  have "mset (map rid (submitted (trace (wld s)))) =
      mset (map rid (engine s @ mpmc_items (endq s) @ taken_off s @ finished s))"
    using assms by (simp add: server_inv_def)
  then have "mset (map dmaTag (submitted (trace (wld s)))) =
      mset (map dmaTag (engine s @ mpmc_items (endq s) @ taken_off s @ finished s))"
    using tag by metis
  then show ?thesis using assms by (simp add: server_inv_def tagged_def add.commute add.left_commute)
qed

section \<open>Serving one \<open>get\<close>\<close>

lemma unread_empty: "parser_inv c \<Longrightarrow> unread c = [] \<Longrightarrow> buf_len c = 0"
  using unread_length [of c "[]"] by (simp add: parser_inv_def)

lemma read_drained:
  assumes inv: "parser_inv c" and read: "client_read_command c = Some (None, c1)" and u: "unread c1 = []"
  shows "parser_inv c1" and "buf_idx c1 = 0" and "buf_len c1 = 0"
proof -
  note p = read_command_facts [OF inv read]
  show inv1: "parser_inv c1" by (rule parsed_facts(1) [OF inv p])
  show len: "buf_len c1 = 0" by (rule unread_empty [OF inv1 u])
  obtain c'' i' where "c1 = consume i' c''" using p by (auto simp: parsed_def)
  then show "buf_idx c1 = 0" using len by (auto simp: consume_def Let_def split: if_splits)
qed

lemma exec_commands_once:
  assumes inv: "parser_inv c" and read: "client_read_command c = Some (None, c1)"
    and exec: "exec_command e cid c1 w = Ret (None, c1, w2)" and rest: "unread c1 = []"
  shows "client_exec_commands (Suc (Suc n)) e cid c w = Ret (True, c1\<lparr>args_len := 0\<rparr>, w2)"
proof -
  note d = read_drained [OF inv read rest]
  have "client_read_command c1 = Some (Some ERR_INCOMPLETE, c1\<lparr>args_len := 0\<rparr>)"
    using d(3) by (simp add: client_read_command_def Let_def parser_size_t [OF d(1)])
  then show ?thesis using read exec by simp
qed

lemma on_read_get:
  assumes inv: "parser_inv c" "output_inv c" and idle: "unread c = []" "\<not> output_valid c"
    and got: "got = resp_command [name, pre @ dec n]" "buf_idx c + int (length got) \<le> BUFSIZE"
    and name: "list_all2 same_letter name ''get''" and key: "length pre = 4" "int n \<le> INT_MAX"
    and engine: "\<forall>es. lr_make_req e es \<noteq> - 1"
  shows "\<exists>c' w' r. on_read e cid c w (Received got) ws = Ret (None, [], c', w', ws) \<and>
    parser_inv c' \<and> output_inv c' \<and> output_bytes c' = output_bytes c \<and> output_len c' = output_len c \<and>
    submitted (trace w') = submitted (trace w) @ [r] \<and> req_client r = Some cid \<and> req_type r = 2"
proof -
  have len: "buf_len c = 0" by (rule unread_empty [OF inv(1) idle(1)])
  have fits: "take (nat (to_size_t (BUFSIZE - buf_idx c - buf_len c))) got = got"
    using inv(1) got(2) len by (simp add: to_size_t_id parser_inv_def BUFSIZE_def)
  obtain c1 where c1: "store_received got c = Some c1"
    using inv(1) got(2) len by (simp add: store_received_def get_buffer_def parser_inv_def)
  note s = store_received_unread [OF inv(1) c1]
  have out1: "output_bytes c1 = output_bytes c" "output_len c1 = output_len c"
    "output_inv c1 = output_inv c" "output_valid c1 = output_valid c"
    using c1 by (auto simp: store_received_def output_bytes_def output_inv_def split: if_splits)
  have "unread c1 = resp_command [name, pre @ dec n] @ []" using s idle(1) got(1) by simp
  from get_run [OF conjunct1 [OF s] this name key engine, of cid w] obtain c2 w2 where
    read: "client_read_command c1 = Some (None, c2)" and exec: "exec_command e cid c2 w = Ret (None, c2, w2)"
    and c2: "unread c2 = []" "output_bytes c2 = output_bytes c1" "output_len c2 = output_len c1"
      "output_inv c2 = output_inv c1" "output_valid c2 = output_valid c1"
    and w2: "\<exists>r. submitted (trace w2) = submitted (trace w) @ [r] \<and> req_client r = Some cid \<and> req_type r = 2"
    by auto
  note d = read_drained [OF conjunct1 [OF s] read c2(1)]
  let ?c = "c2\<lparr>args_len := 0\<rparr>"
  have "client_exec_commands exec_fuel e cid c1 w = Ret (True, ?c, w2)"
    unfolding exec_fuel_def add_2_eq_Suc' by (rule exec_commands_once [OF conjunct1 [OF s] read exec c2(1)])
  moreover have "compact ?c = Ret ?c" using d by (simp add: compact_def BUFSIZE_def)
  ultimately have "on_data e cid c1 w ws = Ret (None, [], ?c, w2, ws)"
    using c2(5) out1(4) idle(2) by (simp add: on_data_def)
  moreover have "got \<noteq> []" by (simp add: got(1) resp_command_def)
  ultimately have "on_read e cid c w (Received got) ws = Ret (None, [], ?c, w2, ws)"
    by (simp add: on_read_def fits c1)
  moreover have "parser_inv ?c" using d(1) by (simp add: parser_inv_def)
  ultimately show ?thesis using w2 c2 out1 inv(2)
    by (intro exI [of _ ?c] exI [of _ w2]) (auto simp: output_inv_def output_bytes_def)
qed

lemma mpmc_enq_idle:
  assumes "mpmc_inv q" and "mpmc_items q = []"
  shows "\<exists>q1. mpmc_enq r q = (True, q1) \<and> mpmc_inv q1 \<and> mpmc_items q1 = [r]"
proof -
  have "0 < mpmc_capacity q" using assms(1) by (auto elim: mpmc_invE)
  then show ?thesis using mpmc.enq_below [OF assms(1), of r] assms(2) by auto
qed

lemma server_steps:
  "server_step e s s1 \<Longrightarrow> server_step e s1 s2 \<Longrightarrow> server_step e s2 s3 \<Longrightarrow> (server_step e)\<^sup>*\<^sup>* s s3"
  by (meson rtranclp.rtrancl_into_rtrancl rtranclp.rtrancl_refl)

lemma server_run_reachable:
  assumes "server_reachable e q s" and "(server_step e)\<^sup>*\<^sup>* s s'"
  shows "server_reachable e q s'"
  using assms(2,1) by (induction rule: rtranclp_induct) (auto intro: serve_step)

lemma served_get:
  assumes q: "mpmc_new js jd 4096 = Some q" and s: "server_reachable e q s"
    and free: "engine s = []" "mpmc_items (endq s) = []" "answering s = None" and c: "conns s i = Some c"
    and inv: "parser_inv c" "output_inv c" and idle: "unread c = []" "\<not> output_valid c"
    and got: "got = resp_command [name, pre @ dec n]" "buf_idx c + int (length got) \<le> BUFSIZE"
    and name: "list_all2 same_letter name ''get''" and key: "length pre = 4" "int n \<le> INT_MAX"
    and engine: "\<forall>es. lr_make_req e es \<noteq> - 1"
    and room: "output_len c + 8201 \<le> OUTPUT_BUFSIZE"
  shows "\<exists>c' w' s'. on_read e i c (wld s) (Received got) [] = Ret (None, [], c', w', []) \<and>
    (server_step e)\<^sup>*\<^sup>* (after_read i [] c' w' s) s' \<and>
    engine s' = [] \<and> mpmc_items (endq s') = [] \<and> answering s' = None \<and>
    length (finished s') = Suc (length (finished s)) \<and>
    sent s' i = sent s i @ output_bytes c @ ''$8192'' @ [CR, LF] @ replicate 8192 NUL @ [CR, LF]"
proof -
  obtain c' w' r where r: "on_read e i c (wld s) (Received got) [] = Ret (None, [], c', w', [])"
    and c': "parser_inv c'" "output_inv c'" "output_bytes c' = output_bytes c" "output_len c' = output_len c"
    and w': "submitted (trace w') = submitted (trace (wld s)) @ [r]" "req_client r = Some i" "req_type r = 2"
    using on_read_get [OF inv idle got name key engine, of i "wld s" "[]"] by blast
  let ?s1 = "s\<lparr>conns := (conns s)(i \<mapsto> c'), wld := w', engine := [r], sent := (sent s)(i := sent s i @ [])\<rparr>"
  have s1: "after_read i [] c' w' s = ?s1" using w'(1) free(1) by (simp add: after_read_def)
  have qinv: "mpmc_inv (endq s)" using server_reachable_inv [OF s q] by (simp add: server_inv_def)
  obtain q1 where q1: "mpmc_enq r (endq s) = (True, q1)" "mpmc_inv q1" "mpmc_items q1 = [r]"
    using mpmc_enq_idle [OF qinv free(2)] by blast
  obtain q2 where q2: "mpmc_deq q1 = (Some r, q2)" "mpmc_items q2 = []"
    using mpmc.deq_some [OF q1(2,3)] by (metis prod.collapse)
  let ?s2 = "?s1\<lparr>wld := w', engine := [] @ [], endq := q1,
    finished := (if req_type r = 1 then finished ?s1 @ [r] else finished ?s1)\<rparr>"
  have s2: "server_step e ?s1 ?s2"
    by (rule step_done [where r = r]) (simp_all add: end_req_def w'(3) q1(1))
  let ?ws = "[Wrote (nat (output_len c + 8201))]" and ?i = "sent s i"
  have pos: "0 \<le> output_len c" using inv(2) by (simp add: output_inv_def)
  obtain c'' ws' where ans: "answer NUL True r c' w' ?ws =
      Ret (output_bytes c' @ ''$8192'' @ [CR, LF] @ replicate 8192 NUL @ [CR, LF], c'', free_req r w', ws')"
    using get_answer_run [OF c'(2) _ w'(3), of ?ws NUL True w'] c'(4) room pos by auto
  let ?out = "output_bytes c @ ''$8192'' @ [CR, LF] @ replicate 8192 NUL @ [CR, LF]"
  let ?s3 = "?s2\<lparr>endq := q2, answering := Some r\<rparr>"
  have s3: "server_step e ?s2 ?s3" by (rule step_take) (simp_all add: free(3) q2(1))
  let ?s4 = "?s3\<lparr>conns := (conns ?s3)(i \<mapsto> c''), wld := free_req r w', answering := None,
    finished := finished ?s3 @ [r], sent := (sent ?s3)(i := sent ?s3 i @ ?out)\<rparr>"
  have s4: "server_step e ?s3 ?s4"
    by (rule step_answer [where r = r and c = c' and ws = ?ws and ws' = ws'])
      (use ans c'(3) w'(2) in \<open>simp_all add: end_req_q_handler_def\<close>)
  have reach: "(server_step e)\<^sup>*\<^sup>* (after_read i [] c' w' s) ?s4"
    unfolding s1 by (rule server_steps [OF s2 s3 s4])
  have "engine ?s4 = []" "mpmc_items (endq ?s4) = []" "answering ?s4 = None"
    "length (finished ?s4) = Suc (length (finished s))" "sent ?s4 i = sent s i @ ?out"
    using q2(2) w'(3) by simp_all
  with r reach show ?thesis by blast
qed

section \<open>Properties\<close>

text \<open>
  C3: however the reads, the completions of the engine and the answers interleave, no request is
  lost or handled twice: the requests submitted are those in the engine, in the queue, in the hands of
  the answering thread and finished.
\<close>

theorem requests_conserved:
  assumes "mpmc_new js jd 4096 = Some q" and "server_reachable e q s"
  shows "mset (map rid (submitted (trace (wld s)))) =
    mset (map rid (engine s @ mpmc_items (endq s) @ taken_off s @ finished s))"
  using server_reachable_inv [OF assms(2,1)] by (simp add: server_inv_def)

text \<open>
  C28: the ledger of the DMA buffers, by tag: at every moment, the tags of the buffers that were allocated,
  with one tag 0 more for every \<open>del\<close>, are those of the buffers that were freed and those of the requests
  in the engine, in the queue and in the hands of the answering thread. So when these are idle, each buffer
  has been freed as often as it was allocated, except that every \<open>del\<close> has freed the buffer of tag 0, which
  it never allocated.
\<close>

theorem dma_ledger:
  assumes "mpmc_new js jd 4096 = Some q" and "server_reachable e q s"
  shows "mset (allocs (trace (wld s))) + replicate_mset (dels (submitted (trace (wld s)))) 0 =
    mset (frees (trace (wld s))) + mset (map dmaTag (engine s @ mpmc_items (endq s) @ taken_off s))"
  by (rule server_inv_ledger [OF server_reachable_inv [OF assms(2,1)]])

text \<open>
  An idle server serves a \<open>get\<close>: when the command arrives in full on an open connection, there is
  a run, the engine finishing the request and the answering thread taking it, after which exactly
  the pending replies and the answer to the \<open>get\<close> have been sent there and the server is idle again.
\<close>

theorem get_served:
  assumes q: "mpmc_new js jd 4096 = Some q" and s: "server_reachable e q s"
    and free: "engine s = []" "mpmc_items (endq s) = []" "answering s = None" and c: "conns s i = Some c"
    and inv: "parser_inv c" "output_inv c" and idle: "unread c = []" "\<not> output_valid c"
    and got: "got = resp_command [name, pre @ dec n]" "buf_idx c + int (length got) \<le> BUFSIZE"
    and name: "list_all2 same_letter name ''get''" and key: "length pre = 4" "int n \<le> INT_MAX"
    and engine: "\<forall>es. lr_make_req e es \<noteq> - 1"
    and room: "output_len c + 8201 \<le> OUTPUT_BUFSIZE"
  shows "\<exists>c' w' s'. on_read e i c (wld s) (Received got) [] = Ret (None, [], c', w', []) \<and>
    (server_step e)\<^sup>*\<^sup>* (after_read i [] c' w' s) s' \<and>
    engine s' = [] \<and> mpmc_items (endq s') = [] \<and> answering s' = None \<and>
    length (finished s') = Suc (length (finished s)) \<and>
    sent s' i = sent s i @ output_bytes c @ ''$8192'' @ [CR, LF] @ replicate 8192 NUL @ [CR, LF]"
  by (rule served_get [OF assms])

section \<open>A run\<close>

lemma sample_queue: "\<exists>q. mpmc_new (\<lambda>_. 0) (\<lambda>_. alloc_req) 4096 = Some q \<and> mpmc_inv q \<and> mpmc_items q = []"
  using mpmc_new_inv [of 12 "\<lambda>_. 0" "\<lambda>_. alloc_req"] by auto

lemma sample_open:
  assumes "mpmc_new (\<lambda>_. 0) (\<lambda>_. alloc_req) 4096 = Some q" and "mpmc_items q = []"
  shows "\<exists>s c. server_reachable e q s \<and> engine s = [] \<and> mpmc_items (endq s) = [] \<and> answering s = None \<and> conns s 5 = Some c \<and>
    parser_inv c \<and> output_inv c \<and> unread c = [] \<and> \<not> output_valid c \<and> output_offset c = 0 \<and> buf_idx c = 0 \<and> output_len c = 0 \<and>
    wld s = init_world \<and> finished s = [] \<and> sent s 5 = []"
proof -
  let ?c = "(client_new (\<lambda>_. NUL) (\<lambda>_. NUL))\<lparr>fd := 9, which_queue := 0\<rparr>"
  let ?s = "(start_server q)\<lparr>conns := (conns (start_server q))(5 \<mapsto> ?c),
    sent := (sent (start_server q))(5 := [])\<rparr>"
  have "server_step e (start_server q) ?s" by (rule step_open) (simp add: start_server_def)
  then have "server_reachable e q ?s" using serve_start serve_step by blast
  then show ?thesis using assms(2)
    by (intro exI [of _ ?s] exI [of _ ?c])
      (simp add: start_server_def client_new_def parser_inv_def output_inv_def unread_def BUFSIZE_def OUTPUT_BUFSIZE_def)
qed

theorem get_served_witness:
  "\<exists>q s c' w' s'. server_reachable sample_env q s \<and> conns s 5 \<noteq> None \<and>
    (server_step sample_env)\<^sup>*\<^sup>* (after_read 5 [] c' w' s) s' \<and>
    sent s' 5 = ''$8192'' @ [CR, LF] @ replicate 8192 NUL @ [CR, LF]"
proof -
  obtain q where q: "mpmc_new (\<lambda>_. 0) (\<lambda>_. alloc_req) 4096 = Some q" "mpmc_items q = []"
    using sample_queue by blast
  obtain s c where s: "server_reachable sample_env q s" "engine s = []" "mpmc_items (endq s) = []" "answering s = None" "conns s 5 = Some c"
    "parser_inv c" "output_inv c" "unread c = []" "\<not> output_valid c" and c: "buf_idx c = 0" "output_len c = 0" "sent s 5 = []"
    using sample_open [OF q, of sample_env] by blast
  let ?got = "resp_command [''GET'', ''user'' @ dec 7]"
  have len: "buf_idx c + int (length ?got) \<le> BUFSIZE"
    by (simp add: resp_command_def length_resp_bulk length_dec_one BUFSIZE_def c(1))
  have name: "list_all2 same_letter ''GET'' ''get''" by (simp add: same_letter_def c_char_def)
  have engine: "\<forall>es. lr_make_req sample_env es \<noteq> - 1" by (simp add: sample_env_def)
  have "output_bytes c = []" using c(2) by (simp add: output_bytes_def)
  with get_served [OF q(1) s refl len name _ _ engine] c obtain c' w' s' where
    "(server_step sample_env)\<^sup>*\<^sup>* (after_read 5 [] c' w' s) s'"
    "sent s' 5 = ''$8192'' @ [CR, LF] @ replicate 8192 NUL @ [CR, LF]"
    by (auto simp: INT_MAX_def OUTPUT_BUFSIZE_def)
  then show ?thesis using s(1,5) by blast
qed

lemma sample_run:
  assumes q: "mpmc_new (\<lambda>_. 0) (\<lambda>_. alloc_req) 4096 = Some q" "mpmc_items q = []"
  shows "\<exists>s. server_reachable sample_env q s \<and> engine s = [] \<and> mpmc_items (endq s) = [] \<and>
    answering s = None \<and> length (finished s) = 1"
proof -
  obtain s c where s: "server_reachable sample_env q s" "engine s = []" "mpmc_items (endq s) = []" "answering s = None" "conns s 5 = Some c"
    "parser_inv c" "output_inv c" "unread c = []" "\<not> output_valid c" and c: "buf_idx c = 0" "output_len c = 0" "finished s = []"
    using sample_open [OF q, of sample_env] by blast
  let ?got = "resp_command [''GET'', ''user'' @ dec 7]"
  have len: "buf_idx c + int (length ?got) \<le> BUFSIZE"
    by (simp add: resp_command_def length_resp_bulk length_dec_one BUFSIZE_def c(1))
  have name: "list_all2 same_letter ''GET'' ''get''" by (simp add: same_letter_def c_char_def)
  have engine: "\<forall>es. lr_make_req sample_env es \<noteq> - 1" by (simp add: sample_env_def)
  obtain c' w' s' where r: "on_read sample_env 5 c (wld s) (Received ?got) [] = Ret (None, [], c', w', [])"
    and s': "(server_step sample_env)\<^sup>*\<^sup>* (after_read 5 [] c' w' s) s'" "engine s' = []"
      "mpmc_items (endq s') = []" "answering s' = None" "length (finished s') = 1"
    using served_get [OF q(1) s refl len name _ _ engine] c by (auto simp: INT_MAX_def OUTPUT_BUFSIZE_def)
  have "server_reachable sample_env q (after_read 5 [] c' w' s)"
    by (rule serve_step [OF s(1) step_read [OF s(5) r]])
  then have "server_reachable sample_env q s'" by (rule server_run_reachable [OF _ s'(1)])
  with s' show ?thesis by blast
qed

theorem requests_conserved_witness:
  "\<exists>q s. server_reachable sample_env q s \<and> length (finished s) = 1 \<and>
    mset (map rid (submitted (trace (wld s)))) = mset (map rid (engine s @ mpmc_items (endq s) @ taken_off s @ finished s))"
proof -
  obtain q where q: "mpmc_new (\<lambda>_. 0) (\<lambda>_. alloc_req) 4096 = Some q" "mpmc_items q = []"
    using sample_queue by blast
  obtain s where "server_reachable sample_env q s" "length (finished s) = 1"
    using sample_run [OF q] by blast
  with requests_conserved [OF q(1)] show ?thesis by blast
qed

theorem dma_ledger_witness:
  "\<exists>q s. server_reachable sample_env q s \<and> length (finished s) = 1 \<and> engine s = [] \<and> mpmc_items (endq s) = [] \<and>
    taken_off s = [] \<and>
    mset (allocs (trace (wld s))) + replicate_mset (dels (submitted (trace (wld s)))) 0 = mset (frees (trace (wld s)))"
proof -
  obtain q where q: "mpmc_new (\<lambda>_. 0) (\<lambda>_. alloc_req) 4096 = Some q" "mpmc_items q = []"
    using sample_queue by blast
  obtain s where s: "server_reachable sample_env q s" "length (finished s) = 1" "engine s = []" "mpmc_items (endq s) = []" "answering s = None"
    using sample_run [OF q] by blast
  then have "taken_off s = []" by (simp add: taken_off_def)
  with s dma_ledger [OF q(1) s(1)] show ?thesis by (intro exI [of _ q] exI [of _ s]) simp
qed

end
