(* ===== verification/ServerTypes.thy ===== *)
theory ServerTypes
  imports System
begin

text \<open>
  The types of the server's state: which values its requests can have, and that every step keeps them.
  A request in the engine is a \<open>get\<close>, a \<open>set\<close> or a \<open>del\<close> of a client, its key is a \<open>uint64_t\<close>, and a
  \<open>get\<close> or \<open>set\<close> has a DMA buffer allocated for its type. Nothing is claimed here of the reply buffers:
  the code does not keep their bounds (\<open>Overflow\<close>).
\<close>

section \<open>Requests stay typed\<close>

definition typed_req :: "event list \<Rightarrow> req \<Rightarrow> bool" where
  "typed_req es r \<longleftrightarrow> req_client r \<noteq> None \<and> 0 \<le> req_key r \<and> req_key r < 2 ^ 64 \<and>
     (req_type r = 3 \<or> req_type r \<in> {1, 2} \<and> DmaAlloc (req_type r) (dmaTag r) \<in> set es)"

lemma typed_req_mono: "typed_req es r \<Longrightarrow> set es \<subseteq> set fs \<Longrightarrow> typed_req fs r"
  by (auto simp: typed_req_def)

text \<open>The new events allocate buffers and submit typed requests of the client; they free nothing.\<close>

definition makes :: "nat \<Rightarrow> world \<Rightarrow> world \<Rightarrow> bool" where
  "makes cid w w' \<longleftrightarrow> (\<exists>es. trace w' = trace w @ es \<and> (\<forall>t u. DmaFree t u \<notin> set es) \<and>
     (\<forall>r \<in> set (submitted es). typed_req (trace w') r \<and> req_client r = Some cid))"

lemma makes_refl [simp]: "makes cid w w"
  by (simp add: makes_def)

lemma makes_trans:
  assumes "makes cid w w1" and "makes cid w1 w2"
  shows "makes cid w w2"
proof -
  from assms obtain es fs where es: "trace w1 = trace w @ es" "\<forall>t u. DmaFree t u \<notin> set es"
      "\<forall>r \<in> set (submitted es). typed_req (trace w1) r \<and> req_client r = Some cid"
    and fs: "trace w2 = trace w1 @ fs" "\<forall>t u. DmaFree t u \<notin> set fs"
      "\<forall>r \<in> set (submitted fs). typed_req (trace w2) r \<and> req_client r = Some cid"
    by (auto simp: makes_def)
  have "typed_req (trace w2) r" if "typed_req (trace w1) r" for r
    by (rule typed_req_mono [OF that]) (simp add: fs(1))
  then show ?thesis unfolding makes_def using es fs by (intro exI [of _ "es @ fs"]) auto
qed

lemma make_req_makes:
  assumes m: "make_req e r w1 = Ret w2" and w1: "trace w1 = trace w @ es"
    and free: "\<forall>t u. DmaFree t u \<notin> set es" and none: "submitted es = []"
    and r: "req_client r = Some cid"
      "req_type r = 3 \<or> req_type r \<in> {1, 2} \<and> DmaAlloc (req_type r) (dmaTag r) \<in> set es"
  shows "makes cid w w2"
proof -
  obtain k where k: "trace w2 = trace w1 @ profile k @ [Submit (r\<lparr>req_key := to_uint64 (req_key r + 1)\<rparr>)]"
    using make_req_events [OF m] by blast
  have "typed_req (trace w2) (r\<lparr>req_key := to_uint64 (req_key r + 1)\<rparr>)"
    using r by (auto simp: typed_req_def k w1 to_uint64_def)
  then show ?thesis unfolding makes_def using free none r(1) k w1
    by (intro exI [of _ "es @ profile k @ [Submit (r\<lparr>req_key := to_uint64 (req_key r + 1)\<rparr>)]"])
      (auto simp: profile_def)
qed

interpretation typing: world_growth makes
proof
  fix e r r2 w w2 cid
  assume "make_req e r2 (snd (alloc_dma e r w)) = Ret w2" "req_type r2 = req_type r"
    "dmaTag r2 = alloc_tag e (trace w)" "req_type r \<in> {1, 2}" "req_client r2 = Some cid"
  then show "makes cid w w2"
    by (intro make_req_makes [where es = "[DmaAlloc (req_type r) (alloc_tag e (trace w))]"])
      (auto simp: alloc_dma_fields)
next
  fix e r w w' cid
  assume "make_req e r w = Ret w'" "req_type r = 3" "dmaTag r = 0" "req_client r = Some cid"
  then show "makes cid w w'" by (intro make_req_makes [where es = "[]"]) auto
qed (auto intro: makes_trans)

section \<open>The state stays typed\<close>

text \<open>
  The engine may answer with any type but 1, so of a finished request only the client and the key are
  typed. A buffer is freed under type 1 only if it was allocated under type 1.
\<close>

definition answered_req :: "req \<Rightarrow> bool" where
  "answered_req r \<longleftrightarrow> req_client r \<noteq> None \<and> 0 \<le> req_key r \<and> req_key r < 2 ^ 64"

definition typed_trace :: "event list \<Rightarrow> bool" where
  "typed_trace es \<longleftrightarrow> (\<forall>t u. DmaFree t u \<in> set es \<longrightarrow> t = 2 \<or> t = 1 \<and> DmaAlloc 1 u \<in> set es)"

definition typed_server :: "server \<Rightarrow> bool" where
  "typed_server s \<longleftrightarrow> (\<forall>r \<in> set (engine s). typed_req (trace (wld s)) r) \<and>
     (\<forall>r \<in> set (mpmc_items (endq s) @ taken_off s). answered_req r \<and> req_type r \<noteq> 1) \<and>
     (\<forall>r \<in> set (finished s). answered_req r) \<and> typed_trace (trace (wld s))"

lemma typed_answered: "typed_req es r \<Longrightarrow> answered_req r"
  by (simp add: typed_req_def answered_req_def)

lemma typed_free: "trace w' = trace w @ [DmaFree t u] \<Longrightarrow> typed_req (trace w') r \<longleftrightarrow> typed_req (trace w) r"
  by (simp add: typed_req_def)

lemma free_req_type: "trace (free_req r w) = trace w @ [DmaFree (if req_type r = 1 then 1 else 2) (dmaTag r)]"
  by (simp add: free_req_def free_dma_def Let_def)

lemma typed_read:
  assumes s: "typed_server s" and r: "on_read e i c (wld s) rr ws = Ret (ret, out, c', w', ws')"
  shows "typed_server (after_read i out c' w' s)"
proof -
  obtain es where es: "trace w' = trace (wld s) @ es" "\<forall>t u. DmaFree t u \<notin> set es"
    "\<forall>r \<in> set (submitted es). typed_req (trace w') r"
    using typing.on_read_grows [OF r] by (auto simp: makes_def)
  have "typed_req (trace w') r" if "typed_req (trace (wld s)) r" for r
    by (rule typed_req_mono [OF that]) (simp add: es(1))
  moreover have "typed_trace (trace w')" using s es by (auto simp: typed_server_def typed_trace_def)
  ultimately show ?thesis using s es(1,3) by (auto simp: typed_server_def after_read_def taken_off_def)
qed

lemma typed_done:
  assumes s: "typed_server s" and q: "mpmc_inv (endq s)" and e: "engine s = xs @ r # ys"
    and r': "req_type r' = req_type r \<or> req_type r' \<noteq> 1" "req_client r' = req_client r"
      "req_key r' = req_key r" "dmaTag r' = dmaTag r"
    and d: "end_req r' (wld s) (endq s) = Some (w', q')"
  shows "typed_server (s\<lparr>wld := w', engine := xs @ ys, endq := q',
    finished := (if req_type r' = 1 then finished s @ [r'] else finished s)\<rparr>)"
proof -
  have r: "typed_req (trace (wld s)) r" using s e by (simp add: typed_server_def)
  have ans: "answered_req r'" using typed_answered [OF r] r' by (simp add: answered_req_def)
  show ?thesis
  proof (cases "req_type r' = 1")
    case True
    then have w': "q' = endq s" "trace w' = trace (wld s) @ [DmaFree 1 (dmaTag r)]"
      using d r'(4) free_req_type [of r' "wld s"] by (auto simp: end_req_def)
    have "DmaAlloc 1 (dmaTag r) \<in> set (trace (wld s))"
      using True r r'(1) by (auto simp: typed_req_def)
    then show ?thesis using s e True w' ans typed_free [OF w'(2)]
      by (auto simp: typed_server_def typed_trace_def taken_off_def)
  next
    case False
    from d q False obtain "w' = wld s" "mpmc_items q' = mpmc_items (endq s) @ [r']"
      by (cases rule: end_req_cases) auto
    then show ?thesis using s e False ans by (auto simp: typed_server_def taken_off_def)
  qed
qed

lemma typed_take:
  assumes s: "typed_server s" and q: "mpmc_inv (endq s)" and d: "mpmc_deq (endq s) = (Some r, q')"
  shows "typed_server (s\<lparr>endq := q', answering := Some r\<rparr>)"
proof -
  have "mpmc_items (endq s) = r # mpmc_items q'"
    using mpmc.deq_contents [OF q] d by simp
  then show ?thesis using s by (simp add: typed_server_def taken_off_def)
qed

lemma typed_answer:
  assumes s: "typed_server s" and r: "answering s = Some r"
    and h: "end_req_q_handler r c (wld s) ws = Ret (out, c', w', ws')"
  shows "typed_server (s\<lparr>conns := (conns s)(i \<mapsto> c'), wld := w', answering := None,
    finished := finished s @ [r], sent := snt\<rparr>)"
proof -
  have w': "trace w' = trace (wld s) @ [DmaFree 2 (dmaTag r)]"
    using h s r free_req_type [of r "wld s"]
    by (auto simp: end_req_q_handler_def answer_def typed_server_def taken_off_def split: if_splits)
  then show ?thesis using s r w' typed_free [OF w'] by (auto simp: typed_server_def typed_trace_def taken_off_def)
qed

lemma typed_step: "server_step e s s' \<Longrightarrow> server_inv s \<Longrightarrow> typed_server s \<Longrightarrow> typed_server s'"
proof (induction rule: server_step.induct)
  case (step_read s i c rr ws ret out c' w' ws')
  then show ?case using typed_read by blast
next
  case (step_done s xs r ys r' w' q')
  then show ?case using typed_done [of s xs r ys r' w' q'] by (simp add: server_inv_def)
next
  case (step_take s r q')
  then show ?case using typed_take by (simp add: server_inv_def)
next
  case (step_answer s r i c ws out c' w' ws')
  then show ?case using typed_answer by blast
qed (auto simp: typed_server_def taken_off_def)

lemma reachable_typed:
  assumes "server_reachable e q s" and "mpmc_new js jd 4096 = Some q"
  shows "typed_server s"
  using assms(1)
proof (induction rule: server_reachable.induct)
  case serve_start
  obtain q' where "mpmc_new js jd (2 ^ 12) = Some q'" "mpmc_items q' = []"
    using mpmc_new_inv [of 12 js jd] by auto
  then have "mpmc_items q = []" using assms(2) by simp
  then show ?case by (simp add: typed_server_def typed_trace_def start_server_def init_world_def taken_off_def)
next
  case (serve_step s s')
  then show ?case using typed_step server_reachable_inv [OF _ assms(2)] by blast
qed

section \<open>Properties\<close>

text \<open>
  C5: however the steps interleave, every request the engine holds is a \<open>set\<close>, a \<open>get\<close> or a \<open>del\<close> of
  a client with a 64-bit key, a \<open>set\<close> or \<open>get\<close> with a DMA buffer allocated for its type; no request of
  type 1 ever gets to the answering thread, so that every finished request of type 1 was freed by the
  engine's thread; and buffers are freed as type 2, or as type 1 if so allocated.
\<close>

theorem server_stays_typed:
  assumes "mpmc_new js jd 4096 = Some q" and "server_reachable e q s"
  shows "(\<forall>r \<in> set (engine s). req_client r \<noteq> None \<and> 0 \<le> req_key r \<and> req_key r < 2 ^ 64 \<and>
      (req_type r = 3 \<or> req_type r \<in> {1, 2} \<and> DmaAlloc (req_type r) (dmaTag r) \<in> set (trace (wld s)))) \<and>
    (\<forall>r \<in> set (mpmc_items (endq s) @ taken_off s). req_client r \<noteq> None \<and> req_type r \<noteq> 1) \<and>
    (\<forall>t u. DmaFree t u \<in> set (trace (wld s)) \<longrightarrow> t = 2 \<or> t = 1 \<and> DmaAlloc 1 u \<in> set (trace (wld s)))"
  using reachable_typed [OF assms(2,1)]
  by (simp add: typed_server_def typed_req_def answered_req_def typed_trace_def)

lemma sample_submitted:
  assumes q: "mpmc_new (\<lambda>_. 0) (\<lambda>_. alloc_req) 4096 = Some q" "mpmc_items q = []"
  shows "\<exists>s r. server_reachable sample_env q s \<and> engine s = [r]"
proof -
  obtain s c where s: "server_reachable sample_env q s" "engine s = []" "conns s 5 = Some c"
    "parser_inv c" "output_inv c" "unread c = []" "\<not> output_valid c" and c: "buf_idx c = 0" "wld s = init_world"
    using sample_open [OF q, of sample_env] by blast
  let ?got = "resp_command [''GET'', ''user'' @ dec 7]"
  have len: "buf_idx c + int (length ?got) \<le> BUFSIZE"
    by (simp add: resp_command_def length_resp_bulk length_dec_one BUFSIZE_def c(1))
  have name: "list_all2 same_letter ''GET'' ''get''" by (simp add: same_letter_def c_char_def)
  have e: "\<forall>es. lr_make_req sample_env es \<noteq> - 1" by (simp add: sample_env_def)
  obtain c' w' r where r: "on_read sample_env 5 c (wld s) (Received ?got) [] = Ret (None, [], c', w', [])"
    "submitted (trace w') = submitted (trace (wld s)) @ [r]"
    using on_read_get [OF s(4-7) refl len name _ _ e, of 5 "wld s" "[]"] by (auto simp: INT_MAX_def)
  have "engine (after_read 5 [] c' w' s) = [r]" using r(2) s(2) by (simp add: after_read_def)
  with serve_step [OF s(1) step_read [OF s(3) r(1)]] show ?thesis by blast
qed

theorem server_stays_typed_witness:
  "\<exists>q s r. server_reachable sample_env q s \<and> engine s = [r] \<and> req_client r \<noteq> None \<and> req_type r \<in> {1, 2, 3}"
proof -
  obtain q where q: "mpmc_new (\<lambda>_. 0) (\<lambda>_. alloc_req) 4096 = Some q" "mpmc_items q = []"
    using sample_queue by blast
  obtain s r where s: "server_reachable sample_env q s" "engine s = [r]"
    using sample_submitted [OF q] by blast
  then show ?thesis using server_stays_typed [OF q(1) s(1)] by (intro exI [of _ q] exI [of _ s] exI [of _ r]) auto
qed

end
