(* ===== verification/ServerThreads.thy ===== *)
theory ServerThreads
  imports System MpmcThreads
begin

text \<open>
  The poll server on the ring of \<open>lfmpmc.h\<close> with its single accesses: the threads of the engine call
  \<open>end_req\<close>, which enqueues, the answering thread dequeues, and each access to the ring is a step.
  Every state reached here corresponds to one of \<open>System\<close>, where a call on the ring is one step. A call
  takes effect there when it takes its ticket.
\<close>

section \<open>Steps of one thread on the ring\<close>

definition own_move :: "nat \<Rightarrow> 'a system \<Rightarrow> 'a system \<Rightarrow> bool" where
  "own_move i m m' \<longleftrightarrow> thread_step m m' \<and> (\<forall>j. j \<noteq> i \<longrightarrow> pcs m' j = pcs m j)"

fun enq_pc :: "'a \<Rightarrow> 'a pc \<Rightarrow> bool" where
  "enq_pc x Idle = True"
| "enq_pc x (PLoad y h) = (y = x)"
| "enq_pc x (PCmp y h v) = (y = x)"
| "enq_pc x (PWrite y h) = (y = x)"
| "enq_pc x (PStore y h) = (y = x)"
| "enq_pc x p = False"

fun deq_pc :: "'a pc \<Rightarrow> bool" where
  "deq_pc Idle = True"
| "deq_pc (CLoad t) = True"
| "deq_pc (CCmp t v) = True"
| "deq_pc (CRead t) = True"
| "deq_pc (CStore t x) = True"
| "deq_pc p = False"

text \<open>An access of thread \<open>i\<close> in \<open>enqueue(x)\<close>, and in \<open>dequeue\<close>.\<close>

definition enq_move :: "nat \<Rightarrow> 'a \<Rightarrow> 'a system \<Rightarrow> 'a system \<Rightarrow> bool" where
  "enq_move i x m m' \<longleftrightarrow> own_move i m m' \<and> enq_pc x (pcs m i) \<and> enq_pc x (pcs m' i)"

definition deq_move :: "nat \<Rightarrow> 'a system \<Rightarrow> 'a system \<Rightarrow> bool" where
  "deq_move i m m' \<longleftrightarrow> own_move i m m' \<and> deq_pc (pcs m i) \<and> deq_pc (pcs m' i)"

text \<open>A step takes a producer's ticket, takes a consumer's ticket, or only goes on.\<close>

definition goes_on :: "'a system \<Rightarrow> 'a system \<Rightarrow> 'a pc \<Rightarrow> 'a pc \<Rightarrow> bool" where
  "goes_on m m' p p' \<longleftrightarrow> accepted m' = accepted m \<and> taken m' = taken m \<and>
     (holds_put p = None \<longrightarrow> holds_put p' = None) \<and> (holds_put p \<noteq> None \<longrightarrow> (\<exists>x. enq_pc x p')) \<and>
     (case p of CStore t x \<Rightarrow> p' = Idle | _ \<Rightarrow> holds_take p' = holds_take p)"

definition takes_put :: "'a system \<Rightarrow> 'a system \<Rightarrow> 'a pc \<Rightarrow> 'a pc \<Rightarrow> bool" where
  "takes_put m m' p p' \<longleftrightarrow> (\<exists>x h. p = PCmp x h h \<and> mp_head (ring m) = h \<and> p' = PWrite x h \<and>
     accepted m' = accepted m @ [x] \<and> taken m' = taken m)"

definition takes_get :: "'a system \<Rightarrow> 'a system \<Rightarrow> 'a pc \<Rightarrow> 'a pc \<Rightarrow> bool" where
  "takes_get m m' p p' \<longleftrightarrow> (\<exists>t. p = CCmp t (t + 1) \<and> mp_tail (ring m) = t \<and> p' = CRead t \<and>
     accepted m' = accepted m \<and> taken m' = taken m + 1)"

lemma thread_step_kinds:
  "thread_step m m' \<Longrightarrow> \<exists>j p. pcs m' = (pcs m)(j := p) \<and> p \<noteq> pcs m j \<and>
     (goes_on m m' (pcs m j) p \<or> takes_put m m' (pcs m j) p \<or> takes_get m m' (pcs m j) p)"
proof (induction rule: thread_step.induct)
  case (enq_start s i x)
  then show ?case by (intro exI [of _ i] exI [of _ "PLoad x (mp_head (ring s))"]) (simp add: goes_on_def)
next
  case (enq_seq s i x h)
  then show ?case by (intro exI [of _ i] exI [of _ "PCmp x h (seq_at s h)"]) (simp add: goes_on_def)
next
  case (enq_cas s i x h v)
  then show ?case by (intro exI [of _ i] exI [of _ "PWrite x h"]) (simp add: takes_put_def seq_dif_0)
next
  case (deq_start s i)
  then show ?case by (intro exI [of _ i] exI [of _ "CLoad (mp_tail (ring s))"]) (simp add: goes_on_def)
next
  case (deq_seq s i t)
  then show ?case by (intro exI [of _ i] exI [of _ "CCmp t (seq_at s t)"]) (simp add: goes_on_def)
next
  case (deq_cas s i t v)
  then show ?case by (intro exI [of _ i] exI [of _ "CRead t"]) (simp add: takes_get_def seq_dif_0)
next
  case (deq_read s i t)
  then show ?case
    by (intro exI [of _ i] exI [of _ "CStore t (mp_data (ring s) (slot (mp_mask (ring s)) t))"])
      (simp add: goes_on_def)
qed (simp add: goes_on_def; force simp: goes_on_def)+

lemma own_move_kinds:
  assumes "own_move i m m'"
  shows "thread_step m m'" and "\<And>j. j \<noteq> i \<Longrightarrow> pcs m' j = pcs m j"
    and "goes_on m m' (pcs m i) (pcs m' i) \<or> takes_put m m' (pcs m i) (pcs m' i) \<or> takes_get m m' (pcs m i) (pcs m' i)"
proof -
  show step: "thread_step m m'" and same: "\<And>j. j \<noteq> i \<Longrightarrow> pcs m' j = pcs m j"
    using assms by (auto simp: own_move_def)
  obtain j p where j: "pcs m' = (pcs m)(j := p)" "p \<noteq> pcs m j"
    "goes_on m m' (pcs m j) p \<or> takes_put m m' (pcs m j) p \<or> takes_get m m' (pcs m j) p"
    using thread_step_kinds [OF step] by blast
  then have "j = i" using same [of j] by fastforce
  then show "goes_on m m' (pcs m i) (pcs m' i) \<or> takes_put m m' (pcs m i) (pcs m' i) \<or> takes_get m m' (pcs m i) (pcs m' i)"
    using j by simp
qed

section \<open>The threads of the server\<close>

text \<open>
  \<open>base\<close> is the server but for its queue, which is \<open>mq\<close>. \<open>ending\<close> are the threads of the engine in
  \<open>end_req\<close> that have not yet got a ticket, with the request they were given and as the engine
  returns it. Thread 0 answers.
\<close>

record server_threads =
  base :: server
  mq :: "req system"
  ending :: "(nat \<times> req \<times> req) list"

inductive server_thread_step :: "env \<Rightarrow> server_threads \<Rightarrow> server_threads \<Rightarrow> bool" for e where
  t_open: "b = base s \<Longrightarrow> conns b i = None \<Longrightarrow>
    server_thread_step e s (s\<lparr>base := b\<lparr>conns := (conns b)(i \<mapsto> (client_new f out)\<lparr>fd := sd, which_queue := j\<rparr>),
      sent := (sent b)(i := [])\<rparr>\<rparr>)"
| t_close: "b = base s \<Longrightarrow> conns b i = Some c \<Longrightarrow>
    server_thread_step e s (s\<lparr>base := b\<lparr>conns := (conns b)(i := None)\<rparr>\<rparr>)"
| t_read: "b = base s \<Longrightarrow> conns b i = Some c \<Longrightarrow> on_read e i c (wld b) rr ws = Ret (ret, out, c', w', ws') \<Longrightarrow>
    server_thread_step e s (s\<lparr>base := after_read i out c' w' b\<rparr>)"
| t_set: "b = base s \<Longrightarrow> engine b = xs @ r # ys \<Longrightarrow> req_type r = 1 \<Longrightarrow> req_type r' = 1 \<Longrightarrow>
    req_client r' = req_client r \<Longrightarrow> req_key r' = req_key r \<Longrightarrow> dmaTag r' = dmaTag r \<Longrightarrow>
    server_thread_step e s (s\<lparr>base := b\<lparr>wld := free_req r' (wld b), engine := xs @ ys, finished := finished b @ [r']\<rparr>\<rparr>)"
| t_call: "b = base s \<Longrightarrow> engine b = xs @ r # ys \<Longrightarrow> req_type r' \<noteq> 1 \<Longrightarrow>
    req_client r' = req_client r \<Longrightarrow> req_key r' = req_key r \<Longrightarrow> dmaTag r' = dmaTag r \<Longrightarrow>
    i \<noteq> 0 \<Longrightarrow> pcs (mq s) i = Idle \<Longrightarrow> i \<notin> fst ` set (ending s) \<Longrightarrow>
    server_thread_step e s (s\<lparr>base := b\<lparr>engine := xs @ ys\<rparr>, ending := (i, r, r') # ending s\<rparr>)"
| t_enqueue: "(i, r, r') \<in> set (ending s) \<Longrightarrow> enq_move i r' (mq s) m \<Longrightarrow>
    server_thread_step e s (s\<lparr>mq := m, ending := (if accepted m = accepted (mq s) then ending s
      else filter (\<lambda>x. fst x \<noteq> i) (ending s))\<rparr>)"
| t_publish: "i \<noteq> 0 \<Longrightarrow> holds_put (pcs (mq s) i) \<noteq> None \<Longrightarrow> own_move i (mq s) m \<Longrightarrow>
    server_thread_step e s (s\<lparr>mq := m\<rparr>)"
| t_dequeue: "b = base s \<Longrightarrow> answering b = None \<Longrightarrow> deq_move 0 (mq s) m \<Longrightarrow>
    server_thread_step e s (s\<lparr>mq := m,
      base := b\<lparr>answering := (case pcs (mq s) 0 of CStore t r \<Rightarrow> Some r | _ \<Rightarrow> None)\<rparr>\<rparr>)"
| t_answer: "b = base s \<Longrightarrow> answering b = Some r \<Longrightarrow> req_client r = Some i \<Longrightarrow> conns b i = Some c \<Longrightarrow>
    end_req_q_handler r c (wld b) ws = Ret (out, c', w', ws') \<Longrightarrow>
    server_thread_step e s (s\<lparr>base := b\<lparr>conns := (conns b)(i \<mapsto> c'), wld := w', answering := None,
      finished := finished b @ [r], sent := (sent b)(i := sent b i @ out)\<rparr>\<rparr>)"

definition server_threads_start :: "req mpmc \<Rightarrow> server_threads" where
  "server_threads_start q = \<lparr>base = start_server q, mq = start_system q, ending = []\<rparr>"

section \<open>The simulation\<close>

text \<open>The request the answering thread has a ticket for, or has got.\<close>

definition in_hand :: "server_threads \<Rightarrow> req option" where
  "in_hand s = (case holds_take (pcs (mq s) 0) of
      None \<Rightarrow> answering (base s) | Some n \<Rightarrow> Some (accepted (mq s) ! n))"

definition same_server :: "server_threads \<Rightarrow> server \<Rightarrow> bool" where
  "same_server s u \<longleftrightarrow> conns u = conns (base s) \<and> wld u = wld (base s) \<and> sent u = sent (base s) \<and>
     finished u = finished (base s) \<and> answering u = in_hand s \<and>
     mset (engine u) = mset (engine (base s)) + mset (map (\<lambda>(i, r, r'). r) (ending s))"

definition same_queue :: "req system \<Rightarrow> req mpmc \<Rightarrow> bool" where
  "same_queue m q \<longleftrightarrow> mpmc_inv q \<and> mpmc_capacity q = 2 ^ 12 \<and> mpmc_items q = drop (taken m) (accepted m)"

definition roles :: "server_threads \<Rightarrow> bool" where
  "roles s \<longleftrightarrow> system_inv 12 (mq s) \<and> deq_pc (pcs (mq s) 0) \<and> (\<forall>i. i \<noteq> 0 \<longrightarrow> (\<exists>x. enq_pc x (pcs (mq s) i))) \<and>
     (answering (base s) \<noteq> None \<longrightarrow> pcs (mq s) 0 = Idle) \<and> distinct (map fst (ending s)) \<and>
     (\<forall>(i, r, r') \<in> set (ending s). i \<noteq> 0 \<and> enq_pc r' (pcs (mq s) i) \<and> holds_put (pcs (mq s) i) = None \<and>
        req_type r' \<noteq> 1 \<and> req_client r' = req_client r \<and> req_key r' = req_key r \<and> dmaTag r' = dmaTag r)"

definition served_as :: "server_threads \<Rightarrow> server \<Rightarrow> bool" where
  "served_as s u \<longleftrightarrow> roles s \<and> same_server s u \<and> same_queue (mq s) (endq u)"

lemma filter_key:
  assumes "distinct (map fst xs)" and "(i, r, r') \<in> set xs"
  shows "mset xs = add_mset (i, r, r') (mset (filter (\<lambda>x. fst x \<noteq> i) xs))"
  using assms
proof (induction xs)
  case (Cons x xs)
  show ?case
  proof (cases "x = (i, r, r')")
    case True
    then have "filter (\<lambda>x. fst x \<noteq> i) xs = xs" using Cons.prems by (force simp: filter_id_conv)
    then show ?thesis using True by simp
  next
    case False
    then have "(i, r, r') \<in> set xs" using Cons.prems by simp
    moreover have "i \<in> fst ` set xs" using calculation by (rule rev_image_eqI) simp
    then have "fst x \<noteq> i" using Cons.prems by auto
    ultimately show ?thesis using Cons by simp
  qed
qed simp

lemma filter_key_requests:
  assumes "distinct (map fst xs)" and "(i, r, r') \<in> set xs"
  shows "mset (map (\<lambda>(i, r, r'). r) xs) = add_mset r (mset (map (\<lambda>(i, r, r'). r) (filter (\<lambda>x. fst x \<noteq> i) xs)))"
  unfolding mset_map by (subst filter_key [OF assms]) simp

lemma mset_split:
  assumes "mset xs = add_mset r m"
  shows "\<exists>ys zs. xs = ys @ r # zs \<and> mset (ys @ zs) = m"
proof -
  have "r \<in># mset xs" using assms by simp
  then obtain ys zs where "xs = ys @ r # zs" using split_list by (metis set_mset_mset)
  then show ?thesis using assms by (intro exI [of _ ys] exI [of _ zs]) simp
qed

lemma ring_bounds:
  assumes "system_inv k m"
  shows "unat (mp_head (ring m)) = length (accepted m)" "unat (mp_tail (ring m)) = taken m"
    "taken m \<le> length (accepted m)"
  using assms by (simp_all add: system_inv_def ring_ok_def)

text \<open>A step of another thread leaves the answering thread its request.\<close>

lemma same_hand:
  assumes "system_inv k (mq s)" and "pcs m 0 = pcs (mq s) 0"
    and "accepted m = accepted (mq s) \<or> (\<exists>x. accepted m = accepted (mq s) @ [x])"
  shows "in_hand (s\<lparr>mq := m, ending := es\<rparr>) = in_hand s"
proof -
  have "n < length (accepted (mq s))" if "holds_take (pcs (mq s) 0) = Some n" for n
    using holds_take_lt [OF pcs_ok [OF assms(1) refl] that] ring_bounds(3) [OF assms(1)] by simp
  then show ?thesis using assms(2,3) by (auto simp: in_hand_def nth_append split: option.splits)
qed

lemma roles_inv: "roles s \<Longrightarrow> system_inv 12 (mq s)"
  by (simp add: roles_def)

text \<open>What the other threads rely on is kept by a step of thread \<open>i\<close>.\<close>

lemma roles_enqueue:
  assumes s: "roles s" and i: "i \<noteq> 0" and move: "own_move i (mq s) m" and inv: "system_inv 12 m"
    and own: "\<exists>x. enq_pc x (pcs m i)" and es: "set es \<subseteq> set (ending s)" "distinct (map fst es)"
    and own_req: "\<And>r r'. (i, r, r') \<in> set es \<Longrightarrow> enq_pc r' (pcs m i) \<and> holds_put (pcs m i) = None"
  shows "roles (s\<lparr>mq := m, ending := es\<rparr>)"
proof -
  have same: "pcs m j = pcs (mq s) j" if "j \<noteq> i" for j using own_move_kinds(2) [OF move that] .
  have other: "\<exists>x. enq_pc x (pcs m j)" if "j \<noteq> 0" for j
    using s own same [of j] that by (cases "j = i") (auto simp: roles_def)
  have "j \<noteq> 0 \<and> enq_pc r' (pcs m j) \<and> holds_put (pcs m j) = None \<and> req_type r' \<noteq> 1 \<and>
      req_client r' = req_client r \<and> req_key r' = req_key r \<and> dmaTag r' = dmaTag r"
    if "(j, r, r') \<in> set es" for j r r'
    using s es(1) that own_req [of r r'] same [of j] by (cases "j = i") (auto simp: roles_def)
  then show ?thesis using s inv other es(2) same [of 0] i by (auto simp: roles_def)
qed

section \<open>Every step is matched\<close>

text \<open>A thread of the engine gets its ticket: the request enters the queue.\<close>

lemma match_put:
  assumes s: "(i, r, r') \<in> set (ending s)" "enq_move i r' (mq s) m"
    and inv: "system_inv 12 m" and rel: "served_as s u" and reach: "server_reachable e q u"
    and put: "takes_put (mq s) m (pcs (mq s) i) (pcs m i)"
  shows "\<exists>u'. server_reachable e q u' \<and> served_as (s\<lparr>mq := m, ending := filter (\<lambda>x. fst x \<noteq> i) (ending s)\<rparr>) u'"
proof -
  let ?es = "filter (\<lambda>x. fst x \<noteq> i) (ending s)"
  let ?s = "s\<lparr>mq := m, ending := ?es\<rparr>"
  have move: "own_move i (mq s) m" and pcs: "enq_pc r' (pcs (mq s) i)" "enq_pc r' (pcs m i)"
    using s(2) by (simp_all add: enq_move_def)
  have ro: "roles s" and sv: "same_server s u" and qu: "same_queue (mq s) (endq u)"
    using rel by (simp_all add: served_as_def)
  have r: "i \<noteq> 0" "req_type r' \<noteq> 1" "req_client r' = req_client r" "req_key r' = req_key r" "dmaTag r' = dmaTag r"
    and es: "distinct (map fst (ending s))"
    using ro s(1) by (auto simp: roles_def)
  note sys = roles_inv [OF ro]
  note bounds = ring_bounds [OF sys]
  obtain h where h: "pcs (mq s) i = PCmp r' h h" "mp_head (ring (mq s)) = h"
    "accepted m = accepted (mq s) @ [r']" "taken m = taken (mq s)"
    using put pcs by (auto simp: takes_put_def)
  have "slot_free 12 (mq s) (length (accepted (mq s)))" using pcs_ok [OF sys h(1)] bounds h(2) by simp
  then have room: "length (accepted (mq s)) < taken (mq s) + 2 ^ 12" by (simp add: slot_free_def)
  have q: "mpmc_inv (endq u)" "mpmc_capacity (endq u) = 2 ^ 12"
    "mpmc_items (endq u) = drop (taken (mq s)) (accepted (mq s))"
    using qu by (simp_all add: same_queue_def)
  have "length (mpmc_items (endq u)) < mpmc_capacity (endq u)" using q(2,3) room bounds(3) by simp
  then obtain q' where q': "mpmc_enq r' (endq u) = (True, q')" "mpmc_inv q'"
    "mpmc_items q' = mpmc_items (endq u) @ [r']" "mpmc_capacity q' = 2 ^ 12"
    using mpmc.enq_below [OF q(1), of r'] q(2) by auto
  have eng: "mset (engine u) = add_mset r (mset (engine (base s)) + mset (map (\<lambda>(i, r, r'). r) ?es))"
    using sv by (simp add: same_server_def filter_key_requests [OF es s(1)] del: mset_map)
  obtain xs ys where xs: "engine u = xs @ r # ys" "mset (xs @ ys) = mset (engine (base s)) + mset (map (\<lambda>(i, r, r'). r) ?es)"
    using mset_split [OF eng] by blast
  have "server_step e u (u\<lparr>wld := wld u, engine := xs @ ys, endq := q',
      finished := (if req_type r' = 1 then finished u @ [r'] else finished u)\<rparr>)"
    by (rule step_done [OF xs(1)]) (use r q'(1) in \<open>simp_all add: end_req_def\<close>)
  then obtain u' where u': "server_step e u u'" "u' = u\<lparr>engine := xs @ ys, endq := q'\<rparr>"
    using r(2) by simp
  have "roles ?s"
    by (rule roles_enqueue [OF ro r(1) move inv]) (use pcs es in \<open>auto intro: distinct_map_filter\<close>)
  moreover have "in_hand ?s = in_hand s"
    by (rule same_hand [OF sys]) (use h own_move_kinds(2) [OF move] r(1) in simp_all)
  then have "same_server ?s u'" using sv xs(2) unfolding same_server_def u'(2) by simp
  moreover have "same_queue (mq ?s) (endq u')"
    using q' q(3) h(3,4) bounds(3) by (simp add: u'(2) same_queue_def)
  ultimately have "served_as ?s u'" by (simp only: served_as_def)
  then show ?thesis using serve_step [OF reach u'(1)] by blast
qed

lemma match_enqueue:
  assumes s: "(i, r, r') \<in> set (ending s)" "enq_move i r' (mq s) m"
    and inv: "system_inv 12 m" and rel: "served_as s u" and reach: "server_reachable e q u"
  shows "\<exists>u'. server_reachable e q u' \<and> served_as (s\<lparr>mq := m, ending := (if accepted m = accepted (mq s)
      then ending s else filter (\<lambda>x. fst x \<noteq> i) (ending s))\<rparr>) u'"
proof -
  have move: "own_move i (mq s) m" and pcs: "enq_pc r' (pcs (mq s) i)" "enq_pc r' (pcs m i)"
    using s(2) by (simp_all add: enq_move_def)
  have ro: "roles s" and sv: "same_server s u" and qu: "same_queue (mq s) (endq u)"
    using rel by (simp_all add: served_as_def)
  have r: "i \<noteq> 0" "holds_put (pcs (mq s) i) = None" and es: "distinct (map fst (ending s))"
    using ro s(1) by (auto simp: roles_def)
  have pc0: "pcs m 0 = pcs (mq s) 0" using own_move_kinds(2) [OF move] r(1) by simp
  have only: "r2 = r'" if "(i, r1, r2) \<in> set (ending s)" for r1 r2
    using eq_key_imp_eq_value [OF es that s(1)] by simp
  note sys = roles_inv [OF ro]
  from own_move_kinds(3) [OF move] pcs show ?thesis
  proof (elim disjE)
    assume "goes_on (mq s) m (pcs (mq s) i) (pcs m i)"
    then have same: "accepted m = accepted (mq s)" "taken m = taken (mq s)" "holds_put (pcs m i) = None"
      using r(2) by (auto simp: goes_on_def)
    have "roles (s\<lparr>mq := m, ending := ending s\<rparr>)"
      by (rule roles_enqueue [OF ro r(1) move inv _ subset_refl es]) (use pcs same only in blast)+
    moreover have "in_hand (s\<lparr>mq := m, ending := ending s\<rparr>) = in_hand s"
      by (rule same_hand [OF sys pc0]) (simp add: same)
    ultimately have "served_as (s\<lparr>mq := m, ending := ending s\<rparr>) u"
      using sv qu same by (simp add: served_as_def same_server_def same_queue_def)
    then show ?thesis using reach same by auto
  next
    assume "takes_put (mq s) m (pcs (mq s) i) (pcs m i)"
    with match_put [OF s inv rel reach] show ?thesis by (auto simp: takes_put_def)
  next
    assume "takes_get (mq s) m (pcs (mq s) i) (pcs m i)"
    then show ?thesis using pcs by (auto simp: takes_get_def)
  qed
qed

lemma match_publish:
  assumes i: "i \<noteq> 0" and held: "holds_put (pcs (mq s) i) \<noteq> None" and move: "own_move i (mq s) m"
    and inv: "system_inv 12 m" and rel: "served_as s u"
  shows "served_as (s\<lparr>mq := m\<rparr>) u"
proof -
  have ro: "roles s" and sv: "same_server s u" and qu: "same_queue (mq s) (endq u)"
    using rel by (simp_all add: served_as_def)
  have pc0: "pcs m 0 = pcs (mq s) 0" using own_move_kinds(2) [OF move] i by simp
  have es: "distinct (map fst (ending s))" and none: "\<And>r r'. (i, r, r') \<notin> set (ending s)"
    using ro held by (auto simp: roles_def)
  have on: "accepted m = accepted (mq s)" "taken m = taken (mq s)" "\<exists>x. enq_pc x (pcs m i)"
    using own_move_kinds(3) [OF move] held by (auto simp: goes_on_def takes_put_def takes_get_def)
  have "roles (s\<lparr>mq := m, ending := ending s\<rparr>)"
    by (rule roles_enqueue [OF ro i move inv on(3) subset_refl es]) (use none in blast)+
  moreover have "in_hand (s\<lparr>mq := m, ending := ending s\<rparr>) = in_hand s"
    by (rule same_hand [OF roles_inv [OF ro] pc0]) (simp add: on)
  ultimately have "served_as (s\<lparr>mq := m, ending := ending s\<rparr>) u" using sv qu on
    by (simp add: served_as_def same_server_def same_queue_def)
  then show ?thesis by simp
qed

text \<open>The answering thread: what it holds once it has a ticket is the item of that ticket.\<close>

definition dequeued :: "server_threads \<Rightarrow> req system \<Rightarrow> server_threads" where
  "dequeued s m = s\<lparr>mq := m,
     base := (base s)\<lparr>answering := (case pcs (mq s) 0 of CStore t r \<Rightarrow> Some r | _ \<Rightarrow> None)\<rparr>\<rparr>"

lemma roles_dequeue:
  assumes s: "roles s" and move: "own_move 0 (mq s) m" and inv: "system_inv 12 m" and pc: "deq_pc (pcs m 0)"
    and got: "\<And>t x. pcs (mq s) 0 = CStore t x \<Longrightarrow> pcs m 0 = Idle"
  shows "roles (dequeued s m)"
proof -
  have same: "pcs m j = pcs (mq s) j" if "j \<noteq> 0" for j using own_move_kinds(2) [OF move that] .
  have "answering (base (dequeued s m)) \<noteq> None \<longrightarrow> pcs m 0 = Idle"
    using got by (cases "pcs (mq s) 0") (auto simp: dequeued_def)
  moreover have "ending (dequeued s m) = ending s" "mq (dequeued s m) = m" by (simp_all add: dequeued_def)
  ultimately show ?thesis using s inv pc same unfolding roles_def by fastforce
qed

lemma match_dequeue:
  assumes idle: "answering (base s) = None" and deq: "deq_move 0 (mq s) m"
    and inv: "system_inv 12 m" and rel: "served_as s u" and reach: "server_reachable e q u"
  shows "\<exists>u'. server_reachable e q u' \<and> served_as (dequeued s m) u'"
proof -
  have move: "own_move 0 (mq s) m" and pcs: "deq_pc (pcs (mq s) 0)" "deq_pc (pcs m 0)"
    using deq by (simp_all add: deq_move_def)
  have ro: "roles s" and sv: "same_server s u" and qu: "same_queue (mq s) (endq u)"
    using rel by (simp_all add: served_as_def)
  note sys = roles_inv [OF ro]
  note bounds = ring_bounds [OF sys]
  from own_move_kinds(3) [OF move] show ?thesis
  proof (elim disjE)
    assume on: "goes_on (mq s) m (pcs (mq s) 0) (pcs m 0)"
    then have same: "accepted m = accepted (mq s)" "taken m = taken (mq s)" by (simp_all add: goes_on_def)
    have "roles (dequeued s m)"
      by (rule roles_dequeue [OF ro move inv pcs(2)]) (use on in \<open>simp add: goes_on_def\<close>)
    moreover have "in_hand (dequeued s m) = in_hand s"
      using on idle pcs_ok [OF sys, of 0]
      by (cases "pcs (mq s) 0") (auto simp: in_hand_def dequeued_def goes_on_def split: option.splits)
    ultimately have "served_as (dequeued s m) u"
      using sv qu same by (simp add: served_as_def same_server_def same_queue_def dequeued_def)
    then show ?thesis using reach by blast
  next
    assume "takes_put (mq s) m (pcs (mq s) 0) (pcs m 0)"
    then show ?thesis using pcs by (auto simp: takes_put_def)
  next
    assume "takes_get (mq s) m (pcs (mq s) 0) (pcs m 0)"
    then obtain t where t: "pcs (mq s) 0 = CCmp t (t + 1)" "mp_tail (ring (mq s)) = t" "pcs m 0 = CRead t"
      "accepted m = accepted (mq s)" "taken m = taken (mq s) + 1" by (auto simp: takes_get_def)
    let ?x = "accepted (mq s) ! taken (mq s)"
    have "slot_full 12 (mq s) (taken (mq s))" using pcs_ok [OF sys t(1)] bounds(2) t(2) by simp
    then have "taken (mq s) < length (accepted (mq s))" by (simp add: slot_full_def)
    then have q: "mpmc_inv (endq u)" "mpmc_items (endq u) = ?x # drop (Suc (taken (mq s))) (accepted (mq s))"
      "mpmc_capacity (endq u) = 2 ^ 12"
      using qu by (simp_all add: same_queue_def Cons_nth_drop_Suc)
    obtain q' where q': "mpmc_deq (endq u) = (Some ?x, q')" "mpmc_inv q'"
      "mpmc_items q' = drop (Suc (taken (mq s))) (accepted (mq s))" "mpmc_capacity q' = 2 ^ 12"
      using mpmc.deq_item [OF q(1,2)] q(3) by auto
    have "answering u = None" using sv idle t(1) by (simp add: same_server_def in_hand_def)
    then have "server_step e u (u\<lparr>endq := q', answering := Some ?x\<rparr>)" using q'(1) by (rule step_take)
    then obtain u' where u': "server_step e u u'" "u' = u\<lparr>endq := q', answering := Some ?x\<rparr>" by blast
    have "roles (dequeued s m)" by (rule roles_dequeue [OF ro move inv pcs(2)]) (simp add: t(1))
    moreover have "in_hand (dequeued s m) = Some ?x" using t bounds(2) by (simp add: in_hand_def dequeued_def)
    ultimately have "served_as (dequeued s m) u'" using sv q' t(4,5)
      by (simp add: u'(2) served_as_def same_server_def same_queue_def dequeued_def)
    then show ?thesis using serve_step [OF reach u'(1)] by blast
  qed
qed

text \<open>The steps that leave the ring alone.\<close>

lemma served_base:
  assumes "served_as s u" and "answering b' = answering (base s) \<or> answering b' = None" and "endq u' = endq u"
    and "same_server (s\<lparr>base := b', ending := es\<rparr>) u'" and "roles (s\<lparr>ending := es\<rparr>)"
  shows "served_as (s\<lparr>base := b', ending := es\<rparr>) u'"
  using assms by (auto simp: served_as_def roles_def)

lemma in_hand_base:
  "answering b' = answering (base s) \<Longrightarrow> in_hand (s\<lparr>base := b', ending := es\<rparr>) = in_hand s"
  "answering b' = answering (base s) \<Longrightarrow> in_hand (s\<lparr>base := b'\<rparr>) = in_hand s"
  by (simp_all add: in_hand_def split: option.splits)

lemma matched:
  "server_reachable e q u \<Longrightarrow> server_step e u u' \<Longrightarrow> served_as s' u' \<Longrightarrow> \<exists>u'. server_reachable e q u' \<and> served_as s' u'"
  using serve_step by blast

lemma match_open:
  assumes rel: "served_as s u" and reach: "server_reachable e q u" and free: "conns (base s) i = None"
  shows "\<exists>u'. server_reachable e q u' \<and> served_as (s\<lparr>base := (base s)\<lparr>conns := (conns (base s))(i \<mapsto> (client_new f out)\<lparr>fd := sd, which_queue := j\<rparr>),
      sent := (sent (base s))(i := [])\<rparr>, ending := ending s\<rparr>) u'"
proof -
  have sv: "same_server s u" using rel by (simp add: served_as_def)
  then have "server_step e u (u\<lparr>conns := (conns u)(i \<mapsto> (client_new f out)\<lparr>fd := sd, which_queue := j\<rparr>), sent := (sent u)(i := [])\<rparr>)"
    using free by (intro step_open) (simp add: same_server_def)
  then show ?thesis
    by (rule matched [OF reach _ served_base [OF rel]]) (use rel sv in \<open>auto simp: same_server_def in_hand_base served_as_def\<close>)
qed

lemma match_close:
  assumes rel: "served_as s u" and reach: "server_reachable e q u" and c: "conns (base s) i = Some c"
  shows "\<exists>u'. server_reachable e q u' \<and> served_as (s\<lparr>base := (base s)\<lparr>conns := (conns (base s))(i := None)\<rparr>, ending := ending s\<rparr>) u'"
proof -
  have sv: "same_server s u" using rel by (simp add: served_as_def)
  then have "server_step e u (u\<lparr>conns := (conns u)(i := None)\<rparr>)"
    using c by (intro step_close) (simp add: same_server_def)
  then show ?thesis
    by (rule matched [OF reach _ served_base [OF rel]]) (use rel sv in \<open>auto simp: same_server_def in_hand_base served_as_def\<close>)
qed

lemma match_read:
  assumes rel: "served_as s u" and reach: "server_reachable e q u" and c: "conns (base s) i = Some c"
    and got: "on_read e i c (wld (base s)) rr ws = Ret (ret, out, c', w', ws')"
  shows "\<exists>u'. server_reachable e q u' \<and> served_as (s\<lparr>base := after_read i out c' w' (base s), ending := ending s\<rparr>) u'"
proof -
  have sv: "same_server s u" using rel by (simp add: served_as_def)
  then have "server_step e u (after_read i out c' w' u)"
    using c got by (intro step_read [of u i c]) (simp_all add: same_server_def)
  then show ?thesis
    by (rule matched [OF reach _ served_base [OF rel]]) (use rel sv in \<open>auto simp: same_server_def in_hand_base served_as_def after_read_def\<close>)
qed

lemma match_set:
  assumes rel: "served_as s u" and reach: "server_reachable e q u" and r: "engine (base s) = xs @ r # ys"
    "req_type r = 1" "req_type r' = 1" "req_client r' = req_client r" "req_key r' = req_key r" "dmaTag r' = dmaTag r"
  shows "\<exists>u'. server_reachable e q u' \<and> served_as (s\<lparr>base := (base s)\<lparr>wld := free_req r' (wld (base s)), engine := xs @ ys,
      finished := finished (base s) @ [r']\<rparr>, ending := ending s\<rparr>) u'"
proof -
  have sv: "same_server s u" using rel by (simp add: served_as_def)
  then have eng: "mset (engine u) = add_mset r (mset (xs @ ys) + mset (map (\<lambda>(i, r, r'). r) (ending s)))"
    using r(1) by (simp add: same_server_def)
  obtain as bs where as: "engine u = as @ r # bs"
    "mset (as @ bs) = mset (xs @ ys) + mset (map (\<lambda>(i, r, r'). r) (ending s))"
    using mset_split [OF eng] by blast
  have "server_step e u (u\<lparr>wld := free_req r' (wld u), engine := as @ bs, endq := endq u,
      finished := (if req_type r' = 1 then finished u @ [r'] else finished u)\<rparr>)"
    by (rule step_done [OF as(1)]) (use r in \<open>simp_all add: end_req_def\<close>)
  then obtain u' where u': "server_step e u u'"
    "u' = u\<lparr>wld := free_req r' (wld u), engine := as @ bs, finished := finished u @ [r']\<rparr>" using r(3) by simp
  from as(2) show ?thesis
    by (intro matched [OF reach u'(1) served_base [OF rel]]) (use rel sv u'(2) in \<open>auto simp: same_server_def in_hand_base served_as_def\<close>)
qed

lemma match_call:
  assumes rel: "served_as s u" and r: "engine (base s) = xs @ r # ys"
    "req_type r' \<noteq> 1" "req_client r' = req_client r" "req_key r' = req_key r" "dmaTag r' = dmaTag r"
    and i: "i \<noteq> 0" "pcs (mq s) i = Idle" "i \<notin> fst ` set (ending s)"
  shows "served_as (s\<lparr>base := (base s)\<lparr>engine := xs @ ys\<rparr>, ending := (i, r, r') # ending s\<rparr>) u"
proof -
  have "same_server s u" "roles s" using rel by (simp_all add: served_as_def)
  then show ?thesis
    by (intro served_base [OF rel]) (use r i in \<open>auto simp: same_server_def in_hand_base roles_def\<close>)
qed

lemma match_answer:
  assumes rel: "served_as s u" and reach: "server_reachable e q u" and r: "answering (base s) = Some r" "req_client r = Some i"
    and c: "conns (base s) i = Some c" and h: "end_req_q_handler r c (wld (base s)) ws = Ret (out, c', w', ws')"
  shows "\<exists>u'. server_reachable e q u' \<and> served_as (s\<lparr>base := (base s)\<lparr>conns := (conns (base s))(i \<mapsto> c'), wld := w', answering := None,
      finished := finished (base s) @ [r], sent := (sent (base s))(i := sent (base s) i @ out)\<rparr>, ending := ending s\<rparr>) u'"
proof -
  have sv: "same_server s u" and "roles s" using rel by (simp_all add: served_as_def)
  then have idle: "pcs (mq s) 0 = Idle" using r(1) by (simp add: roles_def)
  have "server_step e u (u\<lparr>conns := (conns u)(i \<mapsto> c'), wld := w', answering := None,
      finished := finished u @ [r], sent := (sent u)(i := sent u i @ out)\<rparr>)"
    using sv r c h idle by (intro step_answer [of u r i c]) (simp_all add: same_server_def in_hand_def)
  then show ?thesis
    by (rule matched [OF reach _ served_base [OF rel]]) (use rel sv idle in \<open>auto simp: same_server_def in_hand_def served_as_def\<close>)
qed

text \<open>Upholding the invariant of the ring.\<close>

lemma ring_move:
  assumes "own_move i (mq s) m" and "length (accepted m) < limit" and "served_as s u"
  shows "system_inv 12 m" and "length (accepted (mq s)) < limit"
proof -
  note step = own_move_kinds(1) [OF assms(1)]
  show lim: "length (accepted (mq s)) < limit" using accepted_mono [OF step] assms(2) by simp
  have "system_inv 12 (mq s)" using assms(3) by (simp add: served_as_def roles_def)
  then show "system_inv 12 m" by (rule thread_step_inv [OF step _ _ _ lim]) simp_all
qed

lemma match_server_step:
  assumes "server_thread_step e s s'" and "length (accepted (mq s')) < limit"
    and rel: "served_as s u" and reach: "server_reachable e q u"
  shows "\<exists>u'. server_reachable e q u' \<and> served_as s' u'"
  using assms(1)
proof cases
  case (t_open b i f out sd j)
  then show ?thesis using match_open [OF rel reach, of i f out sd j] by simp
next
  case (t_close b i c)
  then show ?thesis using match_close [OF rel reach, of i c] by simp
next
  case (t_read b i c rr ws ret out c' w' ws')
  then show ?thesis using match_read [OF rel reach, of i c rr ws ret out c' w' ws'] by simp
next
  case (t_set b xs r ys r')
  then show ?thesis using match_set [OF rel reach, of xs r ys r'] by simp
next
  case (t_call b xs r ys r' i)
  then show ?thesis using match_call [OF rel, of xs r ys r' i] reach by auto
next
  case (t_enqueue i r r' m)
  then have "own_move i (mq s) m" "length (accepted m) < limit" using assms(2) by (simp_all add: enq_move_def)
  from match_enqueue [OF t_enqueue(2,3) ring_move(1) [OF this rel] rel reach] show ?thesis using t_enqueue(1) by simp
next
  case (t_publish i m)
  then have "length (accepted m) < limit" using assms(2) by simp
  from match_publish [OF t_publish(2-4) ring_move(1) [OF t_publish(4) this rel] rel] show ?thesis
    using t_publish(1) reach by auto
next
  case (t_dequeue b m)
  then have "own_move 0 (mq s) m" "length (accepted m) < limit" using assms(2) by (simp_all add: deq_move_def)
  from match_dequeue [OF _ t_dequeue(4) ring_move(1) [OF this rel] rel reach] show ?thesis
    using t_dequeue(1-3) by (simp add: dequeued_def)
next
  case (t_answer b r i c ws out c' w' ws')
  then show ?thesis using match_answer [OF rel reach, of r i c ws out c' w' ws'] by simp
qed

lemma earlier_in_limit:
  assumes "server_thread_step e s s'" and "length (accepted (mq s')) < limit"
  shows "length (accepted (mq s)) < limit"
proof -
  have "length (accepted (mq s)) \<le> length (accepted (mq s'))"
    using assms(1) by cases (auto simp: enq_move_def deq_move_def own_move_def dest: accepted_mono)
  then show ?thesis using assms(2) by simp
qed

definition server_started :: "server_threads \<Rightarrow> bool" where
  "server_started s \<longleftrightarrow> (\<exists>js jd q. mpmc_new js jd 4096 = Some q \<and> s = server_threads_start q)"

definition served_from :: "env \<Rightarrow> server_threads \<Rightarrow> server \<Rightarrow> bool" where
  "served_from e s u \<longleftrightarrow> server_reachable e (ring (mq s)) u"

interpretation server_sim: run_simulation server_started "server_thread_step e"
    "\<lambda>s. length (accepted (mq s)) < limit" "served_from e" served_as for e
proof
  fix s0
  assume "server_started s0"
  then obtain js jd q where q: "mpmc_new js jd (2 ^ 12) = Some q" and s0: "s0 = server_threads_start q"
    by (auto simp: server_started_def)
  then have "served_as s0 (start_server q)"
    using start_inv [OF _ _ q] mpmc_new_inv [of 12 js jd]
    by (auto simp: served_as_def roles_def same_server_def same_queue_def in_hand_def server_threads_start_def
      start_system_def start_server_def intro: exI [of _ alloc_req])
  then show "\<exists>u. served_from e s0 u \<and> served_as s0 u"
    using serve_start [of e q] by (auto simp: served_from_def s0 server_threads_start_def start_system_def)
next
  fix s s' s0 u
  assume "server_thread_step e s s'" "length (accepted (mq s')) < limit" "served_from e s0 u" "served_as s u"
  then show "\<exists>u'. served_from e s0 u' \<and> served_as s' u'"
    using match_server_step unfolding served_from_def by blast
qed (rule earlier_in_limit)

section \<open>Properties\<close>

text \<open>
  C31: whatever the threads of the poll server do, in any interleaving of their accesses to the ring, is
  something the server does with whole calls on it: every state they reach has the connections, the
  storage, the finished requests and the bytes sent of a reachable state of \<open>System\<close>, whose engine also
  holds the requests still waiting for a slot.
\<close>

theorem server_threads_refine:
  assumes "mpmc_new js jd 4096 = Some q" and "(server_thread_step e)\<^sup>*\<^sup>* (server_threads_start q) s"
    and "length (accepted (mq s)) < limit"
  shows "\<exists>u. server_reachable e q u \<and> conns u = conns (base s) \<and> wld u = wld (base s) \<and>
    sent u = sent (base s) \<and> finished u = finished (base s) \<and> answering u = in_hand s \<and>
    mpmc_items (endq u) = drop (taken (mq s)) (accepted (mq s)) \<and>
    mset (engine u) = mset (engine (base s)) + mset (map (\<lambda>(i, r, r'). r) (ending s))"
proof -
  have "server_started (server_threads_start q)" using assms(1) by (auto simp: server_started_def)
  with server_sim.reach_related [OF assms(2,3)] obtain u where
    "served_from e (server_threads_start q) u" "served_as s u" by blast
  then show ?thesis
    by (auto simp: served_from_def served_as_def same_server_def same_queue_def server_threads_start_def start_system_def)
qed

section \<open>A run\<close>

text \<open>A \<open>get\<close> is read, the engine finishes it, and a thread of the engine is inside \<open>enqueue\<close>.\<close>

lemma sample_engine_thread:
  assumes q: "mpmc_new (\<lambda>_. 0) (\<lambda>_. alloc_req) 4096 = Some q"
  shows "\<exists>s r. (server_thread_step sample_env)\<^sup>*\<^sup>* (server_threads_start q) s \<and> length (accepted (mq s)) < limit \<and>
    engine (base s) = [] \<and> ending s = [(1, r, r)] \<and> pcs (mq s) 1 = PLoad r (mp_head q)"
proof -
  let ?s0 = "server_threads_start q"
  let ?c = "(client_new (\<lambda>_. NUL) (\<lambda>_. NUL))\<lparr>fd := 9, which_queue := 0\<rparr>"
  let ?got = "resp_command [''GET'', ''user'' @ dec 7]"
  obtain s1 where s1: "server_thread_step sample_env ?s0 s1"
    "conns (base s1) 5 = Some ?c" "wld (base s1) = init_world" "engine (base s1) = []" "mq s1 = start_system q" "ending s1 = []"
    by (rule that [OF t_open [OF refl, where i = 5 and f = "\<lambda>_. NUL" and out = "\<lambda>_. NUL" and sd = 9 and j = 0]])
      (simp_all add: server_threads_start_def start_server_def)
  have c: "parser_inv ?c" "output_inv ?c" "unread ?c = []" "\<not> output_valid ?c" "buf_idx ?c = 0"
    by (simp_all add: client_new_def parser_inv_def output_inv_def unread_def BUFSIZE_def OUTPUT_BUFSIZE_def)
  have len: "buf_idx ?c + int (length ?got) \<le> BUFSIZE"
    using c(5) by (simp add: resp_command_def length_resp_bulk length_dec_one BUFSIZE_def)
  have name: "list_all2 same_letter ''GET'' ''get''" by (simp add: same_letter_def c_char_def)
  have key: "length ''user'' = 4" "int 7 \<le> INT_MAX" by (simp_all add: INT_MAX_def)
  have engine: "\<forall>es. lr_make_req sample_env es \<noteq> - 1" by (simp add: sample_env_def)
  obtain c' w' r where r: "on_read sample_env 5 ?c init_world (Received ?got) [] = Ret (None, [], c', w', [])"
    "submitted (trace w') = submitted (trace init_world) @ [r]" "req_type r = 2"
    using on_read_get [OF c(1-4) refl len name key engine, of 5 init_world "[]"] by blast
  obtain s2 where s2: "server_thread_step sample_env s1 s2" "engine (base s2) = [] @ r # []" "mq s2 = start_system q" "ending s2 = []"
    using t_read [OF refl s1(2), of sample_env "Received ?got" "[]" None "[]" c' w' "[]"] s1(3-6) r(1,2)
    by (auto simp: after_read_def)
  obtain s3 where s3: "server_thread_step sample_env s2 s3" "engine (base s3) = []" "mq s3 = start_system q" "ending s3 = [(1, r, r)]"
    using t_call [OF refl s2(2), of r 1 sample_env] r(3) s2(3,4) by (auto simp: start_system_def)
  let ?m = "goto 1 (PLoad r (mp_head q)) (start_system q)"
  have "thread_step (start_system q) ?m"
    using enq_start [of "start_system q" 1 r] by (simp add: start_system_def)
  then have "enq_move 1 r (mq s3) ?m" using s3(3) by (simp add: enq_move_def own_move_def start_system_def)
  then obtain s4 where s4: "server_thread_step sample_env s3 s4" "engine (base s4) = []" "mq s4 = ?m" "ending s4 = [(1, r, r)]"
    using t_enqueue [of 1 r r s3 ?m sample_env] s3(2-4) by auto
  have "(server_thread_step sample_env)\<^sup>*\<^sup>* ?s0 s4"
    using s1(1) s2(1) s3(1) s4(1) by (meson converse_rtranclp_into_rtranclp rtranclp.rtrancl_refl)
  moreover have "length (accepted (mq s4)) < limit" using s4(3) by (simp add: start_system_def limit_def)
  moreover have "pcs (mq s4) 1 = PLoad r (mp_head q)" using s4(3) by simp
  ultimately show ?thesis using s4(2,4) by blast
qed

theorem server_threads_refine_witness:
  "\<exists>q s u. (server_thread_step sample_env)\<^sup>*\<^sup>* (server_threads_start q) s \<and> engine (base s) = [] \<and>
    pcs (mq s) 1 \<noteq> Idle \<and> server_reachable sample_env q u \<and> length (engine u) = 1"
proof -
  obtain q where q: "mpmc_new (\<lambda>_. 0) (\<lambda>_. alloc_req) 4096 = Some q" using sample_queue by blast
  obtain s r where s: "(server_thread_step sample_env)\<^sup>*\<^sup>* (server_threads_start q) s" "length (accepted (mq s)) < limit"
    "engine (base s) = []" "ending s = [(1, r, r)]" "pcs (mq s) 1 = PLoad r (mp_head q)"
    using sample_engine_thread [OF q] by blast
  from server_threads_refine [OF q s(1,2)] obtain u where
    u: "server_reachable sample_env q u" "mset (engine u) = mset [r]" using s(3,4) by auto
  have "length (engine u) = 1" using arg_cong [OF u(2), of size] by simp
  then show ?thesis using s u(1) by (intro exI [of _ q] exI [of _ s] exI [of _ u]) simp
qed

end
