(* ===== verification/StaleInput.thy ===== *)
theory StaleInput
  imports System
begin

text \<open>
  What \<open>on_read\<close> does when \<open>recv\<close> would block: it goes on with \<open>buf_len\<close> one smaller. On a connection
  with nothing unread the end of the input then is the largest \<open>size_t\<close>, and the reader takes the bytes
  of earlier commands that are still in the buffer for new input.
\<close>

lemma read_stale:
  assumes inv: "args_inv c" and idle: "buf_idx c = 0" "buf_len c = - 1" and as: "as \<noteq> []"
    and h: "holds (buf c) 0 (resp_command as)" and fits: "int (length (resp_command as)) \<le> BUFSIZE"
  shows "\<exists>c'. client_read_command c = Some (None, c') \<and> args_len c' = int (length as) \<and>
    (\<forall>j < length as. ended_arg c' (int j) (as ! j)) \<and> buf c' = buf c \<and>
    buf_idx c' = int (length (resp_command as)) \<and> buf_len c' = - 1 - int (length (resp_command as)) \<and>
    output_valid c' = output_valid c \<and> output_len c' = output_len c"
proof -
  let ?z = "18446744073709551615 :: int" and ?l = "int (length (dec (length as))) + 3"
  let ?L = "int (length (resp_command as))" and ?c = "c\<lparr>args_len := 0\<rparr>"
  have z: "to_size_t (buf_idx c) = 0" "to_size_t (buf_idx c + buf_len c) = ?z"
    by (simp_all add: idle to_size_t_def)
  have L: "?L = ?l + int (length (concat (map resp_bulk as)))" by (simp add: resp_command_def)
  have few: "length as < 10000000"
    using args_bytes [of as] fits L by (simp add: BUFSIZE_def)
  have hs: "buf c 0 = CHR ''*''" "holds (buf c) 1 (dec (length as) @ [CR, LF])"
    "holds (buf c) ?l (concat (map resp_bulk as))"
    using h by (simp_all add: resp_command_def holds_append algebra_simps)
  have count: "multibulk_loop ?c 1 ?z 1 = Some (Inr (int (length as), 1 + int (length (dec (length as))) + 2))"
    by (rule count_run) (use hs as few fits L in \<open>simp_all add: BUFSIZE_def INT_MAX_def\<close>)
  have inv': "args_inv ?c" "args_len ?c + int (length as) < BUFSIZE"
    using inv few fits L args_bytes [of as] by (simp_all add: args_inv_def BUFSIZE_def)
  obtain c1 where c1: "\<And>n. args_loop (length as + n) ?c False ?z ?l =
      args_loop n c1 False ?z (?l + int (length (concat (map resp_bulk as))))"
    "args_only ?c c1" "args_inv c1" "args_len c1 = int (length as)"
    "\<forall>j < length as. ended_arg c1 (int j) (as ! j)"
    using args_run [of ?c ?l as ?z] hs(3) fits L inv' by (auto simp: BUFSIZE_def)
  have loop: "args_loop (nat (int (length as))) ?c False ?z ?l = Some (Inr (c1, ?L))"
    using c1(1) [of 0] L by simp
  have zl: "\<not> ?z \<le> ?l" using fits L by (simp add: BUFSIZE_def)
  have "client_read_command c = Some (None, consume ?L c1)"
    using hs(1) count loop zl
    by (simp add: client_read_command_def z buf_at_def BUFSIZE_def read_args_def ac_simps Let_def)
  moreover note f = args_only_fields [OF c1(2)]
  have "to_int (- 1 - ?L) = - 1 - ?L" "to_int ?L = ?L"
    using fits by (simp_all add: to_int_def BUFSIZE_def)
  then have "consume ?L c1 = c1\<lparr>buf_len := - 1 - ?L, buf_idx := ?L\<rparr>"
    using f idle by (simp add: consume_def Let_def)
  ultimately show ?thesis using c1(4,5) f
    by (intro exI [of _ "consume ?L c1"]) (simp add: ended_arg_def)
qed

lemma stale_get_again:
  assumes inv: "args_inv c" and idle: "buf_idx c = 0" "buf_len c = 0"
    and h: "holds (buf c) 0 (resp_command [name, pre @ dec n])"
    and fits: "int (length (resp_command [name, pre @ dec n])) \<le> BUFSIZE"
    and name: "list_all2 same_letter name ''get''" and key: "length pre = 4" "int n \<le> INT_MAX"
    and engine: "\<forall>es. lr_make_req e es \<noteq> - 1"
  shows "\<exists>c1 w1 r. (\<forall>m. client_exec_commands (Suc m) e cid (c\<lparr>buf_len := buf_len c - 1\<rparr>) w =
      client_exec_commands m e cid c1 w1) \<and>
    submitted (trace w1) = submitted (trace w) @ [r] \<and>
    req_client r = Some cid \<and> req_type r = 2 \<and> req_key r = int n + 1 \<and> buf c1 = buf c \<and>
    buf_idx c1 = int (length (resp_command [name, pre @ dec n])) \<and> buf_idx c1 + buf_len c1 = - 1 \<and>
    output_valid c1 = output_valid c \<and> output_len c1 = output_len c"
proof -
  let ?c = "c\<lparr>buf_len := buf_len c - 1\<rparr>"
  obtain c1 where c1: "client_read_command ?c = Some (None, c1)" "args_len c1 = 2"
    "\<forall>j < 2. ended_arg c1 (int j) ([name, pre @ dec n] ! j)" "buf c1 = buf c"
    "buf_idx c1 = int (length (resp_command [name, pre @ dec n]))"
    "buf_len c1 = - 1 - int (length (resp_command [name, pre @ dec n]))"
    "output_valid c1 = output_valid c" "output_len c1 = output_len c"
    using read_stale [of ?c "[name, pre @ dec n]"] inv idle h fits by (auto simp: args_inv_def)
  have e: "ended_arg c1 0 name" "ended_arg c1 1 (pre @ dec n)"
    using c1(3) [rule_format, of 0] c1(3) [rule_format, of 1] by simp_all
  obtain w1 r where exec: "exec_command e cid c1 w = Ret (None, c1, w1)"
    and r: "submitted (trace w1) = submitted (trace w) @ [r]" "req_client r = Some cid" "req_type r = 2"
      "req_key r = int n + 1"
    using get_exec [OF e c1(2) name key engine, of cid w] by auto
  have "client_exec_commands (Suc m) e cid ?c w = client_exec_commands m e cid c1 w1" for m
    unfolding client_exec_commands.simps(2) by (simp add: c1(1) exec)
  then show ?thesis using r c1(4-8) by (intro exI [of _ c1] exI [of _ w1] exI [of _ r]) simp
qed

lemma error_reply_fits:
  assumes "0 \<le> output_len c" and "NUL \<notin> set m" and "output_len c + int (length m) + 7 \<le> OUTPUT_BUFSIZE"
  shows "\<exists>c'. client_write_error m c = Some c' \<and> input_same c c' \<and> output_valid c' = output_valid c"
proof -
  have m: "cstr m = m" using assms(2) by (auto simp: cstr_def takeWhile_eq_all_conv)
  have "\<exists>c'. client_write_error m c = Some c' \<and> output_valid c' = output_valid c"
    using assms(1,3) by (simp add: client_write_error_def client_write_def client_write_byte_def m)
  then show ?thesis using untouched.client_write_error_keeps by blast
qed

text \<open>A count line without a carriage return ends the loop.\<close>

lemma stale_error:
  assumes i: "0 \<le> buf_idx c" "buf_idx c + 2 \<le> BUFSIZE" "buf_idx c + buf_len c = - 1"
    and h: "holds (buf c) (buf_idx c) [CHR ''*'', LF]"
  shows "client_read_command c = Some (Some (Message invalid_multibulk), c\<lparr>args_len := 0\<rparr>)"
proof -
  let ?z = "18446744073709551615 :: int" and ?c = "c\<lparr>args_len := 0\<rparr>"
  have z: "to_size_t (buf_idx c) = buf_idx c" "to_size_t (buf_idx c + buf_len c) = ?z" "to_size_t (- 1) = ?z"
    using i by (simp_all add: to_size_t_def BUFSIZE_def)
  have "multibulk_loop ?c (buf_idx c + 1) ?z (buf_idx c + 1) = Some (Inl invalid_multibulk)"
    using i h by (subst multibulk_loop.simps) (simp add: buf_at_def BUFSIZE_def)
  then show ?thesis using h i by (simp add: client_read_command_def z buf_at_def BUFSIZE_def Let_def)
qed

lemma stale_get_run:
  assumes inv: "args_inv c" and idle: "buf_idx c = 0" "buf_len c = 0" "\<not> output_valid c"
    and h: "holds (buf c) 0 (resp_command [name, pre @ dec n] @ [CHR ''*'', LF])"
    and fits: "int (length (resp_command [name, pre @ dec n])) + 2 \<le> BUFSIZE"
    and name: "list_all2 same_letter name ''get''" and key: "length pre = 4" "int n \<le> INT_MAX"
    and engine: "\<forall>es. lr_make_req e es \<noteq> - 1"
    and room: "0 \<le> output_len c" "output_len c + 100 \<le> OUTPUT_BUFSIZE"
  shows "\<exists>c' w' r. on_read e cid c w RecvWouldBlock ws = Ret (Some 1, [], c', w', ws) \<and>
    submitted (trace w') = submitted (trace w) @ [r] \<and>
    req_client r = Some cid \<and> req_type r = 2 \<and> req_key r = int n + 1"
proof -
  let ?L = "int (length (resp_command [name, pre @ dec n]))"
  have h': "holds (buf c) 0 (resp_command [name, pre @ dec n])" "holds (buf c) ?L [CHR ''*'', LF]"
    using h by (simp_all only: holds_append add_0)
  have "?L \<le> BUFSIZE" using fits by simp
  from stale_get_again [OF inv idle(1,2) h'(1) this name key engine, of cid w] obtain c1 w1 r where
    run: "\<And>m. client_exec_commands (Suc m) e cid (c\<lparr>buf_len := buf_len c - 1\<rparr>) w =
      client_exec_commands m e cid c1 w1"
    and r: "submitted (trace w1) = submitted (trace w) @ [r]" "req_client r = Some cid" "req_type r = 2"
      "req_key r = int n + 1"
    and c1: "buf c1 = buf c" "buf_idx c1 = ?L" "buf_idx c1 + buf_len c1 = - 1"
      "output_valid c1 = output_valid c" "output_len c1 = output_len c"
    by blast
  have read: "client_read_command c1 = Some (Some (Message invalid_multibulk), c1\<lparr>args_len := 0\<rparr>)"
    by (rule stale_error) (use c1 fits h'(2) in simp_all)
  have "\<exists>c2. client_write_error invalid_multibulk (c1\<lparr>args_len := 0\<rparr>) = Some c2 \<and>
      input_same (c1\<lparr>args_len := 0\<rparr>) c2 \<and> output_valid c2 = output_valid (c1\<lparr>args_len := 0\<rparr>)"
    by (rule error_reply_fits) (use room c1(5) in \<open>simp_all add: invalid_multibulk_def\<close>)
  then obtain c2 where c2: "client_write_error invalid_multibulk (c1\<lparr>args_len := 0\<rparr>) = Some c2"
    "input_same (c1\<lparr>args_len := 0\<rparr>) c2" "output_valid c2 = output_valid (c1\<lparr>args_len := 0\<rparr>)"
    by blast
  have "client_exec_commands exec_fuel e cid (c\<lparr>buf_len := buf_len c - 1\<rparr>) w = Ret (False, c2, w1)"
    unfolding exec_fuel_def add_2_eq_Suc' run by (simp add: read c2(1))
  moreover have "compact c2 = Ret c2" using c1(3) c2(2)
    by (simp add: compact_def input_same_def BUFSIZE_def)
  ultimately have "on_data e cid (c\<lparr>buf_len := buf_len c - 1\<rparr>) w ws = Ret (Some 1, [], c2, w1, ws)"
    using c1(4) c2(3) idle(3) by (simp add: on_data_def)
  then have "on_read e cid c w RecvWouldBlock ws = Ret (Some 1, [], c2, w1, ws)" by (simp add: on_read_def)
  with r show ?thesis by blast
qed

section \<open>Properties\<close>

text \<open>
  C17: when a \<open>recv\<close> on a connection with nothing unread would block and its buffer still begins with
  a \<open>get\<close> that was served, followed by an asterisk and a line feed, which is no command and ends the loop
  over the commands, the \<open>get\<close> is executed again: its request is submitted a second time although
  nothing was received.
\<close>

theorem would_block_replays:
  assumes "args_inv c" and "buf_idx c = 0" and "buf_len c = 0" and "\<not> output_valid c"
    and "holds (buf c) 0 (resp_command [name, pre @ dec n] @ [CHR ''*'', LF])"
    and "int (length (resp_command [name, pre @ dec n])) + 2 \<le> BUFSIZE"
    and "list_all2 same_letter name ''get''" and "length pre = 4" and "int n \<le> INT_MAX"
    and "\<forall>es. lr_make_req e es \<noteq> - 1"
    and "0 \<le> output_len c" and "output_len c + 100 \<le> OUTPUT_BUFSIZE"
  shows "\<exists>c' w' r. on_read e cid c w RecvWouldBlock ws = Ret (Some 1, [], c', w', ws) \<and>
    submitted (trace w') = submitted (trace w) @ [r] \<and>
    req_client r = Some cid \<and> req_type r = 2 \<and> req_key r = int n + 1"
  by (rule stale_get_run [OF assms])

theorem would_block_replays_witness:
  "\<exists>c' w'. on_read sample_env 5 ((client_of (resp_command [''GET'', ''user'' @ dec 7] @ [CHR ''*'', LF]))\<lparr>buf_len := 0\<rparr>)
     init_world RecvWouldBlock [] = Ret (Some 1, [], c', w', []) \<and>
    map req_key (submitted (trace w')) = [8]"
proof -
  let ?xs = "resp_command [''GET'', ''user'' @ dec 7] @ [CHR ''*'', LF]"
  let ?c = "(client_of ?xs)\<lparr>buf_len := 0\<rparr>"
  have c: "args_inv ?c" "buf_idx ?c = 0" "buf_len ?c = 0" "\<not> output_valid ?c" "0 \<le> output_len ?c"
    "output_len ?c + 100 \<le> OUTPUT_BUFSIZE"
    by (simp_all add: client_of_def client_new_def args_inv_def BUFSIZE_def OUTPUT_BUFSIZE_def)
  have h: "holds (buf ?c) 0 ?xs"
    using unread_holds [OF client_of_unread [of ?xs]] by (simp add: client_of_def client_new_def)
  have len: "int (length (resp_command [''GET'', ''user'' @ dec 7])) + 2 \<le> BUFSIZE"
    by (simp add: resp_command_def length_resp_bulk length_dec_one BUFSIZE_def)
  have name: "list_all2 same_letter ''GET'' ''get''" by (simp add: same_letter_def c_char_def)
  have engine: "\<forall>es. lr_make_req sample_env es \<noteq> - 1" by (simp add: sample_env_def)
  from would_block_replays [OF c(1-4) h len name _ _ engine c(5,6), of 5 init_world "[]"]
  show ?thesis by (auto simp: init_world_def INT_MAX_def)
qed

end
