(* ===== verification/Poller.thy ===== *)
theory Poller
  imports Server
begin

text \<open>
  \<open>polling_worker\<close> of \<open>poll_server.cpp\<close> and its variants: the table of polled descriptors, accepting
  connections, serving those that are readable, and closing up the table. What \<open>poll\<close>, \<open>accept\<close>,
  \<open>recv\<close> and \<open>write\<close> return is input: when it is used up the call has not returned (\<open>Loops\<close>). The
  clients that \<open>client_new\<close> allocates are numbered and a number is never used again, so that a
  pointer to a freed client is recognised.
\<close>

definition MAX_CLNT :: int where "MAX_CLNT = 2000"

type_synonym clients = "nat \<Rightarrow> client option"

section \<open>State\<close>

text \<open>
  An accepted connection: its descriptor, whether the three \<open>setsockopt\<close> calls succeed, and what
  \<open>malloc\<close> leaves in the two buffers of its client.
\<close>

datatype accept_result = Accepted int bool mem mem | AcceptWouldBlock | AcceptError

datatype poll_result = PollError | PollTimeout | Ready "int \<Rightarrow> int"

datatype poll_event = Closed int | SetBlocking int bool | Sent int "byte list"

text \<open>
  The variables of \<open>polling_worker\<close>, the clients in memory, the engine, and the results of the system
  calls still to come. \<open>clients[i]\<close> is \<open>None\<close> for \<open>NULL\<close>.
\<close>

record poller =
  pfds :: "int \<Rightarrow> int"
  pclients :: "int \<Rightarrow> nat option"
  nfds :: int
  end_server :: bool
  compress_array :: bool
  is_listen_sd :: bool
  store :: clients
  next_client :: nat
  engine_world :: world
  accepts :: "accept_result list"
  recvs :: "recv_result list"
  writes :: "write_result list"
  events :: "poll_event list"

type_synonym reader = "env \<Rightarrow> nat \<Rightarrow> client \<Rightarrow> world \<Rightarrow> recv_result \<Rightarrow> write_result list \<Rightarrow> read_state outcome"

text \<open>\<open>None\<close>: the client has been freed before.\<close>

definition client_free :: "nat option \<Rightarrow> clients \<Rightarrow> clients option" where
  "client_free c s =
     (case c of None \<Rightarrow> Some s | Some k \<Rightarrow> if s k = None then None else Some (s(k := None)))"

definition client_close :: "nat option \<Rightarrow> clients \<Rightarrow> clients option" where
  "client_close c s = client_free c s"

section \<open>Accepting\<close>

text \<open>\<open>blocking\<close>: the mode that \<open>fcntl\<close> sets, or \<open>None\<close> where the server leaves it.\<close>

definition add_client :: "bool option \<Rightarrow> int \<Rightarrow> int \<Rightarrow> mem \<Rightarrow> mem \<Rightarrow> poller \<Rightarrow> poller outcome" where
  "add_client blocking j new_sd b out p =
     (if MAX_CLNT \<le> nfds p then Undef
      else Ret (p\<lparr>pfds := (pfds p)(nfds p := new_sd),
                  pclients := (pclients p)(nfds p := Some (next_client p)),
                  store := (store p)(next_client p \<mapsto> (client_new b out)\<lparr>fd := new_sd, which_queue := j\<rparr>),
                  next_client := next_client p + 1,
                  nfds := nfds p + 1,
                  events := events p @ (case blocking of None \<Rightarrow> [] | Some b \<Rightarrow> [SetBlocking new_sd b])\<rparr>))"

fun accept_loop :: "bool option \<Rightarrow> int \<Rightarrow> accept_result list \<Rightarrow> poller \<Rightarrow> poller outcome" where
  "accept_loop blocking j [] p = Loops"
| "accept_loop blocking j (AcceptWouldBlock # as) p = Ret (p\<lparr>accepts := as\<rparr>)"
| "accept_loop blocking j (AcceptError # as) p = Ret (p\<lparr>accepts := as, end_server := True\<rparr>)"
| "accept_loop blocking j (Accepted new_sd opts b out # as) p =
     (if \<not> opts then Exit 1
      else and_then (add_client blocking j new_sd b out p) (accept_loop blocking j as))"

text \<open>The loop over the listening sockets for entry \<open>i\<close> of the table.\<close>

fun listen_loop :: "bool option \<Rightarrow> int \<Rightarrow> int \<Rightarrow> int list \<Rightarrow> poller \<Rightarrow> poller outcome" where
  "listen_loop blocking i j [] p = Ret p"
| "listen_loop blocking i j (listen_sd # sds) p =
     (if pfds p i = listen_sd
      then and_then (accept_loop blocking j (accepts p) (p\<lparr>is_listen_sd := True\<rparr>))
             (listen_loop blocking i (j + 1) sds)
      else listen_loop blocking i (j + 1) sds p)"

section \<open>Serving\<close>

text \<open>
  \<open>on_read\<close> ends without a return statement unless the connection is to be closed; \<open>leftover\<close> is the
  value that the compiled function leaves then.
\<close>

definition returned :: "bool \<Rightarrow> int option \<Rightarrow> bool" where
  "returned leftover ret = (case ret of None \<Rightarrow> leftover | Some v \<Rightarrow> v \<noteq> 0)"

definition close_entry :: "int \<Rightarrow> poller \<Rightarrow> poller option" where
  "close_entry i p = map_option (\<lambda>s. p\<lparr>events := events p @ [Closed (pfds p i)], store := s\<rparr>)
     (client_close (pclients p i) (store p))"

definition serve_client :: "reader \<Rightarrow> bool \<Rightarrow> env \<Rightarrow> int \<Rightarrow> poller \<Rightarrow> poller outcome" where
  "serve_client rd leftover e i p =
     (case pclients p i of
        None \<Rightarrow> Undef
      | Some k \<Rightarrow>
          (case store p k of
             None \<Rightarrow> Undef
           | Some c \<Rightarrow>
               (case recvs p of
                  [] \<Rightarrow> Loops
                | rr # rs \<Rightarrow>
                    and_then (rd e k c (engine_world p) rr (writes p)) (\<lambda>(ret, out, c', w', ws').
                      let p1 = p\<lparr>store := (store p)(k \<mapsto> c'), engine_world := w', recvs := rs,
                                 writes := ws', events := events p @ [Sent (fd c) out]\<rparr>
                      in if returned leftover ret
                         then and_then (defined (close_entry i p1)) (\<lambda>p2.
                                Ret (p2\<lparr>pfds := (pfds p2)(i := - 1), compress_array := True\<rparr>))
                         else Ret p1))))"

definition poll_entry :: "reader \<Rightarrow> bool option \<Rightarrow> bool \<Rightarrow> env \<Rightarrow> int list \<Rightarrow> (int \<Rightarrow> int) \<Rightarrow> int \<Rightarrow> poller \<Rightarrow> poller outcome" where
  "poll_entry rd blocking leftover e sds revents i p =
     (if revents i = 0 then Ret p
      else and_then (listen_loop blocking i 0 sds p) (\<lambda>p1.
           if \<not> is_listen_sd p1 then serve_client rd leftover e i (p1\<lparr>is_listen_sd := False\<rparr>) else Ret p1))"

text \<open>The first argument counts the entries left of the \<open>current_size\<close> ones.\<close>

fun poll_loop :: "reader \<Rightarrow> bool option \<Rightarrow> bool \<Rightarrow> env \<Rightarrow> int list \<Rightarrow> (int \<Rightarrow> int) \<Rightarrow> nat \<Rightarrow> int \<Rightarrow> poller \<Rightarrow> poller outcome" where
  "poll_loop rd blocking leftover e sds revents 0 i p = Ret p"
| "poll_loop rd blocking leftover e sds revents (Suc n) i p =
     and_then (poll_entry rd blocking leftover e sds revents i p)
       (poll_loop rd blocking leftover e sds revents n (i + 1))"

section \<open>Closing up the table\<close>

text \<open>\<open>n\<close> counts the passes left; the last pass reads the entry behind the table.\<close>

fun shift_loop :: "nat \<Rightarrow> int \<Rightarrow> poller \<Rightarrow> poller outcome" where
  "shift_loop 0 j p = Ret p"
| "shift_loop (Suc n) j p =
     (if MAX_CLNT \<le> j + 1 then Undef
      else shift_loop n (j + 1) (p\<lparr>pfds := (pfds p)(j := pfds p (j + 1)),
                                   pclients := (pclients p)(j := pclients p (j + 1))\<rparr>))"

fun compress_loop :: "nat \<Rightarrow> int \<Rightarrow> poller \<Rightarrow> poller outcome" where
  "compress_loop 0 i p = Ret p"
| "compress_loop (Suc n) i p =
     (if nfds p \<le> i then Ret p
      else if pfds p i = - 1
           then and_then (shift_loop (nat (nfds p - i)) i p) (\<lambda>p1.
                  compress_loop n (i + 1) (p1\<lparr>nfds := nfds p1 - 1\<rparr>))
           else compress_loop n (i + 1) p)"

definition compress_fds :: "poller \<Rightarrow> poller outcome" where
  "compress_fds p =
     (if compress_array p then compress_loop (nat (nfds p)) 0 (p\<lparr>compress_array := False\<rparr>) else Ret p)"

section \<open>The worker\<close>

definition poll_round :: "reader \<Rightarrow> bool option \<Rightarrow> bool \<Rightarrow> env \<Rightarrow> int list \<Rightarrow> (int \<Rightarrow> int) \<Rightarrow> poller \<Rightarrow> poller outcome" where
  "poll_round rd blocking leftover e sds revents p =
     and_then (poll_loop rd blocking leftover e sds revents (nat (nfds p)) 0 (p\<lparr>is_listen_sd := False\<rparr>))
       compress_fds"

fun poll_rounds :: "reader \<Rightarrow> bool option \<Rightarrow> bool \<Rightarrow> env \<Rightarrow> int list \<Rightarrow> poll_result list \<Rightarrow> poller \<Rightarrow> poller outcome" where
  "poll_rounds rd blocking leftover e sds [] p = Loops"
| "poll_rounds rd blocking leftover e sds (PollError # rs) p = Ret p"
| "poll_rounds rd blocking leftover e sds (PollTimeout # rs) p = Ret p"
| "poll_rounds rd blocking leftover e sds (Ready revents # rs) p =
     and_then (poll_round rd blocking leftover e sds revents p) (\<lambda>p1.
       if end_server p1 then Ret p1 else poll_rounds rd blocking leftover e sds rs p1)"

text \<open>\<open>junk\<close>: the uninitialised part of \<open>clients\<close>.\<close>

definition poll_setup :: "int list \<Rightarrow> (int \<Rightarrow> nat option) \<Rightarrow> world \<Rightarrow> accept_result list \<Rightarrow> recv_result list \<Rightarrow>
    write_result list \<Rightarrow> poller" where
  "poll_setup sds junk w as rs ws =
     \<lparr>pfds = (\<lambda>i. if 0 \<le> i \<and> i < int (length sds) then sds ! nat i else 0),
      pclients = (\<lambda>i. if 0 \<le> i \<and> i < int (length sds) then None else junk i),
      nfds = int (length sds), end_server = False, compress_array = False, is_listen_sd = False,
      store = Map.empty, next_client = 0, engine_world = w, accepts = as, recvs = rs, writes = ws,
      events = []\<rparr>"

text \<open>\<open>sds\<close>: the descriptors \<open>listen_sds[start_idx ..< start_idx + socks_num]\<close>.\<close>

definition polling_worker :: "bool \<Rightarrow> env \<Rightarrow> int list \<Rightarrow> poll_result list \<Rightarrow> (int \<Rightarrow> nat option) \<Rightarrow> world \<Rightarrow>
    accept_result list \<Rightarrow> recv_result list \<Rightarrow> write_result list \<Rightarrow> poller outcome" where
  "polling_worker leftover e sds polls junk w as rs ws =
     (if MAX_CLNT < int (length sds) then Undef
      else poll_rounds on_read (Some True) leftover e sds polls (poll_setup sds junk w as rs ws))"

definition buse_polling_worker :: "bool \<Rightarrow> env \<Rightarrow> int list \<Rightarrow> poll_result list \<Rightarrow> (int \<Rightarrow> nat option) \<Rightarrow> world \<Rightarrow>
    accept_result list \<Rightarrow> recv_result list \<Rightarrow> write_result list \<Rightarrow> poller outcome" where
  "buse_polling_worker leftover e sds polls junk w as rs ws =
     (if MAX_CLNT < int (length sds) then Undef
      else poll_rounds buse_on_read (Some False) leftover e sds polls (poll_setup sds junk w as rs ws))"

definition busefs_polling_worker :: "bool \<Rightarrow> env \<Rightarrow> int list \<Rightarrow> poll_result list \<Rightarrow> (int \<Rightarrow> nat option) \<Rightarrow> world \<Rightarrow>
    accept_result list \<Rightarrow> recv_result list \<Rightarrow> write_result list \<Rightarrow> poller outcome" where
  "busefs_polling_worker leftover e sds polls junk w as rs ws =
     (if MAX_CLNT < int (length sds) then Undef
      else poll_rounds busefs_on_read (Some False) leftover e sds polls (poll_setup sds junk w as rs ws))"

section \<open>The worker of \<open>multi_server.cpp\<close>\<close>

text \<open>One listening socket, in entry 0; every other entry is served in the same round.\<close>

definition multi_entry :: "bool \<Rightarrow> env \<Rightarrow> int \<Rightarrow> (int \<Rightarrow> int) \<Rightarrow> int \<Rightarrow> poller \<Rightarrow> poller outcome" where
  "multi_entry leftover e listen_sd revents i p =
     (if revents i = 0 then Ret p
      else if pfds p i = listen_sd then accept_loop None 0 (accepts p) p
      else serve_client multi_on_read leftover e i p)"

fun multi_loop :: "bool \<Rightarrow> env \<Rightarrow> int \<Rightarrow> (int \<Rightarrow> int) \<Rightarrow> nat \<Rightarrow> int \<Rightarrow> poller \<Rightarrow> poller outcome" where
  "multi_loop leftover e listen_sd revents 0 i p = Ret p"
| "multi_loop leftover e listen_sd revents (Suc n) i p =
     and_then (multi_entry leftover e listen_sd revents i p)
       (multi_loop leftover e listen_sd revents n (i + 1))"

fun multi_rounds :: "bool \<Rightarrow> env \<Rightarrow> int \<Rightarrow> poll_result list \<Rightarrow> poller \<Rightarrow> poller outcome" where
  "multi_rounds leftover e listen_sd [] p = Loops"
| "multi_rounds leftover e listen_sd (PollError # rs) p = Ret p"
| "multi_rounds leftover e listen_sd (PollTimeout # rs) p = Ret p"
| "multi_rounds leftover e listen_sd (Ready revents # rs) p =
     and_then (multi_loop leftover e listen_sd revents (nat (nfds p)) 0 p) (\<lambda>p1.
     and_then (compress_fds p1) (\<lambda>p2.
       if end_server p2 then Ret p2 else multi_rounds leftover e listen_sd rs p2))"

fun close_all :: "nat \<Rightarrow> int \<Rightarrow> poller \<Rightarrow> poller option" where
  "close_all 0 i p = Some p"
| "close_all (Suc n) i p =
     (if 0 \<le> pfds p i then Option.bind (close_entry i p) (close_all n (i + 1)) else close_all n (i + 1) p)"

definition multi_polling_worker :: "bool \<Rightarrow> env \<Rightarrow> int \<Rightarrow> poll_result list \<Rightarrow> (int \<Rightarrow> nat option) \<Rightarrow> world \<Rightarrow>
    accept_result list \<Rightarrow> recv_result list \<Rightarrow> write_result list \<Rightarrow> poller outcome" where
  "multi_polling_worker leftover e listen_sd polls junk w as rs ws =
     and_then (multi_rounds leftover e listen_sd polls (poll_setup [listen_sd] junk w as rs ws)) (\<lambda>p.
       defined (close_all (nat (nfds p)) 0 p))"

text \<open>One pass of \<open>worker\<close>, which no thread runs.\<close>

definition multi_worker_pass :: "env \<Rightarrow> nat \<Rightarrow> client \<Rightarrow> world \<Rightarrow> write_result list \<Rightarrow> read_state outcome" where
  "multi_worker_pass e cid c w ws =
     and_then (client_exec_commands exec_fuel e cid c w) (\<lambda>(keep_alive, c1, w1).
     and_then (if output_valid c1 \<and> buf_idx c1 + buf_len c1 = 0
               then and_then (client_flush_offset (output_offset c1) c1 ws) (\<lambda>(out, c2, ws').
                      Ret (out, (client_clear c2)\<lparr>time_valid := 1\<rparr>, ws'))
               else Ret ([], c1, ws)) (\<lambda>(out, c3, ws').
     Ret (None, out, c3\<lparr>output_valid := False\<rparr>, w1, ws')))"

section \<open>Start\<close>

text \<open>What the system calls for one listening socket return; \<open>fcntl\<close> is not checked.\<close>

record sock_setup =
  sock_sd :: int
  reuse_ok :: bool
  sndbuf_ok :: bool
  rcvbuf_ok :: bool
  ioctl_ok :: bool
  bind_ok :: bool
  listen_ok :: bool

text \<open>The sockets with the ports they listen at. The first argument counts those still to open.\<close>

fun init_loop :: "nat \<Rightarrow> int \<Rightarrow> bool \<Rightarrow> int \<Rightarrow> sock_setup list \<Rightarrow> (int \<times> int) list outcome" where
  "init_loop 0 port ioctl i rs = Ret []"
| "init_loop (Suc n) port ioctl i [] = Loops"
| "init_loop (Suc n) port ioctl i (r # rs) =
     (if sock_sd r < 0 then Exit (- 1)
      else if \<not> reuse_ok r then Exit (- 1)
      else if \<not> sndbuf_ok r then Exit 1
      else if \<not> rcvbuf_ok r then Exit 1
      else if ioctl \<and> \<not> ioctl_ok r then Exit (- 1)
      else if \<not> bind_ok r then Exit (- 1)
      else if \<not> listen_ok r then Exit (- 1)
      else and_then (init_loop n port ioctl (i + 1) rs) (\<lambda>xs.
           Ret ((sock_sd r, (port + i) mod 65536) # xs)))"

definition init_socket :: "nat \<Rightarrow> sock_setup list \<Rightarrow> (int \<times> int) list outcome" where
  "init_socket num rs = init_loop num 7777 False 0 rs"

definition buse_init_socket :: "nat \<Rightarrow> sock_setup list \<Rightarrow> (int \<times> int) list outcome" where
  "buse_init_socket num rs = init_loop num 7777 False 0 rs"

definition busefs_init_socket :: "nat \<Rightarrow> sock_setup list \<Rightarrow> (int \<times> int) list outcome" where
  "busefs_init_socket num rs = init_loop num 7777 False 0 rs"

definition multi_init_socket :: "nat \<Rightarrow> sock_setup list \<Rightarrow> (int \<times> int) list outcome" where
  "multi_init_socket num rs = init_loop num 8888 True 0 rs"

text \<open>
  What \<open>main\<close> sets up: the queues of finished requests, the listening sockets, the answering threads
  (by queue) and the polling threads (by the sockets they poll).
\<close>

record startup =
  queues :: "req mpmc list"
  sockets :: "(int \<times> int) list"
  handlers :: "nat list"
  workers :: "int list list"

definition THREAD_NUM :: nat where "THREAD_NUM = 1"

definition PORT_NUM :: nat where "PORT_NUM = 1"

definition QUEUE_NUM :: nat where "QUEUE_NUM = 1"

definition excute_polling_worker :: "int list \<Rightarrow> nat \<Rightarrow> int list" where
  "excute_polling_worker sds start_idx = take (PORT_NUM div THREAD_NUM) (drop start_idx sds)"

text \<open>\<open>None\<close> from \<open>mpmc_new\<close> is a failed assertion, which aborts the process.\<close>

definition main_start :: "(nat \<Rightarrow> sock_setup list \<Rightarrow> (int \<times> int) list outcome) \<Rightarrow>
    (nat \<Rightarrow> 64 word) \<Rightarrow> (nat \<Rightarrow> req) \<Rightarrow> sock_setup list \<Rightarrow> startup outcome" where
  "main_start init js jd rs =
     (case mpmc_new js jd 4096 of
        None \<Rightarrow> Exit 134
      | Some q \<Rightarrow>
          and_then (init PORT_NUM rs) (\<lambda>sds.
            Ret \<lparr>queues = replicate QUEUE_NUM q, sockets = sds, handlers = [0..<QUEUE_NUM],
                 workers = map (\<lambda>i. excute_polling_worker (map fst sds) (i * (PORT_NUM div THREAD_NUM)))
                             [0..<THREAD_NUM]\<rparr>))"

definition poll_main :: "(nat \<Rightarrow> 64 word) \<Rightarrow> (nat \<Rightarrow> req) \<Rightarrow> sock_setup list \<Rightarrow> startup outcome" where
  "poll_main = main_start init_socket"

definition buse_main :: "(nat \<Rightarrow> 64 word) \<Rightarrow> (nat \<Rightarrow> req) \<Rightarrow> sock_setup list \<Rightarrow> startup outcome" where
  "buse_main = main_start buse_init_socket"

definition busefs_main :: "(nat \<Rightarrow> 64 word) \<Rightarrow> (nat \<Rightarrow> req) \<Rightarrow> sock_setup list \<Rightarrow> startup outcome" where
  "busefs_main = main_start busefs_init_socket"

definition multi_main :: "sock_setup list \<Rightarrow> startup outcome" where
  "multi_main rs =
     and_then (multi_init_socket 4 rs) (\<lambda>sds.
       Ret \<lparr>queues = [], sockets = sds, handlers = [], workers = map (\<lambda>sd. [fst sd]) sds\<rparr>)"

end
