(* ===== verification/PollerProps.thy ===== *)
theory PollerProps
  imports Poller System
begin

text \<open>
  The polling worker never touches a freed client and keeps its table in order; closing up the table
  against a specification on lists; the start of the servers. \<open>reader\<close> is what the worker relies on
  when it calls \<open>on_read\<close>.
\<close>

section \<open>What the worker relies on\<close>

locale reader =
  fixes rd :: reader
  assumes keeps: "client_ok c \<Longrightarrow> rr \<noteq> RecvWouldBlock \<Longrightarrow> rd e k c w rr ws = Ret (ret, out, c', w', ws') \<Longrightarrow>
    client_ok c' \<and> fd c' = fd c"

lemma on_read_client_ok:
  assumes "client_ok c" and "rr \<noteq> RecvWouldBlock" and "on_read e k c w rr ws = Ret (ret, out, c', w', ws')"
  shows "client_ok c' \<and> fd c' = fd c"
proof (cases rr)
  case (Received bs)
  have "on_read e k c w (Received bs) ws = Ret (ret, out, c', w', ws')" using assms(3) Received by simp
  from on_read_inv [OF _ _ this] show ?thesis using assms(1) by (simp add: client_ok_def)
qed (use assms in \<open>auto simp: on_read_def\<close>)

section \<open>The table\<close>

text \<open>
  The listening sockets stay in front; every other entry with a descriptor has a client of its own
  in memory, with that descriptor.
\<close>

definition live :: "int list \<Rightarrow> poller \<Rightarrow> int \<Rightarrow> bool" where
  "live sds p i \<longleftrightarrow> int (length sds) \<le> i \<and> i < nfds p \<and> 0 \<le> pfds p i"

definition poller_inv :: "int list \<Rightarrow> poller \<Rightarrow> bool" where
  "poller_inv sds p \<longleftrightarrow>
     (\<forall>sd \<in> set sds. 0 \<le> sd) \<and> int (length sds) \<le> nfds p \<and> nfds p \<le> MAX_CLNT \<and>
     (\<forall>i < length sds. pfds p (int i) = sds ! i) \<and>
     (\<forall>i. live sds p i \<longrightarrow> (\<exists>k c. pclients p i = Some k \<and> store p k = Some c \<and> fd c = pfds p i)) \<and>
     (\<forall>i j. live sds p i \<longrightarrow> live sds p j \<longrightarrow> pclients p i = pclients p j \<longrightarrow> i = j) \<and>
     (\<forall>k c. store p k = Some c \<longrightarrow> k < next_client p \<and> client_ok c)"

lemma poller_invD:
  assumes "poller_inv sds p"
  shows "\<And>sd. sd \<in> set sds \<Longrightarrow> 0 \<le> sd" and "int (length sds) \<le> nfds p" and "nfds p \<le> MAX_CLNT"
    and "\<And>i. i < length sds \<Longrightarrow> pfds p (int i) = sds ! i"
    and "\<And>i. live sds p i \<Longrightarrow> \<exists>k c. pclients p i = Some k \<and> store p k = Some c \<and> fd c = pfds p i"
    and "\<And>i j. live sds p i \<Longrightarrow> live sds p j \<Longrightarrow> pclients p i = pclients p j \<Longrightarrow> i = j"
    and "\<And>k c. store p k = Some c \<Longrightarrow> k < next_client p \<and> client_ok c"
  using assms unfolding poller_inv_def by blast+

lemma add_client_inv:
  assumes inv: "poller_inv sds p" and r: "add_client b j sd bf out p = Ret p'"
  shows "poller_inv sds p'"
proof -
  note d = poller_invD [OF inv]
  let ?k = "next_client p"
  have p': "p' = p\<lparr>pfds := (pfds p)(nfds p := sd), pclients := (pclients p)(nfds p := Some ?k),
      store := (store p)(?k \<mapsto> (client_new bf out)\<lparr>fd := sd, which_queue := j\<rparr>),
      next_client := ?k + 1, nfds := nfds p + 1,
      events := events p @ (case b of None \<Rightarrow> [] | Some b \<Rightarrow> [SetBlocking sd b])\<rparr>" and room: "nfds p < MAX_CLNT"
    using r by (auto simp: add_client_def split: if_splits)
  have live: "live sds p' i \<longleftrightarrow> (if i = nfds p then 0 \<le> sd else live sds p i)" for i
    using d(2) by (auto simp: live_def p')
  have fresh: "\<exists>k c. pclients p i = Some k \<and> store p k = Some c \<and> fd c = pfds p i \<and> k \<noteq> ?k" if "live sds p i" for i
    using d(5) [OF that] d(7) by blast
  have ok: "client_ok ((client_new bf out)\<lparr>fd := sd, which_queue := j\<rparr>)"
    using client_new_ok [of bf out] by (simp add: client_ok_def parser_inv_def)
  show ?thesis unfolding poller_inv_def live
  proof (intro conjI allI impI ballI)
    fix i assume "if i = nfds p then 0 \<le> sd else live sds p i"
    then show "\<exists>k c. pclients p' i = Some k \<and> store p' k = Some c \<and> fd c = pfds p' i"
      using fresh [of i] by (cases "i = nfds p") (auto simp: p')
  next
    fix i j assume "if i = nfds p then 0 \<le> sd else live sds p i" "if j = nfds p then 0 \<le> sd else live sds p j"
      "pclients p' i = pclients p' j"
    then show "i = j"
      using fresh [of i] fresh [of j] d(6) [of i j] by (auto simp: p' split: if_splits)
  next
    fix k c assume "store p' k = Some c"
    then show "k < next_client p'" "client_ok c"
      using d(7) [of k c] ok by (auto simp: p' split: if_splits)
  qed (use d room in \<open>auto simp: p'\<close>)
qed

section \<open>Steps of a round\<close>

text \<open>Accepting only adds entries at the end.\<close>

definition grown :: "poller \<Rightarrow> poller \<Rightarrow> bool" where
  "grown p p' \<longleftrightarrow> nfds p \<le> nfds p' \<and> (\<forall>x < nfds p. pfds p' x = pfds p x) \<and> recvs p' = recvs p \<and>
     (is_listen_sd p \<longrightarrow> is_listen_sd p')"

lemma grown_refl [simp]: "grown p p"
  by (simp add: grown_def)

lemma grown_trans: "grown p p1 \<Longrightarrow> grown p1 p2 \<Longrightarrow> grown p p2"
  by (auto simp: grown_def)

lemma poller_inv_flags [simp]:
  "poller_inv sds (p\<lparr>is_listen_sd := f\<rparr>) = poller_inv sds p"
  "poller_inv sds (p\<lparr>compress_array := f\<rparr>) = poller_inv sds p"
  "poller_inv sds (p\<lparr>end_server := f\<rparr>) = poller_inv sds p"
  "poller_inv sds (p\<lparr>accepts := as\<rparr>) = poller_inv sds p"
  by (simp_all add: poller_inv_def live_def)

lemma add_client_grown:
  "add_client b j sd bf out p = Ret p' \<Longrightarrow> grown p p' \<and> nfds p' = nfds p + 1 \<and> is_listen_sd p' = is_listen_sd p"
  by (auto simp: add_client_def grown_def split: if_splits)

lemma accept_loop_facts:
  "accept_loop b j as p = Ret p' \<Longrightarrow> poller_inv sds p \<Longrightarrow>
     poller_inv sds p' \<and> grown p p' \<and> nfds p' + int (length (accepts p')) \<le> nfds p + int (length as)"
proof (induction b j as p rule: accept_loop.induct)
  case (4 b j sd opts bf out as p)
  then obtain p1 where p1: "add_client b j sd bf out p = Ret p1" "accept_loop b j as p1 = Ret p'" and opts: opts
    by (auto split: if_splits)
  have "poller_inv sds p' \<and> grown p1 p' \<and> nfds p' + int (length (accepts p')) \<le> nfds p1 + int (length as)"
    using 4 add_client_inv [OF "4.prems"(2) p1(1)] p1(2) opts by blast
  then show ?case using add_client_grown [OF p1(1)] grown_trans by fastforce
qed (auto simp: grown_def)

lemma accept_loop_defined:
  "nfds p + int (length as) < MAX_CLNT \<Longrightarrow> accept_loop b j as p \<noteq> Undef"
proof (induction b j as p rule: accept_loop.induct)
  case (4 b j sd opts bf out as p)
  show ?case
  proof (cases opts)
    case True
    have "\<exists>p1. add_client b j sd bf out p = Ret p1" using "4.prems" by (simp add: add_client_def)
    then obtain p1 where p1: "add_client b j sd bf out p = Ret p1" by blast
    then have "nfds p1 = nfds p + 1" using add_client_grown by blast
    then show ?thesis using "4.IH" [of p1] "4.prems" p1 True by simp
  qed simp
qed simp_all

lemma listen_loop_facts:
  "listen_loop b i j ls p = Ret p' \<Longrightarrow> poller_inv sds p \<Longrightarrow> i < nfds p \<Longrightarrow>
     poller_inv sds p' \<and> grown p p' \<and>
     nfds p' + int (length (accepts p')) \<le> nfds p + int (length (accepts p)) \<and>
     (pfds p i \<in> set ls \<longrightarrow> is_listen_sd p') \<and> (pfds p i \<notin> set ls \<longrightarrow> p' = p)"
proof (induction b i j ls p rule: listen_loop.induct)
  case (2 b i j l ls p)
  show ?case
  proof (cases "pfds p i = l")
    case True
    let ?p = "p\<lparr>is_listen_sd := True\<rparr>"
    obtain p1 where p1: "accept_loop b j (accepts p) ?p = Ret p1" "listen_loop b i (j + 1) ls p1 = Ret p'"
      using "2.prems"(1) True by auto
    have f: "poller_inv sds p1" "grown ?p p1" "nfds p1 + int (length (accepts p1)) \<le> nfds p + int (length (accepts p))"
      using accept_loop_facts [OF p1(1), of sds] "2.prems"(2) by auto
    have "i < nfds p1" using f(2) "2.prems"(3) by (auto simp: grown_def)
    from "2.IH"(1) [OF True p1(2) f(1) this] have g: "poller_inv sds p'" "grown p1 p'"
      "nfds p' + int (length (accepts p')) \<le> nfds p1 + int (length (accepts p1))" by blast+
    have "grown p p1" and "is_listen_sd p1" using f(2) by (simp_all add: grown_def)
    then show ?thesis using g f(3) True grown_trans [of p p1 p'] by (auto simp: grown_def)
  next
    case False
    then show ?thesis using 2 by simp
  qed
qed simp

lemma listen_loop_defined:
  "poller_inv sds p \<Longrightarrow> i < nfds p \<Longrightarrow> nfds p + int (length (accepts p)) < MAX_CLNT \<Longrightarrow>
     listen_loop b i j ls p \<noteq> Undef"
proof (induction b i j ls p rule: listen_loop.induct)
  case (2 b i j l ls p)
  show ?case
  proof (cases "pfds p i = l")
    case True
    let ?p = "p\<lparr>is_listen_sd := True\<rparr>"
    show ?thesis
    proof (cases "accept_loop b j (accepts p) ?p")
      case (Ret p1)
      have f: "poller_inv sds p1" "grown ?p p1" "nfds p1 + int (length (accepts p1)) \<le> nfds p + int (length (accepts p))"
        using accept_loop_facts [OF Ret, of sds] "2.prems"(1) by auto
      have "i < nfds p1" using f(2) "2.prems"(2) by (auto simp: grown_def)
      then show ?thesis using "2.IH"(1) [OF True f(1)] f(3) "2.prems"(3) Ret True by simp
    next
      case Undef
      then show ?thesis using accept_loop_defined [of ?p "accepts p" b j] "2.prems"(3) by simp
    qed (use True in simp_all)
  qed (use 2 in simp)
qed simp

text \<open>Changing a client that stays in memory, and closing an entry.\<close>

lemma update_client_inv:
  assumes inv: "poller_inv sds p" and k: "store p k = Some c" and c': "client_ok c'" "fd c' = fd c"
  shows "poller_inv sds (p\<lparr>store := (store p)(k \<mapsto> c'), engine_world := w, recvs := rs, writes := ws, events := es\<rparr>)"
    (is "poller_inv sds ?p")
proof -
  note d = poller_invD [OF inv]
  have live: "live sds ?p = live sds p" by (simp add: live_def fun_eq_iff)
  show ?thesis unfolding poller_inv_def live
  proof (intro conjI allI impI ballI)
    fix i assume "live sds p i"
    then show "\<exists>k c. pclients ?p i = Some k \<and> store ?p k = Some c \<and> fd c = pfds ?p i"
      using d(5) [of i] k c'(2) by auto
  next
    fix k' c'' assume "store ?p k' = Some c''"
    then show "k' < next_client ?p" "client_ok c''"
      using d(7) [of k' c''] d(7) [OF k] c'(1) by (auto split: if_splits)
  qed (use d in auto)
qed

lemma close_entry_inv:
  assumes inv: "poller_inv sds p" and i: "live sds p i" and r: "close_entry i p = Some p1"
  shows "poller_inv sds (p1\<lparr>pfds := (pfds p1)(i := - 1), compress_array := True\<rparr>)" (is "poller_inv sds ?p")
proof -
  note d = poller_invD [OF inv]
  obtain k c where k: "pclients p i = Some k" "store p k = Some c" using d(5) [OF i] by blast
  have p1: "p1 = p\<lparr>events := events p @ [Closed (pfds p i)], store := (store p)(k := None)\<rparr>"
    using r k by (auto simp: close_entry_def client_close_def client_free_def)
  have live: "live sds ?p j \<longleftrightarrow> live sds p j \<and> j \<noteq> i" for j by (auto simp: live_def p1)
  have other: "pclients p j \<noteq> Some k" if "live sds p j" "j \<noteq> i" for j
    using d(6) [OF that(1) i] that(2) k(1) by auto
  show ?thesis unfolding poller_inv_def live
  proof (intro conjI allI impI ballI)
    fix j assume j: "live sds p j \<and> j \<noteq> i"
    then show "\<exists>k c. pclients ?p j = Some k \<and> store ?p k = Some c \<and> fd c = pfds ?p j"
      using d(5) [of j] other [of j] by (auto simp: p1)
  next
    fix k' c' assume "store ?p k' = Some c'"
    then show "k' < next_client ?p" "client_ok c'" using d(7) [of k' c'] by (auto simp: p1 split: if_splits)
  next
    fix j assume "j < length sds"
    then show "pfds ?p (int j) = sds ! j" using d(4) i by (auto simp: p1 live_def)
  next
    fix j j' assume "live sds p j \<and> j \<noteq> i" "live sds p j' \<and> j' \<noteq> i" "pclients ?p j = pclients ?p j'"
    then show "j = j'" using d(6) [of j j'] by (simp add: p1)
  qed (use d in \<open>simp_all add: p1\<close>)
qed

text \<open>The call of \<open>on_read\<close> that serving entry \<open>i\<close> makes, on a client in memory, is undefined.\<close>

definition undefined_call :: "reader \<Rightarrow> env \<Rightarrow> int \<Rightarrow> poller \<Rightarrow> bool" where
  "undefined_call rd e i p \<longleftrightarrow> (\<exists>k c rr rs. pclients p i = Some k \<and> store p k = Some c \<and> recvs p = rr # rs \<and>
     rd e k c (engine_world p) rr (writes p) = Undef)"

lemma listen_loop_other: "pfds p i \<notin> set ls \<Longrightarrow> listen_loop b i j ls p = Ret p"
  by (induction b i j ls p rule: listen_loop.induct) auto

text \<open>The loop is undefined exactly at the first entry that is.\<close>

lemma poll_loop_undef:
  "poll_loop rd b leftover e sds revents n i p = Undef \<longleftrightarrow>
     (\<exists>m < n. \<exists>p1. poll_loop rd b leftover e sds revents m i p = Ret p1 \<and>
        poll_entry rd b leftover e sds revents (i + int m) p1 = Undef)"
proof (induction n arbitrary: i p)
  case (Suc n)
  show ?case
    by (cases "poll_entry rd b leftover e sds revents i p")
      (simp_all add: Ex_less_Suc2 Suc.IH algebra_simps)
qed simp

context reader
begin

lemma serve_inv:
  assumes inv: "poller_inv sds p" and i: "live sds p i" and wb: "RecvWouldBlock \<notin> set (recvs p)"
    and r: "serve_client rd leftover e i p = Ret p'"
  shows "poller_inv sds p' \<and> nfds p' = nfds p \<and> (\<forall>x. x \<noteq> i \<longrightarrow> pfds p' x = pfds p x) \<and>
    set (recvs p') \<subseteq> set (recvs p) \<and> accepts p' = accepts p \<and> is_listen_sd p' = is_listen_sd p"
proof -
  obtain k c where k: "pclients p i = Some k" "store p k = Some c"
    using poller_invD(5) [OF inv i] by blast
  obtain rr rs where rs: "recvs p = rr # rs" using r k by (cases "recvs p") (auto simp: serve_client_def)
  obtain ret out c' w' ws' where rd: "rd e k c (engine_world p) rr (writes p) = Ret (ret, out, c', w', ws')"
    using r k rs by (auto simp: serve_client_def)
  let ?p1 = "p\<lparr>store := (store p)(k \<mapsto> c'), engine_world := w', recvs := rs, writes := ws',
    events := events p @ [Sent (fd c) out]\<rparr>"
  have "client_ok c" using poller_invD(7) [OF inv k(2)] by blast
  then have "client_ok c' \<and> fd c' = fd c" using keeps [OF _ _ rd] wb rs by auto
  then have inv1: "poller_inv sds ?p1" using update_client_inv [OF inv k(2)] by blast
  have live1: "live sds ?p1 i" using i by (simp add: live_def)
  show ?thesis
  proof (cases "returned leftover ret")
    case True
    then obtain p2 where p2: "close_entry i ?p1 = Some p2"
      "p' = p2\<lparr>pfds := (pfds p2)(i := - 1), compress_array := True\<rparr>"
      using r k rs rd by (auto simp: serve_client_def Let_def)
    have "p2 = ?p1\<lparr>events := events ?p1 @ [Closed (pfds p i)], store := (store ?p1)(k := None)\<rparr>"
      using p2(1) k by (auto simp: close_entry_def client_close_def client_free_def)
    then show ?thesis using close_entry_inv [OF inv1 live1 p2(1)] p2(2) rs by auto
  next
    case False
    then have "p' = ?p1" using r k rs rd by (auto simp: serve_client_def Let_def)
    then show ?thesis using inv1 rs by auto
  qed
qed

lemma serve_undef:
  assumes inv: "poller_inv sds p" and i: "live sds p i"
  shows "serve_client rd leftover e i p = Undef \<longleftrightarrow> undefined_call rd e i p"
proof -
  obtain k c where k: "pclients p i = Some k" "store p k = Some c"
    using poller_invD(5) [OF inv i] by blast
  show ?thesis
  proof (cases "recvs p")
    case (Cons rr rs)
    show ?thesis using k Cons
      by (cases "rd e k c (engine_world p) rr (writes p)")
        (auto simp: serve_client_def undefined_call_def Let_def close_entry_def client_close_def client_free_def
          defined_def split: if_splits)
  qed (use k in \<open>simp add: serve_client_def undefined_call_def\<close>)
qed

lemma entry_inv:
  assumes inv: "poller_inv sds p" and i: "0 \<le> i" "i < nfds p" "pfds p i < 0 \<longrightarrow> revents i = 0"
    and wb: "RecvWouldBlock \<notin> set (recvs p)"
    and r: "poll_entry rd b leftover e sds revents i p = Ret p'"
  shows "poller_inv sds p' \<and> nfds p \<le> nfds p' \<and> (\<forall>x < nfds p. x \<noteq> i \<longrightarrow> pfds p' x = pfds p x) \<and>
    set (recvs p') \<subseteq> set (recvs p) \<and> nfds p' + int (length (accepts p')) \<le> nfds p + int (length (accepts p))"
proof (cases "revents i = 0")
  case False
  then obtain p1 where p1: "listen_loop b i 0 sds p = Ret p1"
    and rest: "(if \<not> is_listen_sd p1 then serve_client rd leftover e i (p1\<lparr>is_listen_sd := False\<rparr>) else Ret p1) = Ret p'"
    using r by (auto simp: poll_entry_def)
  note f = listen_loop_facts [OF p1 inv i(2)]
  show ?thesis
  proof (cases "is_listen_sd p1")
    case True
    then show ?thesis using rest f by (auto simp: grown_def)
  next
    case notl: False
    then have "pfds p i \<notin> set sds" and eq: "p1 = p" using f by auto
    then have "\<not> i < int (length sds)" using poller_invD(4) [OF inv, of "nat i"] i(1) by (force simp: nth_mem)
    then have live: "live sds (p\<lparr>is_listen_sd := False\<rparr>) i" using i False by (auto simp: live_def)
    have r': "serve_client rd leftover e i (p\<lparr>is_listen_sd := False\<rparr>) = Ret p'" using rest notl eq by simp
    from serve_inv [OF _ live _ r'] inv wb show ?thesis by simp
  qed
qed (use r inv in \<open>simp add: poll_entry_def\<close>)

lemma entry_undef:
  assumes inv: "poller_inv sds p" and i: "0 \<le> i" "i < nfds p" "pfds p i < 0 \<longrightarrow> revents i = 0"
    and room: "nfds p + int (length (accepts p)) < MAX_CLNT"
  shows "poll_entry rd b leftover e sds revents i p = Undef \<longleftrightarrow>
    revents i \<noteq> 0 \<and> \<not> is_listen_sd p \<and> pfds p i \<notin> set sds \<and> undefined_call rd e i p"
proof (cases "revents i = 0 \<or> is_listen_sd p \<or> pfds p i \<in> set sds")
  case True
  show ?thesis
  proof (cases "listen_loop b i 0 sds p")
    case (Ret p1)
    then have "revents i = 0 \<or> is_listen_sd p1"
      using listen_loop_facts [OF Ret inv i(2)] True by (auto simp: grown_def)
    then show ?thesis using True Ret by (auto simp: poll_entry_def)
  qed (use True listen_loop_defined [OF inv i(2) room, of b 0 sds] in \<open>auto simp: poll_entry_def\<close>)
next
  case False
  then have "\<not> i < int (length sds)" using poller_invD(4) [OF inv, of "nat i"] i(1) by (force simp: nth_mem)
  then have live: "live sds (p\<lparr>is_listen_sd := False\<rparr>) i" using i False by (auto simp: live_def)
  have "listen_loop b i 0 sds p = Ret p" using False by (simp add: listen_loop_other)
  then have "poll_entry rd b leftover e sds revents i p =
      serve_client rd leftover e i (p\<lparr>is_listen_sd := False\<rparr>)" using False by (simp add: poll_entry_def)
  then show ?thesis using serve_undef [OF _ live] inv False by (simp add: undefined_call_def)
qed

lemma loop_inv:
  "poller_inv sds p \<Longrightarrow> 0 \<le> i \<Longrightarrow> i + int n \<le> nfds p \<Longrightarrow>
     \<forall>x. i \<le> x \<and> x < i + int n \<and> pfds p x < 0 \<longrightarrow> revents x = 0 \<Longrightarrow>
     RecvWouldBlock \<notin> set (recvs p) \<Longrightarrow> poll_loop rd b leftover e sds revents n i p = Ret p' \<Longrightarrow>
     poller_inv sds p' \<and> nfds p \<le> nfds p' \<and> (\<forall>x. i + int n \<le> x \<and> x < nfds p \<longrightarrow> pfds p' x = pfds p x) \<and>
     nfds p' + int (length (accepts p')) \<le> nfds p + int (length (accepts p))"
proof (induction n arbitrary: i p)
  case (Suc n)
  have i: "0 \<le> i" "i < nfds p" "pfds p i < 0 \<longrightarrow> revents i = 0" using Suc.prems by auto
  obtain p1 where p1: "poll_entry rd b leftover e sds revents i p = Ret p1"
    "poll_loop rd b leftover e sds revents n (i + 1) p1 = Ret p'"
    using Suc.prems(6) by auto
  note f = entry_inv [OF Suc.prems(1) i Suc.prems(5) p1(1)]
  have "\<forall>x. i + 1 \<le> x \<and> x < i + 1 + int n \<and> pfds p1 x < 0 \<longrightarrow> revents x = 0"
    using f Suc.prems(3,4) by auto
  moreover have "i + 1 + int n \<le> nfds p1" "RecvWouldBlock \<notin> set (recvs p1)" using f Suc.prems(3,5) by auto
  ultimately have g: "poller_inv sds p' \<and> nfds p1 \<le> nfds p' \<and>
     (\<forall>x. i + 1 + int n \<le> x \<and> x < nfds p1 \<longrightarrow> pfds p' x = pfds p1 x) \<and>
     nfds p' + int (length (accepts p')) \<le> nfds p1 + int (length (accepts p1))"
    using Suc.IH [of p1 "i + 1"] f Suc.prems(2) p1(2) by auto
  have "pfds p' x = pfds p x" if "i + int (Suc n) \<le> x" "x < nfds p" for x
  proof -
    have "pfds p' x = pfds p1 x" using g f that by simp
    also have "\<dots> = pfds p x" using f that by simp
    finally show ?thesis .
  qed
  then show ?case using f g by auto
qed simp

end

section \<open>Closing up the table\<close>

lemma shift_loop_runs:
  assumes "j + int n < MAX_CLNT"
  shows "shift_loop n j p = Ret (p\<lparr>pfds := (\<lambda>x. if j \<le> x \<and> x < j + int n then pfds p (x + 1) else pfds p x),
    pclients := (\<lambda>x. if j \<le> x \<and> x < j + int n then pclients p (x + 1) else pclients p x)\<rparr>)"
  using assms
proof (induction n arbitrary: j p)
  case 0
  have id: "(\<lambda>x. if j \<le> x \<and> x < j then f (x + 1) else f x) = f" for f :: "int \<Rightarrow> 'x"
    by (intro ext if_not_P) simp
  show ?case by (simp add: id)
next
  case (Suc n)
  let ?p = "p\<lparr>pfds := (pfds p)(j := pfds p (j + 1)), pclients := (pclients p)(j := pclients p (j + 1))\<rparr>"
  have shift: "(\<lambda>x. if j + 1 \<le> x \<and> x < j + 1 + int n then (f(j := f (j + 1))) (x + 1) else (f(j := f (j + 1))) x) =
      (\<lambda>x. if j \<le> x \<and> x < j + int (Suc n) then f (x + 1) else f x)" for f :: "int \<Rightarrow> 'x"
    by (auto simp: fun_eq_iff)
  have f: "pfds ?p = (pfds p)(j := pfds p (j + 1))" "pclients ?p = (pclients p)(j := pclients p (j + 1))"
    by simp_all
  have "shift_loop (Suc n) j p = shift_loop n (j + 1) ?p" using Suc.prems by simp
  also have "\<dots> = Ret (?p\<lparr>pfds := (\<lambda>x. if j + 1 \<le> x \<and> x < j + 1 + int n then pfds ?p (x + 1) else pfds ?p x),
    pclients := (\<lambda>x. if j + 1 \<le> x \<and> x < j + 1 + int n then pclients ?p (x + 1) else pclients ?p x)\<rparr>)"
    by (rule Suc.IH) (use Suc.prems in simp)
  also have "\<dots> = Ret (p\<lparr>pfds := (\<lambda>x. if j \<le> x \<and> x < j + int (Suc n) then pfds p (x + 1) else pfds p x),
    pclients := (\<lambda>x. if j \<le> x \<and> x < j + int (Suc n) then pclients p (x + 1) else pclients p x)\<rparr>)"
    unfolding f shift by simp
  finally show ?case .
qed

text \<open>The table as a list.\<close>

definition table :: "poller \<Rightarrow> (int \<times> nat option) list" where
  "table p = map (\<lambda>x. (pfds p (int x), pclients p (int x))) [0..<nat (nfds p)]"

text \<open>Closing up drops a closed entry and keeps the entry behind it, even when that is closed too.\<close>

fun squeeze :: "(int \<times> nat option) list \<Rightarrow> (int \<times> nat option) list" where
  "squeeze [] = []"
| "squeeze [x] = (if fst x = - 1 then [] else [x])"
| "squeeze (x # y # xs) = (if fst x = - 1 then y # squeeze xs else x # squeeze (y # xs))"

definition removed :: "int \<Rightarrow> poller \<Rightarrow> poller" where
  "removed i p = p\<lparr>pfds := (\<lambda>x. if i \<le> x \<and> x < nfds p then pfds p (x + 1) else pfds p x),
     pclients := (\<lambda>x. if i \<le> x \<and> x < nfds p then pclients p (x + 1) else pclients p x),
     nfds := nfds p - 1\<rparr>"

lemma compress_step:
  assumes "0 \<le> i" and "i < nfds p" and "nfds p < MAX_CLNT" and "pfds p i = - 1"
  shows "compress_loop (Suc n) i p = compress_loop n (i + 1) (removed i p)"
proof -
  have "i + int (nat (nfds p - i)) = nfds p" using assms(2) by simp
  then show ?thesis using shift_loop_runs [of i "nat (nfds p - i)" p] assms by (simp add: removed_def)
qed

lemma removed_table:
  assumes "0 \<le> i" and "i < nfds p"
  shows "table (removed i p) = take (nat i) (table p) @ drop (Suc (nat i)) (table p)"
proof (rule nth_equalityI)
  show len: "length (table (removed i p)) = length (take (nat i) (table p) @ drop (Suc (nat i)) (table p))"
    using assms by (simp add: table_def removed_def)
  fix x assume x: "x < length (table (removed i p))"
  then have "x < nat (nfds p) - 1" by (simp add: table_def removed_def)
  then show "table (removed i p) ! x = (take (nat i) (table p) @ drop (Suc (nat i)) (table p)) ! x"
    using assms by (auto simp: table_def removed_def nth_append algebra_simps)
qed

lemma squeeze_Cons: "squeeze (x # xs) =
    (if fst x = - 1 then (case xs of [] \<Rightarrow> [] | y # ys \<Rightarrow> y # squeeze ys) else x # squeeze xs)"
  by (cases xs) auto

lemma table_nth: "x < nat (nfds p) \<Longrightarrow> table p ! x = (pfds p (int x), pclients p (int x))"
  by (simp add: table_def)

lemma table_length [simp]: "length (table p) = nat (nfds p)"
  by (simp add: table_def)

text \<open>The passes from entry \<open>i\<close> on keep what is before and squeeze the rest.\<close>

lemma compress_loop_squeezes:
  assumes "0 \<le> i" and "nat (nfds p - i) \<le> n" and "nfds p < MAX_CLNT"
  shows "\<exists>p'. compress_loop n i p = Ret p' \<and>
    table p' = take (nat i) (table p) @ squeeze (drop (nat i) (table p)) \<and>
    store p' = store p \<and> nfds p' \<le> nfds p"
  using assms
proof (induction n arbitrary: i p)
  case 0
  then have "nat (nfds p) \<le> nat i" by simp
  then show ?case by simp
next
  case (Suc n)
  show ?case
  proof (cases "nfds p \<le> i")
    case True
    then have "nat (nfds p) \<le> nat i" by simp
    then show ?thesis using True by simp
  next
    case False
    then have i: "nat i < nat (nfds p)" "int (nat i) = i" using Suc.prems(1) by simp_all
    have Si: "nat (i + 1) = Suc (nat i)" using Suc.prems(1) by simp
    have d: "drop (nat i) (table p) = (pfds p i, pclients p i) # drop (Suc (nat i)) (table p)"
      using Cons_nth_drop_Suc [of "nat i" "table p"] i by (simp add: table_nth)
    show ?thesis
    proof (cases "pfds p i = - 1")
      case True
      let ?q = "removed i p"
      have q: "compress_loop (Suc n) i p = compress_loop n (i + 1) ?q"
        using False Suc.prems(1,3) True by (intro compress_step) auto
      have "nfds ?q = nfds p - 1" "store ?q = store p" by (simp_all add: removed_def)
      moreover have "nat (nfds p - 1 - (i + 1)) \<le> n" using Suc.prems(2) by linarith
      ultimately obtain p' where p': "compress_loop n (i + 1) ?q = Ret p'"
        "table p' = take (nat (i + 1)) (table ?q) @ squeeze (drop (nat (i + 1)) (table ?q))"
        "store p' = store p" "nfds p' \<le> nfds p"
        using Suc.IH [of "i + 1" ?q] Suc.prems(1,3) by fastforce
      have t: "table ?q = take (nat i) (table p) @ drop (Suc (nat i)) (table p)"
        using removed_table [of i p] Suc.prems(1) False by simp
      have "take (nat (i + 1)) (table ?q) @ squeeze (drop (nat (i + 1)) (table ?q)) =
          take (nat i) (table p) @ squeeze (drop (nat i) (table p))"
        unfolding d Si t using True i(1)
        by (cases "drop (Suc (nat i)) (table p)") (simp_all add: squeeze_Cons)
      then show ?thesis using q p' by auto
    next
      case notclosed: False
      have q: "compress_loop (Suc n) i p = compress_loop n (i + 1) p" using False notclosed by simp
      obtain p' where p': "compress_loop n (i + 1) p = Ret p'"
        "table p' = take (nat (i + 1)) (table p) @ squeeze (drop (nat (i + 1)) (table p))"
        "store p' = store p" "nfds p' \<le> nfds p"
        using Suc.IH [of "i + 1" p] Suc.prems by fastforce
      have "take (nat (i + 1)) (table p) = take (nat i) (table p) @ [(pfds p i, pclients p i)]"
        using i unfolding Si by (simp add: take_Suc_conv_app_nth table_nth)
      then have "table p' = take (nat i) (table p) @ squeeze (drop (nat i) (table p))"
        unfolding d p'(2) Si by (simp add: squeeze_Cons notclosed)
      then show ?thesis using q p' by auto
    qed
  qed
qed

lemma removed_inv:
  assumes inv: "poller_inv sds p" and i: "0 \<le> i" "i < nfds p" "pfds p i = - 1"
  shows "poller_inv sds (removed i p)"
proof -
  note d = poller_invD [OF inv]
  let ?g = "\<lambda>x. if i \<le> x \<and> x < nfds p then x + 1 else x"
  have beyond: "int (length sds) \<le> i"
  proof (rule ccontr)
    assume "\<not> int (length sds) \<le> i"
    then have "nat i < length sds" "int (nat i) = i" using i(1) by auto
    then show False using d(4) [of "nat i"] d(1) [of "sds ! nat i"] i(3) by simp
  qed
  have entry: "pfds (removed i p) x = pfds p (?g x)" "pclients (removed i p) x = pclients p (?g x)"
    "store (removed i p) = store p" "next_client (removed i p) = next_client p" for x
    by (simp_all add: removed_def)
  have live: "live sds (removed i p) x \<Longrightarrow> live sds p (?g x)" for x
    using beyond by (auto simp: live_def removed_def)
  show ?thesis unfolding poller_inv_def entry
  proof (intro conjI allI impI ballI)
    fix x assume "live sds (removed i p) x"
    from d(5) [OF live [OF this]]
    show "\<exists>k c. pclients p (?g x) = Some k \<and> store p k = Some c \<and> fd c = pfds p (?g x)" .
  next
    fix x y assume "live sds (removed i p) x" "live sds (removed i p) y" "pclients p (?g x) = pclients p (?g y)"
    moreover from this have "?g x = ?g y" using d(6) live by blast
    ultimately show "x = y" by (auto simp: live_def removed_def split: if_splits)
  next
    fix x assume "x < length sds"
    then have "?g (int x) = int x" using beyond by auto
    then show "pfds p (?g (int x)) = sds ! x" using d(4) [OF \<open>x < length sds\<close>] by simp
  qed (use d beyond i in \<open>auto simp: removed_def\<close>)
qed

lemma compress_loop_inv:
  "poller_inv sds p \<Longrightarrow> 0 \<le> i \<Longrightarrow> nfds p < MAX_CLNT \<Longrightarrow> compress_loop n i p = Ret p' \<Longrightarrow> poller_inv sds p'"
proof (induction n arbitrary: i p)
  case (Suc n)
  show ?case
  proof (cases "nfds p \<le> i \<or> pfds p i \<noteq> - 1")
    case True
    then show ?thesis using Suc.prems Suc.IH [of p "i + 1"] by (auto split: if_splits)
  next
    case False
    then have i: "i < nfds p" "pfds p i = - 1" by auto
    have "compress_loop n (i + 1) (removed i p) = Ret p'"
      using compress_step [OF Suc.prems(2) i(1) Suc.prems(3) i(2), of n] Suc.prems(4) by simp
    from Suc.IH [OF removed_inv [OF Suc.prems(1,2) i] _ _ this] Suc.prems(2,3)
    show ?thesis by (simp add: removed_def)
  qed
qed simp

lemma compress_fds_facts:
  assumes "nfds p < MAX_CLNT"
  shows "\<exists>p'. compress_fds p = Ret p' \<and>
    table p' = (if compress_array p then squeeze (table p) else table p) \<and> store p' = store p"
proof (cases "compress_array p")
  case True
  have "table (p\<lparr>compress_array := False\<rparr>) = table p" by (simp add: table_def)
  then show ?thesis
    using compress_loop_squeezes [of 0 "p\<lparr>compress_array := False\<rparr>" "nat (nfds p)"] True assms
    by (auto simp: compress_fds_def)
qed (simp add: compress_fds_def)

lemma compress_fds_inv:
  assumes "poller_inv sds p" and "nfds p < MAX_CLNT" and "compress_fds p = Ret p'"
  shows "poller_inv sds p'"
proof (cases "compress_array p")
  case True
  then have "compress_loop (nat (nfds p)) 0 (p\<lparr>compress_array := False\<rparr>) = Ret p'"
    using assms(3) by (simp add: compress_fds_def)
  from compress_loop_inv [OF _ _ _ this, of sds] assms(1,2) show ?thesis by simp
qed (use assms in \<open>simp add: compress_fds_def\<close>)

context reader
begin

lemma round_safe:
  assumes inv: "poller_inv sds p" and neg: "\<forall>x. 0 \<le> x \<and> x < nfds p \<and> pfds p x < 0 \<longrightarrow> revents x = 0"
    and wb: "RecvWouldBlock \<notin> set (recvs p)" and room: "nfds p + int (length (accepts p)) < MAX_CLNT"
  shows "(\<forall>p'. poll_round rd b leftover e sds revents p = Ret p' \<longrightarrow> poller_inv sds p') \<and>
    (poll_round rd b leftover e sds revents p = Undef \<longleftrightarrow>
      (\<exists>i < nat (nfds p). \<exists>p1. poll_loop rd b leftover e sds revents i 0 (p\<lparr>is_listen_sd := False\<rparr>) = Ret p1 \<and>
         revents (int i) \<noteq> 0 \<and> \<not> is_listen_sd p1 \<and> pfds p1 (int i) \<notin> set sds \<and> undefined_call rd e (int i) p1))"
proof -
  let ?p = "p\<lparr>is_listen_sd := False\<rparr>"
  let ?loop = "\<lambda>i. poll_loop rd b leftover e sds revents i 0 ?p"
  have p: "poller_inv sds ?p" "RecvWouldBlock \<notin> set (recvs ?p)" using inv wb by simp_all
  have l: "poller_inv sds p1 \<and> nfds p \<le> nfds p1 \<and> (\<forall>x. int i \<le> x \<and> x < nfds p \<longrightarrow> pfds p1 x = pfds p x) \<and>
      nfds p1 + int (length (accepts p1)) < MAX_CLNT" if "?loop i = Ret p1" "i \<le> nat (nfds p)" for i p1
  proof -
    have "int i \<le> nfds p" using that(2) poller_invD(2) [OF inv] by linarith
    with loop_inv [OF p(1) order_refl _ _ p(2) that(1)] neg room show ?thesis by force
  qed
  have entry: "poll_entry rd b leftover e sds revents (int i) p1 = Undef \<longleftrightarrow>
      revents (int i) \<noteq> 0 \<and> \<not> is_listen_sd p1 \<and> pfds p1 (int i) \<notin> set sds \<and> undefined_call rd e (int i) p1"
    if "?loop i = Ret p1" "i < nat (nfds p)" for i p1
    by (rule entry_undef) (use l [OF that(1)] that(2) neg in auto)
  have "?loop (nat (nfds p)) = Undef \<longleftrightarrow> (\<exists>i < nat (nfds p). \<exists>p1. ?loop i = Ret p1 \<and>
      revents (int i) \<noteq> 0 \<and> \<not> is_listen_sd p1 \<and> pfds p1 (int i) \<notin> set sds \<and> undefined_call rd e (int i) p1)"
    unfolding poll_loop_undef add_0 using entry by blast
  moreover have "poll_round rd b leftover e sds revents p = Undef \<longleftrightarrow> ?loop (nat (nfds p)) = Undef"
  proof (cases "?loop (nat (nfds p))")
    case (Ret p1)
    then have "nfds p1 < MAX_CLNT" using l [OF Ret order_refl] by linarith
    from compress_fds_facts [OF this] obtain p' where "compress_fds p1 = Ret p'" by blast
    then show ?thesis using Ret by (simp add: poll_round_def)
  qed (simp_all add: poll_round_def)
  moreover have "poller_inv sds p'" if r: "poll_round rd b leftover e sds revents p = Ret p'" for p'
  proof -
    obtain p1 where p1: "?loop (nat (nfds p)) = Ret p1" "compress_fds p1 = Ret p'"
      using r by (auto simp: poll_round_def)
    then have "poller_inv sds p1" "nfds p1 < MAX_CLNT" using l [OF p1(1)] by auto
    from compress_fds_inv [OF this p1(2)] show ?thesis .
  qed
  ultimately show ?thesis by blast
qed

end

interpretation poll: reader on_read
  by unfold_locales (rule on_read_client_ok)

interpretation buse: reader buse_on_read
  by unfold_locales (simp add: buse_on_read_def on_read_client_ok)

interpretation busefs: reader busefs_on_read
  by unfold_locales (simp add: busefs_on_read_def on_read_client_ok)

section \<open>A ready listening socket\<close>

lemma accept_loop_unread:
  "accept_loop b j as p = Ret p' \<Longrightarrow> recvs p' = recvs p \<and> engine_world p' = engine_world p \<and> writes p' = writes p"
proof (induction b j as p rule: accept_loop.induct)
  case (4 b j sd opts bf out as p)
  then obtain p1 where p1: "add_client b j sd bf out p = Ret p1" "accept_loop b j as p1 = Ret p'" and opts: opts
    by (auto split: if_splits)
  then have "recvs p' = recvs p1 \<and> engine_world p' = engine_world p1 \<and> writes p' = writes p1"
    using "4.IH" by simp
  then show ?case using p1(1) by (auto simp: add_client_def split: if_splits)
qed auto

definition unread_same :: "poller \<Rightarrow> poller \<Rightarrow> bool" where
  "unread_same p p' \<longleftrightarrow> recvs p' = recvs p \<and> engine_world p' = engine_world p \<and> writes p' = writes p"

lemma listen_loop_unread:
  "listen_loop b i j ls p = Ret p' \<Longrightarrow> unread_same p p' \<and>
     (is_listen_sd p \<longrightarrow> is_listen_sd p') \<and> (pfds p i \<in> set ls \<longrightarrow> is_listen_sd p')"
proof (induction b i j ls p rule: listen_loop.induct)
  case (2 b i j l ls p)
  show ?case
  proof (cases "pfds p i = l")
    case True
    let ?p = "p\<lparr>is_listen_sd := True\<rparr>"
    obtain p1 where p1: "accept_loop b j (accepts p) ?p = Ret p1" "listen_loop b i (j + 1) ls p1 = Ret p'"
      using "2.prems"(1) True by auto
    have "is_listen_sd q' = is_listen_sd q" if "accept_loop b j as q = Ret q'" for as q q'
      using that by (induction b j as q rule: accept_loop.induct)
        (auto simp: add_client_def split: if_splits)
    from this [OF p1(1)] accept_loop_unread [OF p1(1)] "2.IH"(1) [OF True p1(2)]
    show ?thesis by (simp add: unread_same_def)
  next
    case False
    then show ?thesis using 2 by auto
  qed
qed (simp add: unread_same_def)

lemma poll_loop_listening:
  "poll_loop rd b leftover e sds revents n i p = Ret p' \<Longrightarrow> is_listen_sd p \<Longrightarrow> unread_same p p'"
proof (induction n arbitrary: i p)
  case (Suc n)
  then obtain p1 where p1: "poll_entry rd b leftover e sds revents i p = Ret p1"
    "poll_loop rd b leftover e sds revents n (i + 1) p1 = Ret p'" by auto
  have "unread_same p p1 \<and> is_listen_sd p1"
  proof (cases "revents i = 0")
    case False
    then obtain q where q: "listen_loop b i 0 sds p = Ret q" using p1(1) by (auto simp: poll_entry_def)
    then have "is_listen_sd q" using listen_loop_unread Suc.prems(2) by blast
    then show ?thesis using p1(1) False q listen_loop_unread [OF q] by (simp add: poll_entry_def)
  qed (use p1(1) Suc.prems(2) in \<open>simp add: poll_entry_def unread_same_def\<close>)
  then show ?case using Suc.IH [OF p1(2)] by (simp add: unread_same_def)
qed (simp add: unread_same_def)

lemma shift_loop_unread: "shift_loop n j p = Ret p' \<Longrightarrow> unread_same p p'"
  by (induction n arbitrary: j p) (auto simp: unread_same_def split: if_splits)

lemma compress_loop_unread: "compress_loop n i p = Ret p' \<Longrightarrow> unread_same p p'"
proof (induction n arbitrary: i p)
  case (Suc n)
  show ?case
  proof (cases "nfds p \<le> i \<or> pfds p i \<noteq> - 1")
    case True
    then show ?thesis using Suc.prems Suc.IH [of "i + 1" p] by (auto simp: unread_same_def split: if_splits)
  next
    case False
    then obtain p1 where p1: "shift_loop (nat (nfds p - i)) i p = Ret p1"
      "compress_loop n (i + 1) (p1\<lparr>nfds := nfds p1 - 1\<rparr>) = Ret p'"
      using Suc.prems by (auto split: if_splits)
    from shift_loop_unread [OF p1(1)] Suc.IH [OF p1(2)] show ?thesis by (simp add: unread_same_def)
  qed
qed (simp add: unread_same_def)

section \<open>Properties\<close>

text \<open>
  C12: a round of the polling worker keeps the table in order: the listening sockets in front, every
  other descriptor with a client of its own in memory. It has no undefined behaviour of its own, no
  freed client is used and no access is outside the table: the round is undefined exactly when, after
  the entries before it, some ready entry that is no listening socket is served with a call of \<open>on_read\<close>,
  on a client in memory, that is undefined itself. This holds as long as the connections that may be accepted
  leave one entry free, \<open>poll\<close> reports nothing for closed entries, and \<open>recv\<close> has data.
\<close>

theorem poll_round_safe:
  assumes "poller_inv sds p" and "\<forall>x. 0 \<le> x \<and> x < nfds p \<and> pfds p x < 0 \<longrightarrow> revents x = 0"
    and "RecvWouldBlock \<notin> set (recvs p)" and "nfds p + int (length (accepts p)) < MAX_CLNT"
  shows "(\<forall>p'. poll_round on_read b leftover e sds revents p = Ret p' \<longrightarrow> poller_inv sds p') \<and>
    (poll_round on_read b leftover e sds revents p = Undef \<longleftrightarrow>
      (\<exists>i < nat (nfds p). \<exists>p1. poll_loop on_read b leftover e sds revents i 0 (p\<lparr>is_listen_sd := False\<rparr>) = Ret p1 \<and>
         revents (int i) \<noteq> 0 \<and> \<not> is_listen_sd p1 \<and> pfds p1 (int i) \<notin> set sds \<and>
         (\<exists>k c rr rs. pclients p1 (int i) = Some k \<and> store p1 k = Some c \<and> recvs p1 = rr # rs \<and>
            on_read e k c (engine_world p1) rr (writes p1) = Undef)))"
  using poll.round_safe [OF assms] unfolding undefined_call_def .

lemma setup_inv:
  "\<forall>sd \<in> set sds. 0 \<le> sd \<Longrightarrow> int (length sds) \<le> MAX_CLNT \<Longrightarrow> poller_inv sds (poll_setup sds junk w as rs ws)"
  by (simp add: poller_inv_def poll_setup_def live_def)

text \<open>A table with one listening socket and one connection, on which data has arrived.\<close>

definition sample_poller :: "client \<Rightarrow> byte list \<Rightarrow> poller" where
  "sample_poller c got = (poll_setup [3] (\<lambda>_. None) init_world [] [Received got] [])
     \<lparr>pfds := (\<lambda>i. if i = 0 then 3 else 4), pclients := (\<lambda>i. if i = 1 then Some 0 else None), nfds := 2,
      store := [0 \<mapsto> c], next_client := 1\<rparr>"

lemma sample_poller_inv:
  assumes "client_ok c" and "fd c = 4"
  shows "poller_inv [3] (sample_poller c got)"
proof -
  have "live [3] (sample_poller c got) i \<longleftrightarrow> i = 1" for i
    by (auto simp: live_def sample_poller_def)
  then show ?thesis using assms by (simp add: poller_inv_def sample_poller_def poll_setup_def MAX_CLNT_def)
qed

lemma sample_round:
  assumes "on_read e 0 c init_world (Received got) [] = Ret (None, [], c', w', [])"
  shows "\<exists>p'. poll_round on_read (Some True) False e [3] (\<lambda>x. if x = 1 then 1 else 0) (sample_poller c got) = Ret p' \<and>
    recvs p' = [] \<and> engine_world p' = w'"
  by (simp add: poll_round_def sample_poller_def poll_setup_def numeral_2_eq_2 poll_entry_def serve_client_def
      assms returned_def compress_fds_def Let_def)

theorem poll_round_safe_witness:
  "\<exists>c p'. poll_round on_read (Some True) False sample_env [3] (\<lambda>x. if x = 1 then 1 else 0)
     (sample_poller c (resp_command [''GET'', ''user'' @ dec 7])) = Ret p' \<and> poller_inv [3] p' \<and>
     recvs p' = [] \<and> length (submitted (trace (engine_world p'))) = 1"
proof -
  let ?got = "resp_command [''GET'', ''user'' @ dec 7]" and ?rev = "\<lambda>x :: int. if x = 1 then 1 else 0 :: int"
  let ?c = "(client_new (\<lambda>_. NUL) (\<lambda>_. NUL))\<lparr>fd := 4\<rparr>"
  let ?p = "sample_poller ?c ?got"
  have ok: "client_ok ?c" using client_new_ok by (simp add: client_ok_def parser_inv_def)
  have c: "parser_inv ?c" "output_inv ?c" "unread ?c = []" "\<not> output_valid ?c" "buf_idx ?c = 0"
    using ok by (simp_all add: client_ok_def client_new_def output_inv_def OUTPUT_BUFSIZE_def unread_def)
  have len: "buf_idx ?c + int (length ?got) \<le> BUFSIZE"
    by (simp add: resp_command_def length_resp_bulk length_dec_one BUFSIZE_def c(5))
  have name: "list_all2 same_letter ''GET'' ''get''" by (simp add: same_letter_def c_char_def)
  have engine: "\<forall>es. lr_make_req sample_env es \<noteq> - 1" by (simp add: sample_env_def)
  obtain c' w' r where read: "on_read sample_env 0 ?c init_world (Received ?got) [] = Ret (None, [], c', w', [])"
    "submitted (trace w') = submitted (trace init_world) @ [r]"
    using on_read_get [OF c(1-4) refl len name _ _ engine, of 0 init_world "[]"] by (auto simp: INT_MAX_def)
  obtain p' where p': "poll_round on_read (Some True) False sample_env [3] ?rev ?p = Ret p'"
    "recvs p' = []" "engine_world p' = w'"
    using sample_round [OF read(1)] by blast
  have "\<forall>x. 0 \<le> x \<and> x < nfds ?p \<and> pfds ?p x < 0 \<longrightarrow> ?rev x = 0"
    "RecvWouldBlock \<notin> set (recvs ?p)" "nfds ?p + int (length (accepts ?p)) < MAX_CLNT"
    by (auto simp: sample_poller_def poll_setup_def MAX_CLNT_def)
  from poll_round_safe [OF sample_poller_inv [OF ok] this, of "Some True" False sample_env] p'(1)
  have "poller_inv [3] p'" by simp
  then show ?thesis using p' read(2) by (intro exI [of _ ?c] exI [of _ p']) (simp add: init_world_def)
qed

text \<open>
  C29: closing up the table is \<open>squeeze\<close>: every closed entry is dropped, but the entry behind it is
  kept unseen, so that of neighbours closed in the same round every second one stays in the table.
\<close>

theorem compress_squeezes:
  assumes "nfds p < MAX_CLNT" and "compress_array p"
  shows "\<exists>p'. compress_fds p = Ret p' \<and> table p' = squeeze (table p)"
  using compress_fds_facts [OF assms(1)] assms(2) by auto

theorem compress_squeezes_witness:
  "\<exists>p p'. map fst (table p) = [3, 4, - 1, - 1, 5] \<and> compress_fds p = Ret p' \<and>
     map fst (table p') = [3, 4, - 1, 5]"
proof -
  let ?p = "(poll_setup [3, 4, - 1, - 1, 5] (\<lambda>_. None) init_world [] [] [])\<lparr>compress_array := True\<rparr>"
  have t: "table ?p = [(3, None), (4, None), (- 1, None), (- 1, None), (5, None)]"
    by (simp add: table_def poll_setup_def upt_rec)
  have "nfds ?p < MAX_CLNT" by (simp add: poll_setup_def MAX_CLNT_def)
  from compress_squeezes [OF this] obtain p' where "compress_fds ?p = Ret p'" "table p' = squeeze (table ?p)"
    by auto
  then show ?thesis using t by (intro exI [of _ ?p] exI [of _ p']) simp
qed

text \<open>
  In a round in which the first entry, a listening socket, is ready, no connection is served,
  however many are ready: nothing is received, executed or sent.
\<close>

theorem accepting_starves:
  assumes "pfds p 0 \<in> set sds" and "0 < nfds p" and "revents 0 \<noteq> 0"
    and r: "poll_round rd b leftover e sds revents p = Ret p'"
  shows "recvs p' = recvs p \<and> writes p' = writes p \<and> engine_world p' = engine_world p"
proof -
  let ?p = "p\<lparr>is_listen_sd := False\<rparr>"
  obtain n where n: "nat (nfds p) = Suc n" using assms(2) by (cases "nat (nfds p)") auto
  obtain p1 p2 where p1: "poll_entry rd b leftover e sds revents 0 ?p = Ret p1"
    and p2: "poll_loop rd b leftover e sds revents n 1 p1 = Ret p2" and c: "compress_fds p2 = Ret p'"
    using r by (auto simp: poll_round_def n)
  obtain q where q: "listen_loop b 0 0 sds ?p = Ret q"
    using p1 assms(3) by (auto simp: poll_entry_def)
  have "is_listen_sd q" and "unread_same ?p q" using listen_loop_unread [OF q] assms(1) by simp_all
  then have "p1 = q" and p1': "is_listen_sd p1" "unread_same p p1"
    using p1 q assms(3) by (auto simp: poll_entry_def unread_same_def)
  from c have "unread_same p2 p'"
    using compress_loop_unread [of "nat (nfds p2)" 0 "p2\<lparr>compress_array := False\<rparr>" p']
    by (auto simp: compress_fds_def unread_same_def split: if_splits)
  then show ?thesis using p1' poll_loop_listening [OF p2 p1'(1)] by (simp add: unread_same_def)
qed

theorem accepting_starves_witness:
  "\<exists>p'. poll_round on_read (Some True) False sample_env [3] (\<lambda>_. 1)
     (poll_setup [3] (\<lambda>_. None) init_world [AcceptWouldBlock] [Received ''*''] []) = Ret p' \<and>
     recvs p' = [Received ''*'']"
proof -
  let ?p = "poll_setup [3] (\<lambda>_. None) init_world [AcceptWouldBlock] [Received ''*''] []"
  obtain p' where p': "poll_round on_read (Some True) False sample_env [3] (\<lambda>_. 1) ?p = Ret p'"
    by (simp add: poll_round_def poll_setup_def poll_entry_def compress_fds_def)
  have "pfds ?p 0 \<in> set [3]" "0 < nfds ?p" by (simp_all add: poll_setup_def)
  from accepting_starves [OF this _ p'] p' show ?thesis by (simp add: poll_setup_def)
qed

definition sock_good :: "bool \<Rightarrow> sock_setup \<Rightarrow> bool" where
  "sock_good ioctl r \<longleftrightarrow> 0 \<le> sock_sd r \<and> reuse_ok r \<and> sndbuf_ok r \<and> rcvbuf_ok r \<and>
     (ioctl \<longrightarrow> ioctl_ok r) \<and> bind_ok r \<and> listen_ok r"

lemma init_loop_iff:
  "n \<le> length rs \<Longrightarrow> init_loop n port ioctl i rs = Ret xs \<longleftrightarrow>
     (\<forall>r \<in> set (take n rs). sock_good ioctl r) \<and>
     xs = map (\<lambda>k. (sock_sd (rs ! k), (port + i + int k) mod 65536)) [0..<n]"
proof (induction n port ioctl i rs arbitrary: xs rule: init_loop.induct)
  case (3 n port ioctl i r rs)
  show ?case
  proof (cases "sock_good ioctl r")
    case True
    have shift: "map (\<lambda>k. (sock_sd ((r # rs) ! k), (port + i + int k) mod 65536)) [0..<Suc n] =
        (sock_sd r, (port + i) mod 65536) #
          map (\<lambda>k. (sock_sd (rs ! k), (port + (i + 1) + int k) mod 65536)) [0..<n]"
      by (simp add: upt_conv_Cons map_Suc_upt [symmetric] algebra_simps del: upt_Suc)
    have IH: "init_loop n port ioctl (i + 1) rs = Ret xs \<longleftrightarrow> (\<forall>r \<in> set (take n rs). sock_good ioctl r) \<and>
        xs = map (\<lambda>k. (sock_sd (rs ! k), (port + (i + 1) + int k) mod 65536)) [0..<n]" for xs
      using "3.IH" "3.prems" True by (auto simp: sock_good_def)
    have "init_loop (Suc n) port ioctl i (r # rs) = Ret xs \<longleftrightarrow>
        (\<exists>ys. init_loop n port ioctl (i + 1) rs = Ret ys \<and> xs = (sock_sd r, (port + i) mod 65536) # ys)"
      using True by (auto simp: sock_good_def)
    then show ?thesis unfolding IH shift using True by auto
  next
    case False
    then have "init_loop (Suc n) port ioctl i (r # rs) \<noteq> Ret xs"
      by (auto simp: sock_good_def split: if_splits)
    then show ?thesis using False by simp
  qed
qed auto

lemma new_queue: "\<exists>q. mpmc_new js jd 4096 = Some q \<and> mpmc_items q = [] \<and> mpmc_capacity q = 4096"
  using mpmc_new_inv [of 12 js jd] by auto

text \<open>
  \<open>main\<close> starts the server exactly when every system call for its listening socket succeeds; the
  socket then listens at port 7777, one thread polls it, and one thread answers the requests of the
  one queue, which is empty.
\<close>

theorem poll_main_starts:
  "(\<exists>s. poll_main js jd (r # rs) = Ret s \<and> sockets s = [(sock_sd r, 7777)] \<and> workers s = [[sock_sd r]] \<and>
      handlers s = [0] \<and> map mpmc_items (queues s) = [[]] \<and> map mpmc_capacity (queues s) = [4096]) \<longleftrightarrow>
    sock_good False r"
proof -
  obtain q where q: "mpmc_new js jd 4096 = Some q" "mpmc_items q = []" "mpmc_capacity q = 4096"
    using new_queue by blast
  have "init_socket PORT_NUM (r # rs) = Ret xs \<longleftrightarrow> sock_good False r \<and> xs = [(sock_sd r, 7777)]" for xs
    using init_loop_iff [of 1 "r # rs" 7777 False 0 xs] by (auto simp: init_socket_def PORT_NUM_def)
  then show ?thesis
    by (auto simp: poll_main_def main_start_def q PORT_NUM_def THREAD_NUM_def QUEUE_NUM_def excute_polling_worker_def)
qed

end
