(* ===== verification/Glob.thy ===== *)
theory Glob
  imports Prelude
begin

text \<open>
  \<open>match.cc\<close>: glob-style matching. The pattern and the string are memories that may be read up to a
  limit; the lengths are C integers that the code decreases without testing. \<open>None\<close> is a read outside
  the limits or an overflow. The specification is a relation between lists of tokens and strings.
\<close>

definition to_lower :: "int \<Rightarrow> int" where
  "to_lower c = (if 65 \<le> c \<and> c \<le> 90 then c + 32 else c)"

definition same_char :: "bool \<Rightarrow> byte \<Rightarrow> byte \<Rightarrow> bool" where
  "same_char nocase a b =
     (if \<not> nocase then a = b else to_lower (c_char a) = to_lower (c_char b))"

definition in_range :: "bool \<Rightarrow> byte \<Rightarrow> byte \<Rightarrow> byte \<Rightarrow> bool" where
  "in_range nocase a b x =
     (let start = min (c_char a) (c_char b); stop = max (c_char a) (c_char b); c = c_char x;
          low = (if nocase then to_lower else id)
      in low start \<le> low c \<and> low c \<le> low stop)"

section \<open>The matcher\<close>

text \<open>\<open>while (pattern[1] == '*')\<close>.\<close>

function skip_stars :: "mem \<Rightarrow> int \<Rightarrow> int \<Rightarrow> int \<Rightarrow> (int \<times> int) option" where
  "skip_stars p plim i pl =
     (if plim \<le> i + 1 then None
      else if p (i + 1) = CHR ''*'' then skip_stars p plim (i + 1) (pl - 1)
      else Some (i, pl))"
  by pat_completeness auto
termination by (relation "measure (\<lambda>(p, plim, i, pl). nat (plim - i))") auto

declare skip_stars.simps [simp del]

text \<open>\<open>while (*pattern == '*')\<close>: the pattern length left.\<close>

function trailing_stars :: "mem \<Rightarrow> int \<Rightarrow> int \<Rightarrow> int \<Rightarrow> int option" where
  "trailing_stars p plim i pl =
     (if plim \<le> i then None
      else if p i = CHR ''*'' then trailing_stars p plim (i + 1) (pl - 1)
      else Some pl)"
  by pat_completeness auto
termination by (relation "measure (\<lambda>(p, plim, i, pl). nat (plim - i))") auto

declare trailing_stars.simps [simp del]

text \<open>
  The loop over a bracket expression; \<open>x\<close> is \<open>string[0]\<close>, \<open>None\<close> when it may not be read. The result
  is whether something matched, and where the loop ends.
\<close>

function bracket_loop :: "mem \<Rightarrow> int \<Rightarrow> byte option \<Rightarrow> bool \<Rightarrow> int \<Rightarrow> int \<Rightarrow> bool \<Rightarrow> (bool \<times> int \<times> int) option" where
  "bracket_loop p plim x nocase i pl matched =
     (if plim \<le> i then None
      else if p i = CHR 0x5C then
        (if plim \<le> i + 1 then None
         else (case x of None \<Rightarrow> None
               | Some c \<Rightarrow> bracket_loop p plim x nocase (i + 2) (pl - 2) (matched \<or> p (i + 1) = c)))
      else if p i = CHR '']'' then Some (matched, i, pl)
      else if pl = 0 then Some (matched, i - 1, pl + 1)
      else if plim \<le> i + 1 then None
      else if p (i + 1) = CHR ''-'' \<and> 3 \<le> pl then
        (if plim \<le> i + 2 then None
         else (case x of None \<Rightarrow> None
               | Some c \<Rightarrow> bracket_loop p plim x nocase (i + 3) (pl - 3) (matched \<or> in_range nocase (p i) (p (i + 2)) c)))
      else (case x of None \<Rightarrow> None
            | Some c \<Rightarrow> bracket_loop p plim x nocase (i + 1) (pl - 1) (matched \<or> same_char nocase (p i) c)))"
  by pat_completeness auto
termination by (relation "measure (\<lambda>(p, plim, x, nocase, i, pl, matched). nat (plim - i))") auto

declare bracket_loop.simps [simp del]

definition read_at :: "mem \<Rightarrow> int \<Rightarrow> int \<Rightarrow> byte option" where
  "read_at m lim i = (if lim \<le> i then None else Some (m i))"

lemma bracket_loop_index: "bracket_loop p plim x nocase i pl matched = Some (r, i', pl') \<Longrightarrow> i - 1 \<le> i'"
proof (induction p plim x nocase i pl matched rule: bracket_loop.induct)
  case (1 p plim x nocase i pl matched)
  show ?case using "1.prems" "1.IH"
    by (subst (asm) bracket_loop.simps) (fastforce split: if_splits option.splits)
qed

lemma skip_stars_index: "skip_stars p plim i pl = Some (i', pl') \<Longrightarrow> i \<le> i' \<and> i' < plim"
proof (induction p plim i pl rule: skip_stars.induct)
  case (1 p plim i pl)
  show ?case using "1.prems" "1.IH"
    by (subst (asm) skip_stars.simps) (fastforce split: if_splits)
qed

text \<open>
  A bracket expression from the byte after \<open>[\<close>: whether the string's byte is accepted, and the
  position of the closing bracket.
\<close>

definition bracket :: "mem \<Rightarrow> int \<Rightarrow> byte option \<Rightarrow> bool \<Rightarrow> int \<Rightarrow> int \<Rightarrow> (bool \<times> int \<times> int) option" where
  "bracket p plim x nocase i pl =
     (if plim \<le> i then None
      else if p i = CHR ''^''
           then map_option (\<lambda>(m, i', pl'). (\<not> m, i', pl')) (bracket_loop p plim x nocase (i + 1) (pl - 1) False)
           else bracket_loop p plim x nocase i pl False)"

lemma bracket_index: "bracket p plim x nocase i pl = Some (r, i', pl') \<Longrightarrow> i - 1 \<le> i'"
  by (fastforce simp: bracket_def split: if_splits dest: bracket_loop_index)

text \<open>
  \<open>match_loop\<close> is \<open>stringmatchlen\<close> with its loop; \<open>star_loop\<close> its inner loop over the string, with
  the pattern behind the stars, \<open>match_next\<close> the end of a pass. The byte at \<open>i\<close> has been read when
  the last two are called.
\<close>

function (sequential) match_loop :: "mem \<Rightarrow> int \<Rightarrow> mem \<Rightarrow> int \<Rightarrow> bool \<Rightarrow> int \<Rightarrow> int \<Rightarrow> int \<Rightarrow> int \<Rightarrow> bool option"
  and star_loop :: "mem \<Rightarrow> int \<Rightarrow> mem \<Rightarrow> int \<Rightarrow> bool \<Rightarrow> int \<Rightarrow> int \<Rightarrow> int \<Rightarrow> int \<Rightarrow> bool option"
  and match_next :: "mem \<Rightarrow> int \<Rightarrow> mem \<Rightarrow> int \<Rightarrow> bool \<Rightarrow> int \<Rightarrow> int \<Rightarrow> int \<Rightarrow> int \<Rightarrow> bool option" where
  "match_loop p plim s slim nocase i pl j sl =
     (if pl = 0 then Some (sl = 0)
      else if plim \<le> i then None
      else if p i = CHR ''*'' then
        (case skip_stars p plim i pl of
           None \<Rightarrow> None
         | Some (i', pl') \<Rightarrow> if pl' = 1 then Some True else star_loop p plim s slim nocase i' (pl' - 1) j sl)
      else if p i = CHR ''?'' then
        (if sl = 0 then Some False else match_next p plim s slim nocase i (pl - 1) (j + 1) (sl - 1))
      else if p i = CHR ''['' then
        (case bracket p plim (read_at s slim j) nocase (i + 1) (pl - 1) of
           None \<Rightarrow> None
         | Some (m, i', pl') \<Rightarrow>
             if \<not> m then Some False else match_next p plim s slim nocase i' (pl' - 1) (j + 1) (sl - 1))
      else
        (let esc = (p i = CHR 0x5C \<and> 2 \<le> pl); k = (if esc then i + 1 else i)
         in case (read_at p plim k, read_at s slim j) of
              (Some a, Some b) \<Rightarrow>
                if \<not> same_char nocase a b then Some False
                else match_next p plim s slim nocase k (if esc then pl - 2 else pl - 1) (j + 1) (sl - 1)
            | _ \<Rightarrow> None))"
| "star_loop p plim s slim nocase i pl j sl =
     (if plim \<le> i then None
      else if sl = 0 then Some False
      else (case match_loop p plim s slim nocase (i + 1) pl j sl of
              None \<Rightarrow> None
            | Some True \<Rightarrow> Some True
            | Some False \<Rightarrow>
                if sl \<le> INT_MIN then None else star_loop p plim s slim nocase i pl (j + 1) (sl - 1)))"
| "match_next p plim s slim nocase i pl j sl =
     (if plim \<le> i then None
      else if sl = 0 then map_option (\<lambda>pl'. pl' = 0) (trailing_stars p plim (i + 1) pl)
      else match_loop p plim s slim nocase (i + 1) pl j sl)"
  by pat_completeness auto

termination
proof (relation "inv_image (less_than <*lex*> less_than <*lex*> less_than) (\<lambda>x. case x of
    Inl (p, plim, s, slim, nocase, i, pl, j, sl) \<Rightarrow> (nat (plim - i), 1, 0)
  | Inr (Inl (p, plim, s, slim, nocase, i, pl, j, sl)) \<Rightarrow> (nat (plim - i), 0, nat (sl - INT_MIN))
  | Inr (Inr (p, plim, s, slim, nocase, i, pl, j, sl)) \<Rightarrow> (nat (plim - i), 0, 0))", goal_cases)
  case (4 p plim s slim nocase i pl j sl x m y i' pl')
  then have "i \<le> i'" using bracket_index by fastforce
  then show ?case using 4 by auto
next
  case (2 p plim s slim nocase i pl j sl x i' pl')
  then have "i \<le> i'" using skip_stars_index by fastforce
  then show ?case using 2 by auto
qed (auto simp: INT_MIN_def)

declare match_loop.simps [simp del] star_loop.simps [simp del] match_next.simps [simp del]

definition stringmatchlen :: "mem \<Rightarrow> int \<Rightarrow> int \<Rightarrow> mem \<Rightarrow> int \<Rightarrow> int \<Rightarrow> bool \<Rightarrow> bool option" where
  "stringmatchlen pattern plim patternLen str slim stringLen nocase =
     match_loop pattern plim str slim nocase 0 patternLen 0 stringLen"

text \<open>
  \<open>stringmatch\<close>: the pattern and the string are C strings, the bytes before the first zero byte, whose number
  is \<open>strlen\<close>, and that zero byte.
\<close>

definition zero_ended :: "byte list \<Rightarrow> mem" where
  "zero_ended xs i = (if 0 \<le> i \<and> i < int (length xs) then xs ! nat i else NUL)"

definition stringmatch :: "byte list \<Rightarrow> byte list \<Rightarrow> bool \<Rightarrow> bool option" where
  "stringmatch pattern str nocase =
     (let p = cstr pattern; s = cstr str in
      stringmatchlen (zero_ended p) (int (length p) + 1) (int (length p))
        (zero_ended s) (int (length s) + 1) (int (length s)) nocase)"

end
