(* ===== verification/GlobProps.thy ===== *)
theory GlobProps
  imports Glob
begin

text \<open>
  The glob matcher against its specification: for a pattern printed from tokens it decides the
  relation \<open>glob_match\<close>. Patterns that are not printed tokens can make it read on without end.
\<close>

section \<open>Patterns as tokens\<close>

datatype item = Chr byte | EscChr byte | Range byte byte

datatype token = Star | Any | Lit byte | Esc byte | Class bool "item list"

fun show_item :: "item \<Rightarrow> byte list" where
  "show_item (Chr c) = [c]"
| "show_item (EscChr c) = [CHR 0x5C, c]"
| "show_item (Range a b) = [a, CHR ''-'', b]"

abbreviation show_items :: "item list \<Rightarrow> byte list" where
  "show_items its \<equiv> concat (map show_item its)"

fun show_token :: "token \<Rightarrow> byte list" where
  "show_token Star = ''*''"
| "show_token Any = ''?''"
| "show_token (Lit c) = [c]"
| "show_token (Esc c) = [CHR 0x5C, c]"
| "show_token (Class neg its) = CHR ''['' # (if neg then ''^'' else []) @ show_items its @ '']''"

abbreviation show_glob :: "token list \<Rightarrow> byte list" where
  "show_glob ts \<equiv> concat (map show_token ts)"

fun wf_item :: "item \<Rightarrow> bool" where
  "wf_item (Chr c) \<longleftrightarrow> c \<noteq> CHR 0x5C \<and> c \<noteq> CHR '']'' \<and> c \<noteq> CHR ''-''"
| "wf_item (EscChr c) \<longleftrightarrow> True"
| "wf_item (Range a b) \<longleftrightarrow> a \<noteq> CHR 0x5C \<and> a \<noteq> CHR '']'' \<and> a \<noteq> CHR ''-''"

fun wf_token :: "token \<Rightarrow> bool" where
  "wf_token (Lit c) \<longleftrightarrow> c \<noteq> CHR ''*'' \<and> c \<noteq> CHR ''?'' \<and> c \<noteq> CHR ''['' \<and> c \<noteq> CHR 0x5C"
| "wf_token (Class neg its) \<longleftrightarrow> list_all wf_item its \<and>
     (neg \<or> its = [] \<or> hd (show_item (hd its)) \<noteq> CHR ''^'')"
| "wf_token t \<longleftrightarrow> True"

section \<open>What a pattern matches\<close>

fun item_matches :: "bool \<Rightarrow> item \<Rightarrow> byte \<Rightarrow> bool" where
  "item_matches nocase (Chr c) x = same_char nocase c x"
| "item_matches nocase (EscChr c) x = (c = x)"
| "item_matches nocase (Range a b) x = in_range nocase a b x"

definition class_matches :: "bool \<Rightarrow> bool \<Rightarrow> item list \<Rightarrow> byte \<Rightarrow> bool" where
  "class_matches nocase neg its x \<longleftrightarrow> ((\<exists>it \<in> set its. item_matches nocase it x) \<noteq> neg)"

inductive glob_match :: "bool \<Rightarrow> token list \<Rightarrow> byte list \<Rightarrow> bool" for nocase where
  gm_end: "glob_match nocase [] []"
| gm_star: "glob_match nocase ts s \<Longrightarrow> glob_match nocase (Star # ts) s"
| gm_more: "glob_match nocase (Star # ts) s \<Longrightarrow> glob_match nocase (Star # ts) (x # s)"
| gm_any: "glob_match nocase ts s \<Longrightarrow> glob_match nocase (Any # ts) (x # s)"
| gm_lit: "same_char nocase c x \<Longrightarrow> glob_match nocase ts s \<Longrightarrow> glob_match nocase (Lit c # ts) (x # s)"
| gm_esc: "same_char nocase c x \<Longrightarrow> glob_match nocase ts s \<Longrightarrow> glob_match nocase (Esc c # ts) (x # s)"
| gm_class: "class_matches nocase neg its x \<Longrightarrow> glob_match nocase ts s \<Longrightarrow>
    glob_match nocase (Class neg its # ts) (x # s)"

inductive_simps glob_simps [simp]:
  "glob_match nocase [] s"
  "glob_match nocase (Any # ts) s"
  "glob_match nocase (Lit c # ts) s"
  "glob_match nocase (Esc c # ts) s"
  "glob_match nocase (Class neg its # ts) s"

inductive_simps glob_star_Nil: "glob_match nocase (Star # ts) []"
inductive_simps glob_star_Cons: "glob_match nocase (Star # ts) (x # s)"

lemma glob_star_all: "glob_match nocase [Star] s"
  by (induction s) (auto intro: glob_match.intros)

lemma glob_star_star: "glob_match nocase (Star # Star # ts) s \<longleftrightarrow> glob_match nocase (Star # ts) s"
proof
  show "glob_match nocase (Star # ts) s" if "glob_match nocase (Star # Star # ts) s"
    using that by (induction "Star # Star # ts" s rule: glob_match.induct) (auto intro: glob_match.intros)
qed (rule gm_star)

definition rest_tokens :: "token list \<Rightarrow> token list" where
  "rest_tokens ts = dropWhile (\<lambda>t. t = Star) ts"

lemma rest_tokens_simps [simp]:
  "rest_tokens [] = []" "rest_tokens (Star # ts) = rest_tokens ts"
  "t \<noteq> Star \<Longrightarrow> rest_tokens (t # ts) = t # ts"
  by (simp_all add: rest_tokens_def)

lemma glob_star_rest: "glob_match nocase (Star # ts) s \<longleftrightarrow> glob_match nocase (Star # rest_tokens ts) s"
proof (induction ts)
  case (Cons t ts)
  then show ?case by (cases "t = Star") (simp_all add: glob_star_star)
qed simp

lemma glob_Nil: "glob_match nocase ts [] \<longleftrightarrow> rest_tokens ts = []"
proof (induction ts)
  case (Cons t ts)
  then show ?case by (cases t) (simp_all add: glob_star_Nil)
qed simp

lemma rest_head: "rest_tokens ts = t # us \<Longrightarrow> t \<noteq> Star"
  by (induction ts) (auto simp: rest_tokens_def split: if_splits)

lemma rest_wf: "list_all wf_token ts \<Longrightarrow> list_all wf_token (rest_tokens ts)"
  by (auto simp: list_all_iff rest_tokens_def dest: set_dropWhileD)

lemma rest_length: "length (rest_tokens ts) \<le> length ts"
  by (simp add: rest_tokens_def length_dropWhile_le)

lemma show_token_nonempty [simp]: "show_token t \<noteq> []"
  by (cases t) simp_all

lemma show_token_pos: "int (length (show_token t)) + int n \<noteq> 0"
  using show_token_nonempty [of t] by (cases "show_token t") (simp_all del: show_token_nonempty)

lemma first_not_star:
  assumes "wf_token t" and "t \<noteq> Star"
  shows "hd (show_token t) \<noteq> CHR ''*''"
  using assms by (cases t) simp_all

section \<open>Stars\<close>

lemma holds_hd: "holds m i xs \<Longrightarrow> xs \<noteq> [] \<Longrightarrow> m i = hd xs"
  by (cases xs) auto

lemma stars_end:
  assumes "list_all wf_token ts" and "rest_tokens ts = ts" and "holds p i (show_glob ts @ [NUL])"
  shows "p i \<noteq> CHR ''*''"
proof (cases ts)
  case (Cons t us)
  then have "t \<noteq> Star" using rest_head assms(2) by blast
  then show ?thesis
    using holds_hd [OF assms(3)] first_not_star [of t] assms(1) Cons by (simp add: hd_append)
qed (use assms in simp)

lemma trailing_stars_run:
  "list_all wf_token ts \<Longrightarrow> holds p i (show_glob ts @ [NUL]) \<Longrightarrow> i + int (length (show_glob ts)) < plim \<Longrightarrow>
     trailing_stars p plim i (int (length (show_glob ts))) = Some (int (length (show_glob (rest_tokens ts))))"
proof (induction ts arbitrary: i)
  case Nil
  then show ?case by (subst trailing_stars.simps) simp
next
  case (Cons t ts)
  show ?case
  proof (cases "t = Star")
    case True
    then have "trailing_stars p plim (i + 1) (int (length (show_glob ts))) = Some (int (length (show_glob (rest_tokens ts))))"
      using Cons.IH [of "i + 1"] Cons.prems by simp
    then show ?thesis using True Cons.prems by (subst trailing_stars.simps) simp
  next
    case False
    then have "p i \<noteq> CHR ''*''" using stars_end [of "t # ts" p i] Cons.prems by simp
    then show ?thesis using False Cons.prems by (subst trailing_stars.simps) simp
  qed
qed

lemma skip_stars_run:
  "list_all wf_token ts \<Longrightarrow> holds p (i + 1) (show_glob ts @ [NUL]) \<Longrightarrow> i + 1 + int (length (show_glob ts)) < plim \<Longrightarrow>
     \<exists>i'. skip_stars p plim i (int (length (show_glob ts)) + 1) =
         Some (i', int (length (show_glob (rest_tokens ts))) + 1) \<and>
       holds p (i' + 1) (show_glob (rest_tokens ts) @ [NUL]) \<and>
       i' + int (length (show_glob (rest_tokens ts))) = i + int (length (show_glob ts))"
proof (induction ts arbitrary: i)
  case Nil
  then show ?case by (subst skip_stars.simps) simp
next
  case (Cons t ts)
  show ?case
  proof (cases "t = Star")
    case True
    then have "\<exists>i'. skip_stars p plim (i + 1) (int (length (show_glob ts)) + 1) =
         Some (i', int (length (show_glob (rest_tokens ts))) + 1) \<and>
       holds p (i' + 1) (show_glob (rest_tokens ts) @ [NUL]) \<and>
       i' + int (length (show_glob (rest_tokens ts))) = i + 1 + int (length (show_glob ts))"
      using Cons.IH [of "i + 1"] Cons.prems by simp
    then show ?thesis using True Cons.prems by (subst skip_stars.simps) (simp add: algebra_simps)
  next
    case False
    then have "p (i + 1) \<noteq> CHR ''*''" using stars_end [of "t # ts" p "i + 1"] Cons.prems by simp
    then show ?thesis using False Cons.prems by (subst skip_stars.simps) auto
  qed
qed

section \<open>Bracket expressions\<close>

lemma item_head:
  "wf_item it \<Longrightarrow> it \<noteq> EscChr c \<Longrightarrow> hd (show_item it) \<noteq> CHR ''-''"
  by (cases it) auto

lemma items_head:
  assumes "list_all wf_item its" and "holds p i (show_items its @ CHR '']'' # r)"
  shows "p i \<noteq> CHR ''-''"
proof (cases its)
  case (Cons it us)
  then show ?thesis using assms by (cases it) auto
qed (use assms in simp)

lemma bracket_loop_run:
  "list_all wf_item its \<Longrightarrow> holds p i (show_items its @ CHR '']'' # r) \<Longrightarrow>
     i + int (length (show_items its)) < plim \<Longrightarrow> int (length (show_items its)) < pl \<Longrightarrow>
     bracket_loop p plim (Some x) nocase i pl m =
       Some (m \<or> (\<exists>it \<in> set its. item_matches nocase it x), i + int (length (show_items its)),
         pl - int (length (show_items its)))"
proof (induction its arbitrary: i pl m)
  case Nil
  then show ?case by (subst bracket_loop.simps) simp
next
  case (Cons it its)
  note prems = Cons.prems
  show ?case
  proof (cases it)
    case (Chr c)
    have h: "p i = c" "holds p (i + 1) (show_items its @ CHR '']'' # r)" using prems Chr by simp_all
    have "p (i + 1) \<noteq> CHR ''-''" using items_head [OF _ h(2)] prems(1) by simp
    then have "bracket_loop p plim (Some x) nocase i pl m =
        bracket_loop p plim (Some x) nocase (i + 1) (pl - 1) (m \<or> same_char nocase c x)"
      using prems Chr h by (subst bracket_loop.simps) simp
    also have "\<dots> = Some ((m \<or> same_char nocase c x) \<or> (\<exists>it \<in> set its. item_matches nocase it x),
        i + 1 + int (length (show_items its)), pl - 1 - int (length (show_items its)))"
      by (rule Cons.IH) (use prems Chr h in simp_all)
    finally show ?thesis using Chr by simp
  next
    case (EscChr c)
    have h: "p i = CHR 0x5C" "p (i + 1) = c" "holds p (i + 2) (show_items its @ CHR '']'' # r)"
      using prems EscChr by (simp_all add: add.assoc)
    have "bracket_loop p plim (Some x) nocase i pl m =
        bracket_loop p plim (Some x) nocase (i + 2) (pl - 2) (m \<or> c = x)"
      using prems EscChr h by (subst bracket_loop.simps) simp
    also have "\<dots> = Some ((m \<or> c = x) \<or> (\<exists>it \<in> set its. item_matches nocase it x),
        i + 2 + int (length (show_items its)), pl - 2 - int (length (show_items its)))"
      by (rule Cons.IH) (use prems EscChr h in simp_all)
    finally show ?thesis using EscChr by simp
  next
    case (Range a b)
    have h: "p i = a" "p (i + 1) = CHR ''-''" "p (i + 2) = b" "holds p (i + 3) (show_items its @ CHR '']'' # r)"
      using prems Range by (simp_all add: add.assoc)
    have "bracket_loop p plim (Some x) nocase i pl m =
        bracket_loop p plim (Some x) nocase (i + 3) (pl - 3) (m \<or> in_range nocase a b x)"
      using prems Range h by (subst bracket_loop.simps) simp
    also have "\<dots> = Some ((m \<or> in_range nocase a b x) \<or> (\<exists>it \<in> set its. item_matches nocase it x),
        i + 3 + int (length (show_items its)), pl - 3 - int (length (show_items its)))"
      by (rule Cons.IH) (use prems Range h in simp_all)
    finally show ?thesis using Range by simp
  qed
qed

lemma bracket_run:
  assumes wf: "wf_token (Class neg its)" and h: "holds p i (show_token (Class neg its) @ r)"
    and lim: "i + int (length (show_token (Class neg its))) \<le> plim" "int (length (show_token (Class neg its))) \<le> pl"
  shows "bracket p plim (Some x) nocase (i + 1) (pl - 1) = Some (class_matches nocase neg its x,
    i + int (length (show_token (Class neg its))) - 1, pl - int (length (show_token (Class neg its))) + 1)"
proof (cases neg)
  case True
  have "bracket_loop p plim (Some x) nocase (i + 1 + 1) (pl - 1 - 1) False =
       Some (False \<or> (\<exists>it \<in> set its. item_matches nocase it x), i + 1 + 1 + int (length (show_items its)),
         pl - 1 - 1 - int (length (show_items its)))"
    by (rule bracket_loop_run [where r = r]) (use wf h lim True in \<open>simp_all add: add.assoc\<close>)
  then show ?thesis using True h lim by (simp add: bracket_def class_matches_def)
next
  case False
  have run: "bracket_loop p plim (Some x) nocase (i + 1) (pl - 1) False =
       Some (False \<or> (\<exists>it \<in> set its. item_matches nocase it x), i + 1 + int (length (show_items its)),
         pl - 1 - int (length (show_items its)))"
    by (rule bracket_loop_run [where r = r]) (use wf h lim False in simp_all)
  have h1: "holds p (i + 1) (show_items its @ CHR '']'' # r)" using h False by simp
  have "p (i + 1) \<noteq> CHR ''^''"
  proof (cases its)
    case (Cons it us)
    then have "p (i + 1) = hd (show_item it)" using h1 by (cases it) auto
    then show ?thesis using wf False Cons by simp
  qed (use h1 in simp)
  then show ?thesis using run False lim by (simp add: bracket_def class_matches_def)
qed

section \<open>The matcher decides the relation\<close>

definition class_first :: "token list \<Rightarrow> bool" where
  "class_first ts \<longleftrightarrow> (case ts of Class neg its # us \<Rightarrow> True | _ \<Rightarrow> False)"

text \<open>The pattern from \<open>i\<close> on and the string from \<open>j\<close> on, each with its final zero byte.\<close>

definition at_glob :: "mem \<Rightarrow> int \<Rightarrow> int \<Rightarrow> int \<Rightarrow> token list \<Rightarrow> bool" where
  "at_glob p plim i pl ts \<longleftrightarrow> list_all wf_token ts \<and> NUL \<notin> set (show_glob ts) \<and>
     holds p i (show_glob ts @ [NUL]) \<and> pl = int (length (show_glob ts)) \<and> plim = i + pl + 1"

definition at_string :: "mem \<Rightarrow> int \<Rightarrow> int \<Rightarrow> int \<Rightarrow> byte list \<Rightarrow> bool" where
  "at_string s slim j sl str \<longleftrightarrow> holds s j (str @ [NUL]) \<and> sl = int (length str) \<and> slim = j + sl + 1"

lemma at_string_Cons: "at_string s slim j sl (x # str) \<Longrightarrow> at_string s slim (j + 1) (sl - 1) str"
  by (simp add: at_string_def)

lemma at_glob_Cons:
  assumes "at_glob p plim i pl (t # ts)"
  shows "at_glob p plim (i + int (length (show_token t))) (pl - int (length (show_token t))) ts"
  using assms by (simp add: at_glob_def holds_append)

lemma same_char_NUL: "same_char nocase a NUL \<longleftrightarrow> a = NUL"
proof -
  have "c_char a = 0 \<longleftrightarrow> a = NUL" using c_char_inj [of a NUL] by (simp add: c_char_def)
  then show ?thesis by (auto simp: same_char_def to_lower_def c_char_def [of NUL])
qed

text \<open>The end of a pass, when the rest of the tokens is matched as specified.\<close>

lemma match_next_run:
  assumes g: "at_glob p plim (k + 1) pl ts" and t: "at_string s slim j sl str"
    and IH: "str \<noteq> [] \<Longrightarrow> match_loop p plim s slim nocase (k + 1) pl j sl = Some (glob_match nocase ts str)"
  shows "match_next p plim s slim nocase k pl j sl = Some (glob_match nocase ts str)"
proof (cases str)
  case Nil
  have "trailing_stars p plim (k + 1) pl = Some (int (length (show_glob (rest_tokens ts))))"
    using trailing_stars_run [of ts p "k + 1" plim] g by (simp add: at_glob_def)
  moreover have "show_glob (rest_tokens ts) = [] \<longleftrightarrow> rest_tokens ts = []"
    by (cases "rest_tokens ts") simp_all
  moreover have "sl = 0" "\<not> plim \<le> k" using Nil t g by (simp_all add: at_string_def at_glob_def)
  ultimately show ?thesis using Nil by (simp add: match_next.simps glob_Nil)
next
  case (Cons x xs)
  then have "sl \<noteq> 0" "\<not> plim \<le> k" using t g by (simp_all add: at_string_def at_glob_def)
  then show ?thesis using IH Cons by (simp add: match_next.simps)
qed

text \<open>The loop over the string behind stars.\<close>

lemma star_loop_run:
  assumes us: "rest_tokens us = us" "us \<noteq> []" and g: "at_glob p plim (i + 1) pl us"
    and IH: "\<And>j sl str. at_string s slim j sl str \<Longrightarrow> str \<noteq> [] \<Longrightarrow>
      match_loop p plim s slim nocase (i + 1) pl j sl = Some (glob_match nocase us str)"
  shows "at_string s slim j sl str \<Longrightarrow>
    star_loop p plim s slim nocase i pl j sl = Some (glob_match nocase (Star # us) str)"
proof (induction str arbitrary: j sl)
  case Nil
  then show ?case using g us
    by (subst star_loop.simps) (simp add: at_string_def at_glob_def glob_star_Nil glob_Nil)
next
  case (Cons x str)
  have "star_loop p plim s slim nocase i pl (j + 1) (sl - 1) = Some (glob_match nocase (Star # us) str)"
    by (rule Cons.IH [OF at_string_Cons [OF Cons.prems]])
  moreover have "match_loop p plim s slim nocase (i + 1) pl j sl = Some (glob_match nocase us (x # str))"
    using IH [OF Cons.prems] by simp
  moreover have "sl \<noteq> 0" "INT_MIN < sl" "\<not> plim \<le> i"
    using Cons.prems g by (simp_all add: at_string_def at_glob_def INT_MIN_def)
  ultimately show ?case by (subst star_loop.simps) (auto simp: glob_star_Cons split: bool.splits)
qed

text \<open>
  One pass of the loop for each kind of token; \<open>tail\<close> says that the rest of the pattern is matched
  when the pass ends.
\<close>

lemma star_run:
  assumes g: "at_glob p plim i pl (Star # us)" and t: "at_string s slim j sl str"
    and IH: "\<And>i pl j sl str. at_glob p plim i pl (rest_tokens us) \<Longrightarrow> at_string s slim j sl str \<Longrightarrow> str \<noteq> [] \<Longrightarrow>
      match_loop p plim s slim nocase i pl j sl = Some (glob_match nocase (rest_tokens us) str)"
  shows "match_loop p plim s slim nocase i pl j sl = Some (glob_match nocase (Star # us) str)"
proof -
  let ?us = "rest_tokens us" and ?pl = "int (length (show_glob (rest_tokens us)))"
  have pi: "pl = int (length (show_glob us)) + 1" "pl \<noteq> 0" "\<not> plim \<le> i" "p i = CHR ''*''"
    using g by (auto simp: at_glob_def)
  then obtain i' where i': "skip_stars p plim i pl = Some (i', ?pl + 1)" "holds p (i' + 1) (show_glob ?us @ [NUL])"
    "i' + ?pl = i + int (length (show_glob us))"
    using skip_stars_run [of us p i plim] g by (auto simp: at_glob_def)
  show ?thesis
  proof (cases "?us = []")
    case True
    then have "glob_match nocase (Star # us) str" using glob_star_rest [of nocase us str] glob_star_all by simp
    then show ?thesis using True i' pi by (subst match_loop.simps) simp
  next
    case False
    have stable: "rest_tokens ?us = ?us" by (simp add: rest_tokens_def)
    have "set (show_glob ?us) \<subseteq> set (show_glob us)" by (auto simp: rest_tokens_def dest: set_dropWhileD)
    then have gr: "at_glob p plim (i' + 1) ?pl ?us" using g i' rest_wf by (auto simp: at_glob_def)
    have "star_loop p plim s slim nocase i' ?pl j sl = Some (glob_match nocase (Star # ?us) str)"
      by (rule star_loop_run [OF stable False gr IH [OF gr] t])
    moreover have "?pl \<noteq> 0" using False by (cases ?us) (auto simp: show_token_pos)
    ultimately show ?thesis
      using i' pi glob_star_rest [of nocase us str] by (subst match_loop.simps) simp
  qed
qed

lemma any_run:
  assumes g: "at_glob p plim i pl (Any # us)" and t: "at_string s slim j sl str"
    and tail: "\<And>k pl j sl str. at_glob p plim (k + 1) pl us \<Longrightarrow> at_string s slim j sl str \<Longrightarrow>
      match_next p plim s slim nocase k pl j sl = Some (glob_match nocase us str)"
  shows "match_loop p plim s slim nocase i pl j sl = Some (glob_match nocase (Any # us) str)"
proof -
  have pi: "pl \<noteq> 0" "\<not> plim \<le> i" "p i = CHR ''?''" using g by (auto simp: at_glob_def)
  show ?thesis
  proof (cases str)
    case Nil
    then show ?thesis using t pi by (subst match_loop.simps) (simp add: at_string_def)
  next
    case (Cons x xs)
    have "match_next p plim s slim nocase i (pl - 1) (j + 1) (sl - 1) = Some (glob_match nocase us xs)"
      by (rule tail) (use at_glob_Cons [OF g] at_string_Cons t Cons in auto)
    moreover have "sl \<noteq> 0" using t Cons by (simp add: at_string_def)
    ultimately show ?thesis using pi Cons by (subst match_loop.simps) simp
  qed
qed

lemma string_read:
  assumes "at_string s slim j sl str"
  shows "read_at s slim j = Some (case str of [] \<Rightarrow> NUL | x # xs \<Rightarrow> x)"
  using assms by (auto simp: at_string_def read_at_def split: list.splits)

lemma lit_run:
  assumes g: "at_glob p plim i pl (Lit c # us)" and t: "at_string s slim j sl str"
    and tail: "\<And>k pl j sl str. at_glob p plim (k + 1) pl us \<Longrightarrow> at_string s slim j sl str \<Longrightarrow>
      match_next p plim s slim nocase k pl j sl = Some (glob_match nocase us str)"
  shows "match_loop p plim s slim nocase i pl j sl = Some (glob_match nocase (Lit c # us) str)"
proof -
  have pi: "pl \<noteq> 0" "p i = c" "wf_token (Lit c)" "c \<noteq> NUL" "\<not> plim \<le> i" using g by (auto simp: at_glob_def)
  then have pi': "p i \<noteq> CHR ''*''" "p i \<noteq> CHR ''?''" "p i \<noteq> CHR ''[''" "p i \<noteq> CHR 0x5C" by simp_all
  have rp: "read_at p plim i = Some c" using pi by (simp add: read_at_def)
  show ?thesis
  proof (cases str)
    case Nil
    then show ?thesis using pi pi' rp same_char_NUL [of nocase c] string_read [OF t]
      by (subst match_loop.simps) simp
  next
    case (Cons x xs)
    have "match_next p plim s slim nocase i (pl - 1) (j + 1) (sl - 1) = Some (glob_match nocase us xs)"
      by (rule tail) (use at_glob_Cons [OF g] at_string_Cons t Cons in auto)
    then show ?thesis using pi pi' rp Cons string_read [OF t] by (subst match_loop.simps) simp
  qed
qed

lemma esc_run:
  assumes g: "at_glob p plim i pl (Esc c # us)" and t: "at_string s slim j sl str"
    and tail: "\<And>k pl j sl str. at_glob p plim (k + 1) pl us \<Longrightarrow> at_string s slim j sl str \<Longrightarrow>
      match_next p plim s slim nocase k pl j sl = Some (glob_match nocase us str)"
  shows "match_loop p plim s slim nocase i pl j sl = Some (glob_match nocase (Esc c # us) str)"
proof -
  have pi: "p i = CHR 0x5C" "p (i + 1) = c" "c \<noteq> NUL" "plim = i + pl + 1" "2 \<le> pl"
    using g by (auto simp: at_glob_def)
  have rp: "read_at p plim (i + 1) = Some c" using pi by (simp add: read_at_def)
  show ?thesis
  proof (cases str)
    case Nil
    then show ?thesis using pi rp same_char_NUL [of nocase c] string_read [OF t]
      by (subst match_loop.simps) simp
  next
    case (Cons x xs)
    have "match_next p plim s slim nocase (i + 1) (pl - 2) (j + 1) (sl - 1) = Some (glob_match nocase us xs)"
      by (rule tail) (use at_glob_Cons [OF g] at_string_Cons t Cons in \<open>auto simp: add.assoc\<close>)
    then show ?thesis using pi rp Cons string_read [OF t] by (subst match_loop.simps) simp
  qed
qed

lemma class_run:
  assumes g: "at_glob p plim i pl (Class neg its # us)" and t: "at_string s slim j sl (x # xs)"
    and tail: "\<And>k pl j sl str. at_glob p plim (k + 1) pl us \<Longrightarrow> at_string s slim j sl str \<Longrightarrow>
      match_next p plim s slim nocase k pl j sl = Some (glob_match nocase us str)"
  shows "match_loop p plim s slim nocase i pl j sl = Some (glob_match nocase (Class neg its # us) (x # xs))"
proof -
  obtain n where n: "n = int (length (show_token (Class neg its)))" by blast
  have pi: "pl \<noteq> 0" "\<not> plim \<le> i" "p i = CHR ''[''" using g by (auto simp: at_glob_def)
  have b: "bracket p plim (Some x) nocase (i + 1) (pl - 1) = Some (class_matches nocase neg its x, i + n - 1, pl - n + 1)"
    unfolding n by (rule bracket_run [where r = "show_glob us @ [NUL]"]) (use g in \<open>auto simp: at_glob_def\<close>)
  have "match_next p plim s slim nocase (i + n - 1) (pl - n) (j + 1) (sl - 1) = Some (glob_match nocase us xs)"
  proof (rule tail)
    have "i + n - 1 + 1 = i + n" by simp
    then show "at_glob p plim (i + n - 1 + 1) (pl - n) us" using at_glob_Cons [OF g] by (simp only: n)
    show "at_string s slim (j + 1) (sl - 1) xs" using at_string_Cons t by simp
  qed
  then show ?thesis using pi b string_read [OF t] by (subst match_loop.simps) simp
qed

lemma match_loop_run:
  "at_glob p plim i pl ts \<Longrightarrow> at_string s slim j sl str \<Longrightarrow> str \<noteq> [] \<or> \<not> class_first ts \<Longrightarrow>
     match_loop p plim s slim nocase i pl j sl = Some (glob_match nocase ts str)"
proof (induction ts arbitrary: i pl j sl str rule: length_induct)
  case (1 ts)
  show ?case
  proof (cases ts)
    case Nil
    then show ?thesis using "1.prems"
      by (subst match_loop.simps) (simp add: at_glob_def at_string_def)
  next
    case (Cons t us)
    note g = "1.prems"(1) [unfolded Cons] and str = "1.prems"(2)
    have tail: "match_next p plim s slim nocase k pl j sl = Some (glob_match nocase us str)"
      if "at_glob p plim (k + 1) pl us" "at_string s slim j sl str" for k pl j sl str
      using match_next_run [OF that] "1.IH" that Cons by simp
    show ?thesis
    proof (cases t)
      case Star
      have less: "length (rest_tokens us) < length ts" using rest_length [of us] Cons by simp
      show ?thesis unfolding Cons Star
        by (rule star_run [OF g [unfolded Star] str]) (use "1.IH" less in blast)
    next
      case Any
      then show ?thesis unfolding Cons Any by (intro any_run [OF g [unfolded Any] str tail])
    next
      case (Lit c)
      then show ?thesis unfolding Cons Lit by (intro lit_run [OF g [unfolded Lit] str tail])
    next
      case (Esc c)
      then show ?thesis unfolding Cons Esc by (intro esc_run [OF g [unfolded Esc] str tail])
    next
      case (Class neg its)
      then obtain x xs where x: "str = x # xs" using "1.prems"(3) Cons by (cases str) (auto simp: class_first_def)
      show ?thesis unfolding Cons Class x by (rule class_run [OF g [unfolded Class] str [unfolded x] tail])
    qed
  qed
qed

section \<open>Properties\<close>

lemma holds_zero_ended: "holds (zero_ended (xs @ ys)) (int (length xs)) (ys @ [NUL])"
proof (induction ys arbitrary: xs)
  case Nil
  then show ?case by (simp add: zero_ended_def)
next
  case (Cons y ys)
  have "zero_ended (xs @ y # ys) (int (length xs)) = y" by (simp add: zero_ended_def)
  moreover have "holds (zero_ended ((xs @ [y]) @ ys)) (int (length (xs @ [y]))) (ys @ [NUL])" by (rule Cons.IH)
  ultimately show ?case by (simp add: add.commute)
qed

text \<open>
  C8: on every pattern of literals, escapes, \<open>?\<close>, \<open>*\<close> and bracket expressions (ranges and
  negation included) \<open>stringmatch\<close> returns, reads nothing outside the two C strings, and answers
  whether the pattern matches the string up to its first zero byte; on the empty string this holds unless
  the pattern starts with a bracket expression.
\<close>

theorem stringmatch_correct:
  assumes "list_all wf_token ts" and "NUL \<notin> set (show_glob ts)" and "cstr str \<noteq> [] \<or> \<not> class_first ts"
  shows "stringmatch (show_glob ts) str nocase = Some (glob_match nocase ts (cstr str))"
proof -
  have p: "cstr (show_glob ts) = show_glob ts" using assms(2) by (auto simp: cstr_def takeWhile_eq_all_conv)
  have "at_glob (zero_ended (show_glob ts)) (int (length (show_glob ts)) + 1) 0 (int (length (show_glob ts))) ts"
    using assms holds_zero_ended [of "[]" "show_glob ts"] by (simp add: at_glob_def)
  moreover have "at_string (zero_ended (cstr str)) (int (length (cstr str)) + 1) 0 (int (length (cstr str))) (cstr str)"
    using holds_zero_ended [of "[]" "cstr str"] by (simp add: at_string_def)
  ultimately show ?thesis using match_loop_run assms(3) by (simp add: stringmatch_def stringmatchlen_def p)
qed

theorem stringmatch_correct_witness:
  "stringmatch ''h[^x-z]*o?'' ''hello!'' False =
     Some (glob_match False [Lit (CHR ''h''), Class True [Range (CHR ''x'') (CHR ''z'')], Star, Lit (CHR ''o''), Any] ''hello!'')"
  using stringmatch_correct
    [of "[Lit (CHR ''h''), Class True [Range (CHR ''x'') (CHR ''z'')], Star, Lit (CHR ''o''), Any]" "''hello!''" False]
  by (simp add: cstr_def)

text \<open>
  A pattern that ends in an opening bracket and a backslash makes the matcher run on behind the
  end of the pattern, for every string but the empty one.
\<close>

theorem unclosed_escape_overreads:
  assumes "x \<noteq> NUL"
  shows "stringmatch [CHR ''['', CHR 0x5C] (x # str) nocase = None"
proof -
  have c: "cstr [CHR ''['', CHR 0x5C] = [CHR ''['', CHR 0x5C]" "cstr (x # str) = x # cstr str"
    using assms by (simp_all add: cstr_def)
  let ?p = "zero_ended [CHR ''['', CHR 0x5C]"
  have p: "?p 0 = CHR ''[''" "?p 1 = CHR 0x5C" "?p 2 = NUL" by (simp_all add: zero_ended_def)
  have "bracket_loop ?p 3 (Some x) nocase 1 1 False = None"
    by (subst bracket_loop.simps) (simp add: p, subst bracket_loop.simps, simp)
  then have "bracket ?p 3 (Some x) nocase 1 1 = None" using p by (simp add: bracket_def)
  moreover have "read_at (zero_ended (x # cstr str)) (int (length (x # cstr str)) + 1) 0 = Some x"
    by (simp add: read_at_def zero_ended_def)
  ultimately show ?thesis unfolding stringmatch_def stringmatchlen_def c Let_def
    by (subst match_loop.simps) (simp add: p(1))
qed

end
