(* ===== verification/Command.thy ===== *)
theory Command
  imports Prelude "HOL-Library.Monad_Syntax"
begin

text \<open>
  \<open>command.c\<close>: the incremental request parser and the replies of the older servers. The \<open>req_t\<close> it
  is written for is not in the repository; the record has the fields the code uses. What
  \<open>alloc_req\<close> returns, what \<open>alloc_dma\<close> does and the sizes of the two buffers of a request are
  parameters (\<open>cenv\<close>). The input is a memory with a length; \<open>None\<close> is undefined behaviour.
\<close>

record creq =
  cfd :: int
  addr :: int
  target_fd :: int
  kw_valid :: int
  keywordNum :: int
  ty_valid :: int
  ty_len :: int
  ty_offset :: int
  type_str :: mem
  ty :: int
  ky_valid :: int
  ky_len :: int
  ky_offset :: int
  ky :: int
  va_valid :: int
  va_len :: int
  va_offset :: int
  va :: mem

record cenv =
  fresh_req :: creq
  dma :: "creq \<Rightarrow> creq"
  type_cap :: int
  value_cap :: int

section \<open>The parts of a request\<close>

text \<open>\<open>switch(which)\<close>: 1 the number of words, 2 the type, 3 the key, 4 the value.\<close>

definition add_valid :: "int \<Rightarrow> creq \<Rightarrow> creq" where
  "add_valid which r =
     (if which = 1 then r\<lparr>kw_valid := kw_valid r + 1\<rparr>
      else if which = 2 then r\<lparr>ty_valid := ty_valid r + 1\<rparr>
      else if which = 3 then r\<lparr>ky_valid := ky_valid r + 1\<rparr>
      else if which = 4 then r\<lparr>va_valid := va_valid r + 1\<rparr>
      else r)"

definition times_ten_plus :: "int \<Rightarrow> int \<Rightarrow> int option" where
  "times_ten_plus x d = (if is_int (x * 10) \<and> is_int (x * 10 + d) then Some (x * 10 + d) else None)"

definition add_length :: "int \<Rightarrow> int \<Rightarrow> creq \<Rightarrow> creq option" where
  "add_length which d r =
     (if which = 1 then map_option (\<lambda>n. r\<lparr>keywordNum := n\<rparr>) (times_ten_plus (keywordNum r) d)
      else if which = 2 then map_option (\<lambda>n. r\<lparr>ty_len := n\<rparr>) (times_ten_plus (ty_len r) d)
      else if which = 3 then map_option (\<lambda>n. r\<lparr>ky_len := n\<rparr>) (times_ten_plus (ky_len r) d)
      else if which = 4 then map_option (\<lambda>n. r\<lparr>va_len := n\<rparr>) (times_ten_plus (va_len r) d)
      else Some r)"

text \<open>\<open>while ( cur < len && str[cur++] != '\\r' )\<close>: the number read and the position behind.\<close>

function length_loop :: "mem \<Rightarrow> int \<Rightarrow> int \<Rightarrow> int \<Rightarrow> (int \<times> int) option" where
  "length_loop str len cur added =
     (if len \<le> cur then Some (added, cur)
      else if str cur = CR then Some (added, cur + 1)
      else if is_int (added * 10) \<and> is_int (added * 10 + c_char (str cur)) \<and>
              is_int (added * 10 + c_char (str cur) - 48)
           then length_loop str len (cur + 1) (added * 10 + c_char (str cur) - 48)
           else None)"
  by pat_completeness auto
termination by (relation "measure (\<lambda>(str, len, cur, added). nat (len - cur))") auto

declare length_loop.simps [simp del]

definition GetLength :: "mem \<Rightarrow> byte \<Rightarrow> int \<Rightarrow> int \<Rightarrow> creq \<Rightarrow> int \<Rightarrow> (int \<times> creq) option" where
  "GetLength str cmp len cur r which =
     (if cur = len then Some (- 1, r)
      else if str cur = LF then Some (cur + 1, add_valid which r)
      else
        let cur1 = (if cur < len \<and> str cur = cmp then cur + 1 else cur)
        in if cur1 = len then Some (- 1, r)
           else do { (added, cur2) \<leftarrow> length_loop str len cur1 0;
                     let flag = (cur2 < len \<and> str cur2 = LF);
                     r1 \<leftarrow> add_length which added r;
                     Some (if flag then (cur2 + 1, add_valid which r1) else (- 1, r1)) })"

text \<open>The line end behind the data: an optional \<open>\\r\<close>, then \<open>\\n\<close>, or the input is not complete.\<close>

definition line_end :: "mem \<Rightarrow> int \<Rightarrow> int \<Rightarrow> (creq \<Rightarrow> creq) \<Rightarrow> creq \<Rightarrow> int \<times> creq" where
  "line_end str len cur done r =
     (let cur1 = (if str cur = CR then cur + 1 else cur)
      in if cur1 < len \<and> str cur1 = LF then (cur1 + 1, done r) else (- 1, r))"

definition type_done :: "creq \<Rightarrow> creq" where
  "type_done r =
     (let name = peek (type_str r) 0 4;
          r1 = (if name = ''SET'' @ [NUL] then r\<lparr>ty := 1\<rparr>
                else if name = ''GET'' @ [NUL] then r\<lparr>ty := 2\<rparr>
                else if name = ''DEL'' @ [NUL] then r\<lparr>ty := 3\<rparr> else r)
      in r1\<lparr>ty_valid := ty_valid r1 + 1\<rparr>)"

definition GetType :: "cenv \<Rightarrow> mem \<Rightarrow> int \<Rightarrow> int \<Rightarrow> creq \<Rightarrow> (int \<times> creq) option" where
  "GetType e str len cur r =
     (let left = ty_len r - ty_offset r in
      if left = 0 then Some (if cur = len then (- 1, r) else line_end str len cur type_done r)
      else let available = (if len - cur > left then left else len - cur) in
        if available < 0 \<or> ty_offset r < 0 \<or> type_cap e < ty_offset r + available then None
        else let r1 = r\<lparr>type_str := poke (type_str r) (ty_offset r) (peek str cur (nat available)),
                        ty_offset := ty_offset r + available\<rparr>; cur1 = cur + available
             in Some (if cur1 = len then (- 1, r1) else line_end str len cur1 type_done r1))"

text \<open>The digits of the key; the first argument counts the bytes left.\<close>

fun key_loop :: "nat \<Rightarrow> mem \<Rightarrow> int \<Rightarrow> int \<Rightarrow> int" where
  "key_loop 0 str cur key = key"
| "key_loop (Suc n) str cur key =
     key_loop n str (cur + 1) (if isdigit (str cur) then to_uint64 (key * 10 + c_char (str cur) - 48) else key)"

definition key_done :: "creq \<Rightarrow> creq" where
  "key_done r = r\<lparr>ky_valid := ky_valid r + 1\<rparr>"

text \<open>\<open>available\<close> below 0 makes the loop run out of the input.\<close>

definition GetKey :: "mem \<Rightarrow> int \<Rightarrow> int \<Rightarrow> creq \<Rightarrow> (int \<times> creq) option" where
  "GetKey str len cur r =
     (let left = ky_len r - ky_offset r in
      if left = 0 then Some (if cur = len then (- 1, r) else line_end str len cur key_done r)
      else let available = (if len - cur > left then left else len - cur) in
        if available < 0 then None
        else let r1 = r\<lparr>ky_offset := ky_offset r + available,
                        ky := key_loop (nat available) str cur (ky r)\<rparr>; cur1 = cur + available
             in Some (if cur1 = len then (- 1, r1) else line_end str len cur1 key_done r1))"

definition value_done :: "creq \<Rightarrow> creq" where
  "value_done r = r\<lparr>va_valid := va_valid r + 1\<rparr>"

definition GetValue :: "cenv \<Rightarrow> mem \<Rightarrow> int \<Rightarrow> int \<Rightarrow> creq \<Rightarrow> (int \<times> creq) option" where
  "GetValue e str len cur r =
     (let left = va_len r - va_offset r in
      if left = 0 then Some (if cur = len then (- 1, r) else line_end str len cur value_done r)
      else let available = (if len - cur > left then left else len - cur) in
        if available < 0 \<or> va_offset r < 0 \<or> value_cap e < va_offset r + available then None
        else let r1 = r\<lparr>va := poke (va r) (va_offset r) (peek str cur (nat available)),
                        va_offset := va_offset r + available\<rparr>; cur1 = cur + available
             in Some (if cur1 = len then (- 1, r1) else line_end str len cur1 value_done r1))"

section \<open>Requests\<close>

datatype cevent = CReply int "byte list" | CMake creq

text \<open>
  One pass of the loop: the request waits for more input, or it has been submitted and the next one
  starts at a position; with what was written and submitted.
\<close>

datatype pass = Wait creq "cevent list" | Made int "cevent list" | Broken

text \<open>A stage that is left out or run, and what follows it.\<close>

definition stage :: "bool \<Rightarrow> (int \<Rightarrow> creq \<Rightarrow> (int \<times> creq) option) \<Rightarrow> int \<Rightarrow> creq \<Rightarrow> cevent list \<Rightarrow>
    (int \<Rightarrow> creq \<Rightarrow> pass) \<Rightarrow> pass" where
  "stage run f cur r out k =
     (if \<not> run then k cur r
      else (case f cur r of
              None \<Rightarrow> Broken
            | Some (cur1, r1) \<Rightarrow> if cur1 = - 1 then Wait r1 out else k cur1 r1))"

text \<open>\<open>replies\<close>: \<open>GetRequest\<close> writes \<open>+OK\<close> for a \<open>SET\<close>, \<open>master_GetRequest\<close> does not.\<close>

definition request_pass :: "bool \<Rightarrow> cenv \<Rightarrow> mem \<Rightarrow> int \<Rightarrow> int \<Rightarrow> creq \<Rightarrow> pass" where
  "request_pass replies e str len cur r =
     stage (kw_valid r = 0) (\<lambda>c r. GetLength str (CHR ''*'') len c r 1) cur r [] (\<lambda>cur r.
     stage (ty_valid r = 0) (\<lambda>c r. GetLength str (CHR ''$'') len c r 2) cur r [] (\<lambda>cur r.
     stage (ty_valid r = 1) (GetType e str len) cur r [] (\<lambda>cur r.
     let out = (if replies \<and> ty r = 1 then [CReply (cfd r) (''+OK'' @ [CR, LF])] else []) in
     stage (ky_valid r = 0) (\<lambda>c r. GetLength str (CHR ''$'') len c r 3) cur r out (\<lambda>cur r.
     stage (ky_valid r = 1) (GetKey str len) cur r out (\<lambda>cur r.
     let r1 = r\<lparr>ky := to_uint64 (ky r + 1)\<rparr>; r2 = (if ty r1 < 3 then dma e r1 else r1) in
     if ty r2 > 1 then Made cur (out @ [CMake r2])
     else
     stage (va_valid r2 = 0) (\<lambda>c r. GetLength str (CHR ''$'') len c r 4) cur r2 out (\<lambda>cur r.
     stage (va_valid r = 1) (GetValue e str len) cur r out (\<lambda>cur r.
     Made cur (out @ [CMake r]))))))))"

fun request_loop :: "nat \<Rightarrow> bool \<Rightarrow> cenv \<Rightarrow> int \<Rightarrow> mem \<Rightarrow> int \<Rightarrow> int \<Rightarrow> creq option \<Rightarrow>
    (creq option \<times> cevent list) outcome" where
  "request_loop 0 replies e fd str len cur req = Loops"
| "request_loop (Suc n) replies e fd str len cur req =
     (if cur < len then
        (case request_pass replies e str len cur
                (case req of None \<Rightarrow> (fresh_req e)\<lparr>cfd := fd\<rparr> | Some r \<Rightarrow> r) of
           Broken \<Rightarrow> Undef
         | Wait r out \<Rightarrow> Ret (Some r, out)
         | Made cur1 out \<Rightarrow>
             and_then (request_loop n replies e fd str len cur1 None) (\<lambda>(q, out1). Ret (q, out @ out1)))
      else Ret (None, []))"

definition GetRequest :: "cenv \<Rightarrow> int \<Rightarrow> mem \<Rightarrow> int \<Rightarrow> creq option \<Rightarrow> (creq option \<times> cevent list) outcome" where
  "GetRequest e fd str len req = request_loop (nat len + 2) True e fd str len 0 req"

definition master_GetRequest :: "cenv \<Rightarrow> int \<Rightarrow> mem \<Rightarrow> int \<Rightarrow> creq option \<Rightarrow> (creq option \<times> cevent list) outcome" where
  "master_GetRequest e fd str len req = request_loop (nat len + 2) False e fd str len 0 req"

section \<open>Replies\<close>

text \<open>
  What a reply function returns and what it has written, to which descriptor. Whether each \<open>write\<close>
  succeeds is an argument. \<open>print_into\<close> is \<open>sprintf\<close> into an array of \<open>cap\<close> bytes: the text and a
  terminating zero byte must fit.
\<close>

type_synonym reply = "int \<times> (int \<times> byte list) list"

definition print_into :: "int \<Rightarrow> mem \<Rightarrow> int \<Rightarrow> byte list \<Rightarrow> mem option" where
  "print_into cap b i txt =
     (if 0 \<le> i \<and> i + int (length txt) + 1 \<le> cap then Some (poke b i (txt @ [NUL])) else None)"

text \<open>\<open>%0wd\<close>\<close>

definition zero_padded :: "nat \<Rightarrow> int \<Rightarrow> byte list" where
  "zero_padded w x =
     (if x < 0 then CHR ''-'' # replicate (w - 1 - length (dec (nat (- x)))) (CHR ''0'') @ dec (nat (- x))
      else replicate (w - length (dec (nat x))) (CHR ''0'') @ dec (nat x))"

definition master_SendOkCommand :: "bool \<Rightarrow> int \<Rightarrow> reply" where
  "master_SendOkCommand ok fd = (if ok then (0, [(fd, ''+OK'' @ [CR, LF])]) else (- 1, []))"

definition SendErrCommand :: "bool \<Rightarrow> bool \<Rightarrow> bool \<Rightarrow> int \<Rightarrow> byte list \<Rightarrow> reply" where
  "SendErrCommand ok1 ok2 ok3 fd msg =
     (if \<not> ok1 then (- 1, [])
      else if \<not> ok2 then (- 1, [(fd, ''-ERR '')])
      else if \<not> ok3 then (- 1, [(fd, ''-ERR ''), (fd, msg)])
      else (0, [(fd, ''-ERR ''), (fd, msg), (fd, [CR, LF])]))"

definition SendDelCommand :: "bool \<Rightarrow> int \<Rightarrow> reply" where
  "SendDelCommand ok fd = (if ok then (0, [(fd, '':1'' @ [CR, LF])]) else (- 1, []))"

text \<open>\<open>char header[7+8192+2]\<close>; \<open>junk\<close> is what the array holds at first.\<close>

definition master_SendBulkValue :: "mem \<Rightarrow> bool \<Rightarrow> int \<Rightarrow> mem \<Rightarrow> int \<Rightarrow> reply option" where
  "master_SendBulkValue junk ok fd val len =
     do { h1 \<leftarrow> print_into 8201 junk 0 (CHR ''$'' # sprint_d 8192 @ [CR, LF]);
          let h2 = poke h1 7 (peek val 0 8192);
          h3 \<leftarrow> print_into 8201 h2 8199 [CR, LF];
          Some (if ok then (0, [(fd, peek h3 0 8201)]) else (- 1, [])) }"

end
