(* ===== verification/CommandProps.thy ===== *)
theory CommandProps
  imports Command ClientParser
begin

text \<open>
  The incremental parser of \<open>command.c\<close>: complete commands in one buffer are submitted as they were
  encoded; data may be cut anywhere; and what goes wrong when a command is cut elsewhere.
\<close>

section \<open>The stages on complete input\<close>

lemma dec_value_ge: "0 \<le> a \<Longrightarrow> \<forall>d \<in> set ds. isdigit d \<Longrightarrow> a \<le> dec_value a ds"
proof (induction ds arbitrary: a)
  case (Cons d ds)
  then have "48 \<le> c_char d" by (simp add: isdigit_def)
  then have "a \<le> a * 10 + (c_char d - 48)" "0 \<le> a * 10 + (c_char d - 48)" using Cons.prems(1) by simp_all
  then show ?case using Cons.IH [of "a * 10 + (c_char d - 48)"] Cons.prems by fastforce
qed simp

lemma length_loop_run:
  "holds str cur (ds @ [CR]) \<Longrightarrow> \<forall>d \<in> set ds. isdigit d \<Longrightarrow> cur + int (length ds) < len \<Longrightarrow> 0 \<le> a \<Longrightarrow>
     dec_value a ds + 48 \<le> INT_MAX \<Longrightarrow>
     length_loop str len cur a = Some (dec_value a ds, cur + int (length ds) + 1)"
proof (induction ds arbitrary: cur a)
  case Nil
  then show ?case by (simp add: length_loop.simps)
next
  case (Cons d ds)
  let ?a = "a * 10 + c_char d - 48"
  have d: "48 \<le> c_char d" "c_char d \<le> 57" "str cur = d" "d \<noteq> CR"
    using Cons.prems by (auto simp: isdigit_def c_char_def)
  have le: "?a + 48 \<le> INT_MAX"
    using dec_value_ge [of ?a ds] Cons.prems(2,4,5) d by (simp add: add_diff_eq)
  have "length_loop str len (cur + 1) ?a = Some (dec_value ?a ds, cur + 1 + int (length ds) + 1)"
    by (rule Cons.IH) (use Cons.prems d in \<open>simp_all add: add_diff_eq\<close>)
  then show ?case using Cons.prems d le
    by (subst length_loop.simps) (simp add: is_int_def INT_MIN_def add_diff_eq)
qed

lemma GetLength_run:
  assumes h: "holds str cur (cmp # dec n @ [CR, LF])" and lim: "cur + int (length (dec n)) + 3 \<le> len"
    and cmp: "cmp \<noteq> LF" and n: "int n + 48 \<le> INT_MAX" and r1: "add_length which (int n) r = Some r1"
  shows "GetLength str cmp len cur r which = Some (cur + int (length (dec n)) + 3, add_valid which r1)"
proof -
  have d: "holds str (cur + 1) (dec n @ [CR])" "str (cur + 1 + int (length (dec n)) + 1) = LF" "str cur = cmp"
    using h by (simp_all add: holds_append algebra_simps)
  have "length_loop str len (cur + 1) 0 = Some (dec_value 0 (dec n), cur + 1 + int (length (dec n)) + 1)"
    by (rule length_loop_run [OF d(1)]) (use lim n in \<open>simp_all add: dec_isdigit dec_value_dec\<close>)
  then show ?thesis using d(2,3) lim cmp r1
    by (simp add: GetLength_def dec_value_dec Let_def algebra_simps)
qed

lemma holds_data:
  assumes "holds m i (xs @ ys)"
  shows "peek m i (length xs) = xs" and "holds m (i + int (length xs)) ys"
  using assms holds_append holds_peek by blast+

lemma line_end_run: "holds str cur [CR, LF] \<Longrightarrow> cur + 2 \<le> len \<Longrightarrow> line_end str len cur f r = (cur + 2, f r)"
  by (simp add: line_end_def)

lemma GetType_run:
  assumes "holds str cur (name @ [CR, LF])" and "cur + int (length name) + 2 \<le> len" and "name \<noteq> []"
    and "ty_len r = int (length name)" and "ty_offset r = 0" and "int (length name) \<le> type_cap e"
  shows "GetType e str len cur r = Some (cur + int (length name) + 2,
    type_done (r\<lparr>type_str := poke (type_str r) 0 name, ty_offset := int (length name)\<rparr>))"
proof -
  note h = holds_data [OF assms(1)]
  show ?thesis using h(1) assms(2-6) line_end_run [OF h(2), of len]
    by (simp add: GetType_def Let_def)
qed

definition key_value :: "int \<Rightarrow> byte list \<Rightarrow> int" where
  "key_value a k = foldl (\<lambda>a c. if isdigit c then to_uint64 (a * 10 + c_char c - 48) else a) a k"

lemma key_loop_run: "holds str cur k \<Longrightarrow> key_loop (length k) str cur a = key_value a k"
  by (induction k arbitrary: cur a) (simp_all add: key_value_def)

lemma key_value_digits:
  "0 \<le> a \<Longrightarrow> \<forall>d \<in> set ds. isdigit d \<Longrightarrow> dec_value a ds < 18446744073709551616 \<Longrightarrow> key_value a ds = dec_value a ds"
proof (induction ds arbitrary: a)
  case (Cons d ds)
  let ?a = "a * 10 + c_char d - 48"
  have d: "isdigit d" "0 \<le> ?a" using Cons.prems by (simp_all add: isdigit_def)
  then have "?a < 18446744073709551616"
    using dec_value_ge [of ?a ds] Cons.prems by (simp add: add_diff_eq)
  then have "to_uint64 ?a = ?a" using d(2) by (simp add: to_uint64_id)
  then show ?case using Cons.IH [of ?a] Cons.prems d by (simp add: key_value_def add_diff_eq)
qed (simp add: key_value_def)

lemma key_value_prefix: "\<forall>c \<in> set pre. \<not> isdigit c \<Longrightarrow> key_value a (pre @ ds) = key_value a ds"
  by (induction pre) (simp_all add: key_value_def)

lemma key_value_dec:
  assumes "\<forall>c \<in> set pre. \<not> isdigit c" and "int n < 18446744073709551616"
  shows "key_value 0 (pre @ dec n) = int n"
  using key_value_digits [of 0 "dec n"] assms by (simp add: key_value_prefix dec_isdigit dec_value_dec)

lemma GetKey_run:
  assumes "holds str cur (k @ [CR, LF])" and "cur + int (length k) + 2 \<le> len" and "k \<noteq> []"
    and "ky_len r = int (length k)" and "ky_offset r = 0"
  shows "GetKey str len cur r = Some (cur + int (length k) + 2,
    key_done (r\<lparr>ky_offset := int (length k), ky := key_value (ky r) k\<rparr>))"
proof -
  have h: "key_loop (length k) str cur (ky r) = key_value (ky r) k" "holds str (cur + int (length k)) [CR, LF]"
    using assms(1) by (simp_all add: holds_append key_loop_run)
  show ?thesis using h(1) assms(2-5) line_end_run [OF h(2), of len]
    by (simp add: GetKey_def Let_def)
qed

lemma GetValue_run:
  assumes "holds str cur (v @ [CR, LF])" and "cur + int (length v) + 2 \<le> len"
    and "va_len r = int (length v)" and "va_offset r = 0" and "int (length v) \<le> value_cap e"
  shows "GetValue e str len cur r = Some (cur + int (length v) + 2,
    value_done (r\<lparr>va := poke (va r) 0 v, va_offset := int (length v)\<rparr>))"
proof -
  note h = holds_data [OF assms(1)]
  have same: "r\<lparr>va_offset := 0\<rparr> = r" using assms(4) by (cases r) simp
  show ?thesis using h assms(2-5) line_end_run [OF h(2), of len]
    by (cases "v = []") (simp_all add: GetValue_def Let_def same)
qed

section \<open>Whole commands\<close>

lemma stage_go: "run \<Longrightarrow> f cur r = Some (c1, r1) \<Longrightarrow> 0 \<le> c1 \<Longrightarrow> stage run f cur r out k = k c1 r1"
  by (simp add: stage_def)

text \<open>A new request, with all fields zero.\<close>

definition blank :: "creq \<Rightarrow> bool" where
  "blank r \<longleftrightarrow> kw_valid r = 0 \<and> keywordNum r = 0 \<and> ty_valid r = 0 \<and> ty_len r = 0 \<and> ty_offset r = 0 \<and>
     type_str r 3 = NUL \<and> ty r = 0 \<and> ky_valid r = 0 \<and> ky_len r = 0 \<and> ky_offset r = 0 \<and> ky r = 0 \<and>
     va_valid r = 0 \<and> va_len r = 0 \<and> va_offset r = 0"

definition key_blank :: "creq \<Rightarrow> bool" where
  "key_blank r \<longleftrightarrow> ky_valid r = 0 \<and> ky_len r = 0 \<and> ky_offset r = 0 \<and> ky r = 0"

definition value_blank :: "creq \<Rightarrow> bool" where
  "value_blank r \<longleftrightarrow> va_valid r = 0 \<and> va_len r = 0 \<and> va_offset r = 0"

definition type_code :: "byte list \<Rightarrow> int" where
  "type_code name = (if name = ''SET'' then 1 else if name = ''GET'' then 2 else if name = ''DEL'' then 3 else 0)"

lemma add_length_zero:
  "is_int n \<Longrightarrow> keywordNum r = 0 \<Longrightarrow> add_length 1 n r = Some (r\<lparr>keywordNum := n\<rparr>)"
  "is_int n \<Longrightarrow> ty_len r = 0 \<Longrightarrow> add_length 2 n r = Some (r\<lparr>ty_len := n\<rparr>)"
  "is_int n \<Longrightarrow> ky_len r = 0 \<Longrightarrow> add_length 3 n r = Some (r\<lparr>ky_len := n\<rparr>)"
  "is_int n \<Longrightarrow> va_len r = 0 \<Longrightarrow> add_length 4 n r = Some (r\<lparr>va_len := n\<rparr>)"
  by (simp_all add: add_length_def times_ten_plus_def is_int_def INT_MIN_def INT_MAX_def)

lemma head_run:
  assumes r: "blank r" and name: "name \<in> {''SET'', ''GET'', ''DEL''}" and cap: "4 \<le> type_cap e"
    and h: "holds str cur (CHR ''*'' # dec m @ [CR, LF] @ resp_bulk name)" and m: "int m + 48 \<le> INT_MAX"
    and lim: "0 \<le> cur" "cur + int (length (dec m)) + 3 + int (length (resp_bulk name)) \<le> len"
  shows "\<exists>r'. (\<forall>k. stage (kw_valid r = 0) (\<lambda>c r. GetLength str (CHR ''*'') len c r 1) cur r [] (\<lambda>cur r.
       stage (ty_valid r = 0) (\<lambda>c r. GetLength str (CHR ''$'') len c r 2) cur r [] (\<lambda>cur r.
       stage (ty_valid r = 1) (GetType e str len) cur r [] k)) =
      k (cur + int (length (dec m)) + 3 + int (length (resp_bulk name))) r') \<and>
    cfd r' = cfd r \<and> ty r' = type_code name \<and> key_blank r' \<and> value_blank r' \<and>
    kw_valid r' = 1 \<and> ty_valid r' = 2"
proof -
  have three: "length name = 3" using name by auto
  let ?c1 = "cur + int (length (dec m)) + 3"
  let ?c2 = "?c1 + int (length (dec (length name))) + 3"
  have h1: "holds str cur (CHR ''*'' # dec m @ [CR, LF])"
    and h2: "holds str ?c1 (CHR ''$'' # dec (length name) @ [CR, LF])"
    and h3: "holds str ?c2 (name @ [CR, LF])"
    using h by (simp_all add: resp_bulk_def holds_append algebra_simps)
  let ?r1 = "add_valid 1 (r\<lparr>keywordNum := int m\<rparr>)"
  let ?r2 = "add_valid 2 (?r1\<lparr>ty_len := 3\<rparr>)"
  have m': "is_int (int m)" using m by (simp add: is_int_def INT_MIN_def)
  have g1: "GetLength str (CHR ''*'') len cur r 1 = Some (?c1, ?r1)"
    by (rule GetLength_run [OF h1 _ _ m]) (use lim m' r in \<open>simp_all add: add_length_zero blank_def\<close>)
  have l: "add_length 2 (int (length name)) ?r1 = Some (?r1\<lparr>ty_len := 3\<rparr>)"
    using r three by (subst add_length_zero) (simp_all add: is_int_def INT_MIN_def INT_MAX_def blank_def add_valid_def)
  have g2: "GetLength str (CHR ''$'') len ?c1 ?r1 2 = Some (?c2, ?r2)"
    by (rule GetLength_run [OF h2 _ _ _ l]) (use lim three in \<open>simp_all add: INT_MAX_def length_resp_bulk\<close>)
  let ?r3 = "type_done (?r2\<lparr>type_str := poke (type_str ?r2) 0 name, ty_offset := int (length name)\<rparr>)"
  have g3: "GetType e str len ?c2 ?r2 = Some (?c2 + int (length name) + 2, ?r3)"
    by (rule GetType_run [OF h3])
      (use lim three r cap in \<open>auto simp: length_resp_bulk blank_def add_valid_def\<close>)
  have c: "?c2 + int (length name) + 2 = ?c1 + int (length (resp_bulk name))"
    by (simp add: length_resp_bulk)
  have "\<forall>k. stage (kw_valid r = 0) (\<lambda>c r. GetLength str (CHR ''*'') len c r 1) cur r [] (\<lambda>cur r.
       stage (ty_valid r = 0) (\<lambda>c r. GetLength str (CHR ''$'') len c r 2) cur r [] (\<lambda>cur r.
       stage (ty_valid r = 1) (GetType e str len) cur r [] k)) = k (?c1 + int (length (resp_bulk name))) ?r3"
  proof
    fix k
    have "kw_valid r = 0" "ty_valid ?r1 = 0" "ty_valid ?r2 = 1" "?c1 \<noteq> - 1" "?c2 \<noteq> - 1"
      "?c2 + int (length name) + 2 \<noteq> - 1"
      using r lim by (simp_all add: blank_def add_valid_def)
    then show "stage (kw_valid r = 0) (\<lambda>c r. GetLength str (CHR ''*'') len c r 1) cur r [] (\<lambda>cur r.
       stage (ty_valid r = 0) (\<lambda>c r. GetLength str (CHR ''$'') len c r 2) cur r [] (\<lambda>cur r.
       stage (ty_valid r = 1) (GetType e str len) cur r [] k)) = k (?c1 + int (length (resp_bulk name))) ?r3"
      unfolding c [symmetric] by (simp only: stage_def g1 g2 g3 option.case prod.case simp_thms if_False if_True)
  qed
  moreover have "cfd ?r3 = cfd r \<and> ty ?r3 = type_code name \<and> key_blank ?r3 \<and> value_blank ?r3 \<and>
      kw_valid ?r3 = 1 \<and> ty_valid ?r3 = 2"
    using name r by (auto simp: type_done_def type_code_def add_valid_def blank_def key_blank_def value_blank_def Let_def numeral_eq_Suc)
  ultimately show ?thesis by blast
qed

lemma key_run:
  assumes r: "key_blank r" and h: "holds str cur (resp_bulk key)" and key: "key \<noteq> []" "int (length key) + 48 \<le> INT_MAX"
    and lim: "0 \<le> cur" "cur + int (length (resp_bulk key)) \<le> len"
  shows "\<exists>r'. (\<forall>k out. stage (ky_valid r = 0) (\<lambda>c r. GetLength str (CHR ''$'') len c r 3) cur r out (\<lambda>cur r.
       stage (ky_valid r = 1) (GetKey str len) cur r out k) = k (cur + int (length (resp_bulk key))) r') \<and>
    cfd r' = cfd r \<and> ty r' = ty r \<and> ky r' = key_value 0 key \<and> value_blank r' = value_blank r \<and>
    kw_valid r' = kw_valid r \<and> ty_valid r' = ty_valid r \<and> ky_valid r' = 2"
proof -
  let ?c1 = "cur + int (length (dec (length key))) + 3"
  have h1: "holds str cur (CHR ''$'' # dec (length key) @ [CR, LF])" and h2: "holds str ?c1 (key @ [CR, LF])"
    using h by (simp_all add: resp_bulk_def holds_append algebra_simps)
  let ?r1 = "add_valid 3 (r\<lparr>ky_len := int (length key)\<rparr>)"
  have l: "add_length 3 (int (length key)) r = Some (r\<lparr>ky_len := int (length key)\<rparr>)"
    using r key by (intro add_length_zero) (simp_all add: key_blank_def is_int_def INT_MIN_def)
  have g1: "GetLength str (CHR ''$'') len cur r 3 = Some (?c1, ?r1)"
    by (rule GetLength_run [OF h1 _ _ _ l]) (use lim key in \<open>simp_all add: length_resp_bulk\<close>)
  let ?r2 = "key_done (?r1\<lparr>ky_offset := int (length key), ky := key_value (ky ?r1) key\<rparr>)"
  have g2: "GetKey str len ?c1 ?r1 = Some (?c1 + int (length key) + 2, ?r2)"
    by (rule GetKey_run [OF h2]) (use lim key r in \<open>simp_all add: length_resp_bulk add_valid_def key_blank_def\<close>)
  have c: "?c1 + int (length key) + 2 = cur + int (length (resp_bulk key))" by (simp add: length_resp_bulk)
  have "ky_valid r = 0" "ky_valid ?r1 = 1" "?c1 \<noteq> - 1" "?c1 + int (length key) + 2 \<noteq> - 1"
    using r lim by (simp_all add: key_blank_def add_valid_def)
  then have "\<forall>k out. stage (ky_valid r = 0) (\<lambda>c r. GetLength str (CHR ''$'') len c r 3) cur r out (\<lambda>cur r.
       stage (ky_valid r = 1) (GetKey str len) cur r out k) = k (cur + int (length (resp_bulk key))) ?r2"
    unfolding c [symmetric]
    by (simp only: stage_def g1 g2 option.case prod.case simp_thms if_False if_True)
  moreover have "cfd ?r2 = cfd r \<and> ty ?r2 = ty r \<and> ky ?r2 = key_value 0 key \<and> value_blank ?r2 = value_blank r \<and>
      kw_valid ?r2 = kw_valid r \<and> ty_valid ?r2 = ty_valid r \<and> ky_valid ?r2 = 2"
    using r by (simp add: key_done_def add_valid_def key_blank_def value_blank_def)
  ultimately show ?thesis by blast
qed

lemma value_run:
  assumes r: "value_blank r" and h: "holds str cur (resp_bulk v)"
    and v: "int (length v) \<le> value_cap e" "int (length v) + 48 \<le> INT_MAX"
    and lim: "0 \<le> cur" "cur + int (length (resp_bulk v)) \<le> len"
  shows "\<exists>r'. (\<forall>k out. stage (va_valid r = 0) (\<lambda>c r. GetLength str (CHR ''$'') len c r 4) cur r out (\<lambda>cur r.
       stage (va_valid r = 1) (GetValue e str len) cur r out k) = k (cur + int (length (resp_bulk v))) r') \<and>
    cfd r' = cfd r \<and> ty r' = ty r \<and> ky r' = ky r \<and> va_len r' = int (length v) \<and> peek (va r') 0 (length v) = v"
proof -
  let ?c1 = "cur + int (length (dec (length v))) + 3"
  have h1: "holds str cur (CHR ''$'' # dec (length v) @ [CR, LF])" and h2: "holds str ?c1 (v @ [CR, LF])"
    using h by (simp_all add: resp_bulk_def holds_append algebra_simps)
  let ?r1 = "add_valid 4 (r\<lparr>va_len := int (length v)\<rparr>)"
  have l: "add_length 4 (int (length v)) r = Some (r\<lparr>va_len := int (length v)\<rparr>)"
    using r v by (intro add_length_zero) (simp_all add: value_blank_def is_int_def INT_MIN_def)
  have g1: "GetLength str (CHR ''$'') len cur r 4 = Some (?c1, ?r1)"
    by (rule GetLength_run [OF h1 _ _ _ l]) (use lim v in \<open>simp_all add: length_resp_bulk\<close>)
  let ?r2 = "value_done (?r1\<lparr>va := poke (va ?r1) 0 v, va_offset := int (length v)\<rparr>)"
  have g2: "GetValue e str len ?c1 ?r1 = Some (?c1 + int (length v) + 2, ?r2)"
    by (rule GetValue_run [OF h2]) (use lim v r in \<open>simp_all add: length_resp_bulk add_valid_def value_blank_def\<close>)
  have c: "?c1 + int (length v) + 2 = cur + int (length (resp_bulk v))" by (simp add: length_resp_bulk)
  have "va_valid r = 0" "va_valid ?r1 = 1" "?c1 \<noteq> - 1" "?c1 + int (length v) + 2 \<noteq> - 1"
    using r lim by (simp_all add: value_blank_def add_valid_def)
  then have "\<forall>k out. stage (va_valid r = 0) (\<lambda>c r. GetLength str (CHR ''$'') len c r 4) cur r out (\<lambda>cur r.
       stage (va_valid r = 1) (GetValue e str len) cur r out k) = k (cur + int (length (resp_bulk v))) ?r2"
    unfolding c [symmetric]
    by (simp only: stage_def g1 g2 option.case prod.case simp_thms if_False if_True)
  moreover have "cfd ?r2 = cfd r \<and> ty ?r2 = ty r \<and> ky ?r2 = ky r \<and> va_len ?r2 = int (length v) \<and>
      peek (va ?r2) 0 (length v) = v"
    by (simp add: value_done_def add_valid_def peek_poke_same)
  ultimately show ?thesis by blast
qed

text \<open>Commands as the clients send them; the key is a prefix without digits and a number.\<close>

datatype ccmd = CSet "byte list" nat "byte list" | CGet "byte list" nat | CDel "byte list" nat

fun encode :: "ccmd \<Rightarrow> byte list" where
  "encode (CSet pre n v) = resp_command [''SET'', pre @ dec n, v]"
| "encode (CGet pre n) = resp_command [''GET'', pre @ dec n]"
| "encode (CDel pre n) = resp_command [''DEL'', pre @ dec n]"

fun cmd_ok :: "cenv \<Rightarrow> ccmd \<Rightarrow> bool" where
  "cmd_ok e (CSet pre n v) \<longleftrightarrow> (\<forall>c \<in> set pre. \<not> isdigit c) \<and> int n < 18446744073709551615 \<and>
     int (length (pre @ dec n)) + 48 \<le> INT_MAX \<and> int (length v) + 48 \<le> INT_MAX \<and> int (length v) \<le> value_cap e"
| "cmd_ok e (CGet pre n) \<longleftrightarrow> (\<forall>c \<in> set pre. \<not> isdigit c) \<and> int n < 18446744073709551615 \<and>
     int (length (pre @ dec n)) + 48 \<le> INT_MAX"
| "cmd_ok e (CDel pre n) \<longleftrightarrow> (\<forall>c \<in> set pre. \<not> isdigit c) \<and> int n < 18446744073709551615 \<and>
     int (length (pre @ dec n)) + 48 \<le> INT_MAX"

text \<open>What is observed of an event: the reply, or the request's type, key and value.\<close>

fun observed :: "cevent \<Rightarrow> (int \<times> byte list) + (int \<times> int \<times> int \<times> byte list)" where
  "observed (CReply f bs) = Inl (f, bs)"
| "observed (CMake r) = Inr (cfd r, ty r, ky r, if ty r = 1 then peek (va r) 0 (nat (va_len r)) else [])"

fun effects :: "bool \<Rightarrow> int \<Rightarrow> ccmd \<Rightarrow> ((int \<times> byte list) + (int \<times> int \<times> int \<times> byte list)) list" where
  "effects replies f (CSet pre n v) =
     (if replies then [Inl (f, ''+OK'' @ [CR, LF])] else []) @ [Inr (f, 1, int n + 1, v)]"
| "effects replies f (CGet pre n) = [Inr (f, 2, int n + 1, [])]"
| "effects replies f (CDel pre n) = [Inr (f, 3, int n + 1, [])]"

text \<open>Up to the key: what the rest of a pass works on.\<close>

definition submit_part :: "bool \<Rightarrow> cenv \<Rightarrow> mem \<Rightarrow> int \<Rightarrow> cevent list \<Rightarrow> int \<Rightarrow> creq \<Rightarrow> pass" where
  "submit_part replies e str len out cur r =
     (let r1 = r\<lparr>ky := to_uint64 (ky r + 1)\<rparr>; r2 = (if ty r1 < 3 then dma e r1 else r1) in
      if ty r2 > 1 then Made cur (out @ [CMake r2])
      else
      stage (va_valid r2 = 0) (\<lambda>c r. GetLength str (CHR ''$'') len c r 4) cur r2 out (\<lambda>cur r.
      stage (va_valid r = 1) (GetValue e str len) cur r out (\<lambda>cur r.
      Made cur (out @ [CMake r]))))"

definition reply_part :: "bool \<Rightarrow> creq \<Rightarrow> cevent list" where
  "reply_part replies r = (if replies \<and> ty r = 1 then [CReply (cfd r) (''+OK'' @ [CR, LF])] else [])"

lemma request_pass_parts:
  "request_pass replies e str len cur r =
     stage (kw_valid r = 0) (\<lambda>c r. GetLength str (CHR ''*'') len c r 1) cur r [] (\<lambda>cur r.
     stage (ty_valid r = 0) (\<lambda>c r. GetLength str (CHR ''$'') len c r 2) cur r [] (\<lambda>cur r.
     stage (ty_valid r = 1) (GetType e str len) cur r [] (\<lambda>cur r.
     stage (ky_valid r = 0) (\<lambda>c r. GetLength str (CHR ''$'') len c r 3) cur r (reply_part replies r) (\<lambda>cur r'.
     stage (ky_valid r' = 1) (GetKey str len) cur r' (reply_part replies r)
       (submit_part replies e str len (reply_part replies r))))))"
  unfolding request_pass_def reply_part_def submit_part_def by (simp add: Let_def)

lemma front_run:
  assumes r: "blank r" and name: "name \<in> {''SET'', ''GET'', ''DEL''}" and cap: "4 \<le> type_cap e"
    and key: "\<forall>c \<in> set pre. \<not> isdigit c" "int n < 18446744073709551615" "int (length (pre @ dec n)) + 48 \<le> INT_MAX"
    and h: "holds str cur (CHR ''*'' # dec m @ [CR, LF] @ resp_bulk name @ resp_bulk (pre @ dec n))"
    and m: "int m + 48 \<le> INT_MAX"
    and lim: "0 \<le> cur" "cur + int (length (dec m)) + 3 + int (length (resp_bulk name)) +
      int (length (resp_bulk (pre @ dec n))) \<le> len"
  shows "\<exists>r'. request_pass replies e str len cur r =
      submit_part replies e str len (if replies \<and> type_code name = 1 then [CReply (cfd r) (''+OK'' @ [CR, LF])] else [])
        (cur + int (length (dec m)) + 3 + int (length (resp_bulk name)) + int (length (resp_bulk (pre @ dec n)))) r' \<and>
    cfd r' = cfd r \<and> ty r' = type_code name \<and> ky r' = int n \<and> value_blank r' \<and>
    kw_valid r' = 1 \<and> ty_valid r' = 2 \<and> ky_valid r' = 2"
proof -
  let ?c = "cur + int (length (dec m)) + 3 + int (length (resp_bulk name))"
  have h1: "holds str cur (CHR ''*'' # dec m @ [CR, LF] @ resp_bulk name)" and h2: "holds str ?c (resp_bulk (pre @ dec n))"
    using h by (simp_all add: holds_append algebra_simps)
  obtain r1 where r1: "\<And>k. stage (kw_valid r = 0) (\<lambda>c r. GetLength str (CHR ''*'') len c r 1) cur r [] (\<lambda>cur r.
       stage (ty_valid r = 0) (\<lambda>c r. GetLength str (CHR ''$'') len c r 2) cur r [] (\<lambda>cur r.
       stage (ty_valid r = 1) (GetType e str len) cur r [] k)) = k ?c r1"
    and f1: "cfd r1 = cfd r" "ty r1 = type_code name" "key_blank r1" "value_blank r1" "kw_valid r1 = 1" "ty_valid r1 = 2"
    using head_run [OF r name cap h1 m lim(1), of len] lim(2) by auto
  have c0: "0 \<le> ?c" using lim(1) by simp
  obtain r2 where r2: "\<And>k out. stage (ky_valid r1 = 0) (\<lambda>c r. GetLength str (CHR ''$'') len c r 3) ?c r1 out (\<lambda>cur r.
       stage (ky_valid r = 1) (GetKey str len) cur r out k) = k (?c + int (length (resp_bulk (pre @ dec n)))) r2"
    and f2: "cfd r2 = cfd r1" "ty r2 = ty r1" "ky r2 = key_value 0 (pre @ dec n)" "value_blank r2 = value_blank r1"
      "kw_valid r2 = kw_valid r1" "ty_valid r2 = ty_valid r1" "ky_valid r2 = 2"
    using key_run [OF f1(3) h2 _ key(3) c0 lim(2)] by auto
  have "request_pass replies e str len cur r =
      submit_part replies e str len (reply_part replies r1) (?c + int (length (resp_bulk (pre @ dec n)))) r2"
    unfolding request_pass_parts r1 r2 ..
  moreover have "reply_part replies r1 = (if replies \<and> type_code name = 1 then [CReply (cfd r) (''+OK'' @ [CR, LF])] else [])"
    using f1 by (simp add: reply_part_def)
  moreover have "ky r2 = int n" using f2(3) key_value_dec [OF key(1)] key(2) by simp
  ultimately show ?thesis using f1 f2 by auto
qed

lemma pass_run:
  assumes r: "blank r" and ok: "cmd_ok e cmd" and cap: "4 \<le> type_cap e"
    and dma: "\<And>r. \<exists>m. dma e r = r\<lparr>va := m\<rparr>"
    and h: "holds str cur (encode cmd)" and lim: "0 \<le> cur" "cur + int (length (encode cmd)) \<le> len"
  shows "\<exists>evs. request_pass replies e str len cur r = Made (cur + int (length (encode cmd))) evs \<and>
    map observed evs = effects replies (cfd r) cmd"
proof (cases cmd)
  case (CSet pre n v)
  let ?n = "int (length (dec 3)) + 3 + int (length (resp_bulk ''SET''))" and ?k = "int (length (resp_bulk (pre @ dec n)))"
  have h1: "holds str cur (CHR ''*'' # dec 3 @ [CR, LF] @ resp_bulk ''SET'' @ resp_bulk (pre @ dec n))"
    and h2: "holds str (cur + ?n + ?k) (resp_bulk v)"
    using h CSet by (simp_all add: resp_command_def numeral_3_eq_3 holds_append algebra_simps)
  have len: "int (length (encode cmd)) = ?n + ?k + int (length (resp_bulk v))"
    using CSet by (simp add: resp_command_def numeral_3_eq_3)
  obtain r1 where r1: "request_pass replies e str len cur r =
      submit_part replies e str len (if replies then [CReply (cfd r) (''+OK'' @ [CR, LF])] else []) (cur + ?n + ?k) r1"
    and f1: "cfd r1 = cfd r" "ty r1 = 1" "ky r1 = int n" "value_blank r1"
    using front_run [OF r _ cap _ _ _ h1, of len replies] ok CSet lim len by (auto simp: type_code_def INT_MAX_def add.assoc)
  let ?r2 = "r1\<lparr>ky := to_uint64 (int n + 1)\<rparr>"
  obtain m where m: "dma e ?r2 = ?r2\<lparr>va := m\<rparr>" using dma by blast
  have b: "value_blank (?r2\<lparr>va := m\<rparr>)" using f1 by (simp add: value_blank_def)
  obtain r3 where r3: "\<And>k out. stage (va_valid (?r2\<lparr>va := m\<rparr>) = 0) (\<lambda>c r. GetLength str (CHR ''$'') len c r 4)
       (cur + ?n + ?k) (?r2\<lparr>va := m\<rparr>) out (\<lambda>cur r.
       stage (va_valid r = 1) (GetValue e str len) cur r out k) = k (cur + ?n + ?k + int (length (resp_bulk v))) r3"
    and f3: "cfd r3 = cfd r1" "ty r3 = 1" "ky r3 = to_uint64 (int n + 1)" "va_len r3 = int (length v)" "peek (va r3) 0 (length v) = v"
    using value_run [OF b h2, of e len] ok CSet lim len f1 by auto
  have "submit_part replies e str len out (cur + ?n + ?k) r1 =
      Made (cur + ?n + ?k + int (length (resp_bulk v))) (out @ [CMake r3])" for out
    using r3 f1 unfolding submit_part_def Let_def by (simp add: m)
  moreover have "to_uint64 (int n + 1) = int n + 1" using ok CSet by (simp add: to_uint64_id)
  ultimately show ?thesis unfolding r1 len using f1 f3 CSet by (auto simp: add.assoc)
next
  case (CGet pre n)
  let ?n = "int (length (dec 2)) + 3 + int (length (resp_bulk ''GET''))" and ?k = "int (length (resp_bulk (pre @ dec n)))"
  have h1: "holds str cur (CHR ''*'' # dec 2 @ [CR, LF] @ resp_bulk ''GET'' @ resp_bulk (pre @ dec n))"
    using h CGet by (simp add: resp_command_def numeral_2_eq_2)
  have len: "int (length (encode cmd)) = ?n + ?k" using CGet by (simp add: resp_command_def numeral_2_eq_2)
  obtain r1 where r1: "request_pass replies e str len cur r = submit_part replies e str len [] (cur + ?n + ?k) r1"
    and f1: "cfd r1 = cfd r" "ty r1 = 2" "ky r1 = int n" "value_blank r1"
    using front_run [OF r _ cap _ _ _ h1, of len replies] ok CGet lim len by (auto simp: type_code_def INT_MAX_def add.assoc)
  obtain m where m: "dma e (r1\<lparr>ky := to_uint64 (int n + 1)\<rparr>) = r1\<lparr>ky := to_uint64 (int n + 1), va := m\<rparr>"
    using dma by fastforce
  have "to_uint64 (int n + 1) = int n + 1" using ok CGet by (simp add: to_uint64_id)
  then show ?thesis unfolding r1 len submit_part_def Let_def using f1 m CGet by (simp add: add.assoc)
next
  case (CDel pre n)
  let ?n = "int (length (dec 2)) + 3 + int (length (resp_bulk ''DEL''))" and ?k = "int (length (resp_bulk (pre @ dec n)))"
  have h1: "holds str cur (CHR ''*'' # dec 2 @ [CR, LF] @ resp_bulk ''DEL'' @ resp_bulk (pre @ dec n))"
    using h CDel by (simp add: resp_command_def numeral_2_eq_2)
  have len: "int (length (encode cmd)) = ?n + ?k" using CDel by (simp add: resp_command_def numeral_2_eq_2)
  obtain r1 where r1: "request_pass replies e str len cur r = submit_part replies e str len [] (cur + ?n + ?k) r1"
    and f1: "cfd r1 = cfd r" "ty r1 = 3" "ky r1 = int n" "value_blank r1"
    using front_run [OF r _ cap _ _ _ h1, of len replies] ok CDel lim len by (auto simp: type_code_def INT_MAX_def add.assoc)
  have "to_uint64 (int n + 1) = int n + 1" using ok CDel by (simp add: to_uint64_id)
  then show ?thesis unfolding r1 len submit_part_def Let_def using f1 CDel by (simp add: add.assoc)
qed

lemma encode_nonempty: "encode cmd \<noteq> []"
  by (cases cmd) (simp_all add: resp_command_def)

lemma loop_run:
  assumes fresh: "blank ((fresh_req e)\<lparr>cfd := f\<rparr>)" and cap: "4 \<le> type_cap e"
    and dma: "\<And>r. \<exists>m. dma e r = r\<lparr>va := m\<rparr>"
  shows "list_all (cmd_ok e) cmds \<Longrightarrow> holds str cur (concat (map encode cmds)) \<Longrightarrow> 0 \<le> cur \<Longrightarrow>
    len = cur + int (length (concat (map encode cmds))) \<Longrightarrow> length cmds < n \<Longrightarrow>
    \<exists>evs. request_loop n replies e f str len cur None = Ret (None, evs) \<and>
      map observed evs = concat (map (effects replies f) cmds)"
proof (induction cmds arbitrary: cur n)
  case Nil
  then show ?case by (cases n) simp_all
next
  case (Cons cmd cmds)
  then obtain n' where n: "n = Suc n'" by (cases n) auto
  have h: "holds str cur (encode cmd)" "holds str (cur + int (length (encode cmd))) (concat (map encode cmds))"
    using Cons.prems(2) by (simp_all add: holds_append)
  have ok: "cmd_ok e cmd" and lim: "cur + int (length (encode cmd)) \<le> len" using Cons.prems by simp_all
  obtain evs where evs: "request_pass replies e str len cur ((fresh_req e)\<lparr>cfd := f\<rparr>) =
      Made (cur + int (length (encode cmd))) evs" "map observed evs = effects replies f cmd"
    using pass_run [OF fresh ok cap dma h(1) Cons.prems(3) lim] by auto
  obtain evs' where evs': "request_loop n' replies e f str len (cur + int (length (encode cmd))) None = Ret (None, evs')"
    "map observed evs' = concat (map (effects replies f) cmds)"
    using Cons.IH [of "cur + int (length (encode cmd))" n'] Cons.prems h(2) n by auto
  have "0 < length (encode cmd)" using encode_nonempty by simp
  moreover have "len = cur + int (length (encode cmd)) + int (length (concat (map encode cmds)))"
    using Cons.prems(4) by simp
  ultimately have "cur < len" by linarith
  then show ?case using evs evs' n by simp
qed

lemma commands_length: "length cmds \<le> length (concat (map encode cmds))"
proof (induction cmds)
  case (Cons cmd cmds)
  then show ?case using encode_nonempty [of cmd] by (cases "encode cmd") simp_all
qed simp

section \<open>A value that arrives in two pieces\<close>

lemma GetValue_part:
  assumes "holds str cur v1" and "cur + int (length v1) = len" and "va_len r = va_offset r + int (length v1) + left"
    and "0 < left" and "0 \<le> va_offset r" and "va_offset r + int (length v1) \<le> value_cap e"
  shows "GetValue e str len cur r =
    Some (- 1, r\<lparr>va := poke (va r) (va_offset r) v1, va_offset := va_offset r + int (length v1)\<rparr>)"
proof -
  have p: "peek str cur (length v1) = v1" using assms(1) by (simp add: holds_peek)
  have lc: "len - cur = int (length v1)" and left: "va_len r - va_offset r = int (length v1) + left"
    using assms(2,3) by simp_all
  show ?thesis unfolding GetValue_def Let_def lc left using assms(2,4-6) p by simp
qed

lemma GetValue_rest:
  assumes "holds str cur (v2 @ [CR, LF])" and "cur + int (length v2) + 2 \<le> len"
    and "va_len r = va_offset r + int (length v2)" and "v2 \<noteq> []" and "0 \<le> va_offset r"
    and "va_offset r + int (length v2) \<le> value_cap e"
  shows "GetValue e str len cur r = Some (cur + int (length v2) + 2,
    value_done (r\<lparr>va := poke (va r) (va_offset r) v2, va_offset := va_offset r + int (length v2)\<rparr>))"
proof -
  note h = holds_data [OF assms(1)]
  show ?thesis using h(1) assms(2-6) line_end_run [OF h(2), of len]
    by (simp add: GetValue_def Let_def)
qed

text \<open>The pass that ends within the value, and the pass that gets the rest.\<close>

lemma cut_pass:
  assumes r: "blank r" and ok: "cmd_ok e (CSet pre n (v1 @ v2))" and cap: "4 \<le> type_cap e"
    and dma: "\<And>r. \<exists>m. dma e r = r\<lparr>va := m\<rparr>" and v2: "v2 \<noteq> []"
    and h: "holds str 0 (CHR ''*'' # dec 3 @ [CR, LF] @ resp_bulk ''SET'' @ resp_bulk (pre @ dec n) @
      CHR ''$'' # dec (length (v1 @ v2)) @ [CR, LF] @ v1)"
    and len: "len = int (length (CHR ''*'' # dec 3 @ [CR, LF] @ resp_bulk ''SET'' @ resp_bulk (pre @ dec n) @
      CHR ''$'' # dec (length (v1 @ v2)) @ [CR, LF] @ v1))"
  shows "\<exists>r'. request_pass True e str len 0 r = Wait r' [CReply (cfd r) (''+OK'' @ [CR, LF])] \<and>
    cfd r' = cfd r \<and> ty r' = 1 \<and> ky r' = int n + 1 \<and> kw_valid r' = 1 \<and> ty_valid r' = 2 \<and> ky_valid r' = 2 \<and>
    va_valid r' = 1 \<and> va_len r' = int (length (v1 @ v2)) \<and> va_offset r' = int (length v1) \<and>
    peek (va r') 0 (length v1) = v1"
proof -
  let ?n = "int (length (dec 3)) + 3 + int (length (resp_bulk ''SET''))" and ?k = "int (length (resp_bulk (pre @ dec n)))"
  let ?v = "v1 @ v2" and ?d = "int (length (dec (length (v1 @ v2)))) + 3"
  have h1: "holds str 0 (CHR ''*'' # dec 3 @ [CR, LF] @ resp_bulk ''SET'' @ resp_bulk (pre @ dec n))"
    and h2: "holds str (?n + ?k) (CHR ''$'' # dec (length ?v) @ [CR, LF])"
    and h3: "holds str (?n + ?k + ?d) v1"
    using h by (simp_all add: holds_append algebra_simps)
  have len': "len = ?n + ?k + ?d + int (length v1)" unfolding len by simp
  obtain r1 where r1: "request_pass True e str len 0 r =
      submit_part True e str len [CReply (cfd r) (''+OK'' @ [CR, LF])] (?n + ?k) r1"
    and f1: "cfd r1 = cfd r" "ty r1 = 1" "ky r1 = int n" "value_blank r1"
      "kw_valid r1 = 1" "ty_valid r1 = 2" "ky_valid r1 = 2"
    using front_run [OF r _ cap _ _ _ h1, of len True] ok len' by (auto simp: type_code_def INT_MAX_def)
  have n1: "to_uint64 (int n + 1) = int n + 1" using ok by (simp add: to_uint64_id)
  obtain m where m: "dma e (r1\<lparr>ky := int n + 1\<rparr>) = r1\<lparr>ky := int n + 1, va := m\<rparr>" using dma by blast
  let ?r2 = "r1\<lparr>ky := int n + 1, va := m\<rparr>"
  let ?r3 = "add_valid 4 (?r2\<lparr>va_len := int (length ?v)\<rparr>)"
  have l: "add_length 4 (int (length ?v)) ?r2 = Some (?r2\<lparr>va_len := int (length ?v)\<rparr>)"
    using f1 ok by (intro add_length_zero) (simp_all add: value_blank_def is_int_def INT_MIN_def)
  have g1: "GetLength str (CHR ''$'') len (?n + ?k) ?r2 4 = Some (?n + ?k + int (length (dec (length ?v))) + 3, ?r3)"
    by (rule GetLength_run [OF h2 _ _ _ l]) (use len' ok in simp_all)
  let ?r4 = "?r3\<lparr>va := poke (va ?r3) (va_offset ?r3) v1, va_offset := va_offset ?r3 + int (length v1)\<rparr>"
  have g2: "GetValue e str len (?n + ?k + int (length (dec (length ?v))) + 3) ?r3 = Some (- 1, ?r4)"
    by (rule GetValue_part [where left = "int (length v2)"])
      (use h3 len' v2 f1 ok in \<open>simp_all add: add.assoc add_valid_def value_blank_def\<close>)
  have "va_valid ?r2 = 0" "va_valid ?r3 = 1" "?n + ?k + int (length (dec (length ?v))) + 3 \<noteq> - 1"
    using f1 by (simp_all add: add_valid_def value_blank_def)
  then have "submit_part True e str len out (?n + ?k) r1 = Wait ?r4 out" for out
    unfolding submit_part_def Let_def
    using f1 n1 m g1 g2 by (simp add: stage_def)
  moreover have "cfd ?r4 = cfd r \<and> ty ?r4 = 1 \<and> ky ?r4 = int n + 1 \<and> kw_valid ?r4 = 1 \<and> ty_valid ?r4 = 2 \<and>
    ky_valid ?r4 = 2 \<and> va_valid ?r4 = 1 \<and> va_len ?r4 = int (length ?v) \<and> va_offset ?r4 = int (length v1) \<and>
    peek (va ?r4) 0 (length v1) = v1"
    using f1 by (simp add: add_valid_def value_blank_def peek_poke_same)
  ultimately show ?thesis unfolding r1 by blast
qed

lemma rest_pass:
  assumes r: "ty r = 1" "kw_valid r = 1" "ty_valid r = 2" "ky_valid r = 2" "va_valid r = 1"
      "va_len r = int (length (v1 @ v2))" "va_offset r = int (length v1)"
    and ky: "0 \<le> ky r" "ky r < 18446744073709551615" and cap: "int (length (v1 @ v2)) \<le> value_cap e" and v2: "v2 \<noteq> []"
    and dma: "dma e = (\<lambda>r. r\<lparr>va := m\<rparr>)"
    and h: "holds str 0 (v2 @ [CR, LF])" and len: "len = int (length v2) + 2"
  shows "\<exists>r'. request_pass True e str len 0 r = Made len [CReply (cfd r) (''+OK'' @ [CR, LF]), CMake r'] \<and>
    observed (CMake r') = Inr (cfd r, 1, ky r + 1, peek m 0 (length v1) @ v2)"
proof -
  let ?r1 = "r\<lparr>ky := ky r + 1, va := m\<rparr>"
  let ?r2 = "value_done (?r1\<lparr>va := poke (va ?r1) (va_offset ?r1) v2, va_offset := va_offset ?r1 + int (length v2)\<rparr>)"
  have g: "GetValue e str len 0 ?r1 = Some (0 + int (length v2) + 2, ?r2)"
    by (rule GetValue_rest [OF h]) (use r cap v2 len in simp_all)
  have k1: "to_uint64 (ky r + 1) = ky r + 1" using ky by (simp add: to_uint64_id)
  have "request_pass True e str len 0 r = Made len [CReply (cfd r) (''+OK'' @ [CR, LF]), CMake ?r2]"
    unfolding request_pass_def Let_def using r g k1 len by (simp add: stage_def dma)
  moreover have "peek (poke m (int (length v1)) v2) 0 (length v1 + length v2) = peek m 0 (length v1) @ v2"
    unfolding peek_append using peek_poke_same [of m "int (length v1)" v2] by (simp add: peek_poke_before)
  then have "observed (CMake ?r2) = Inr (cfd r, 1, ky r + 1, peek m 0 (length v1) @ v2)"
    using r by (simp add: value_done_def nat_add_distrib)
  ultimately show ?thesis by blast
qed

section \<open>Properties\<close>

lemma poke_holds: "holds (poke b i xs) i xs"
  by (simp add: holds_peek peek_poke_same)

text \<open>
  C9: of a buffer of complete commands, \<open>GetRequest\<close> replies to every \<open>SET\<close> and submits every
  request once and in order, with its type, the number of its key plus one, and its value; nothing
  is left over. \<open>master_GetRequest\<close> does the same without replying.
\<close>

theorem GetRequest_roundtrip:
  assumes "blank ((fresh_req e)\<lparr>cfd := f\<rparr>)" and "4 \<le> type_cap e" and "\<And>r. \<exists>m. dma e r = r\<lparr>va := m\<rparr>"
    and "list_all (cmd_ok e) cmds"
  shows "(\<exists>evs. GetRequest e f (poke b 0 (concat (map encode cmds))) (int (length (concat (map encode cmds)))) None =
      Ret (None, evs) \<and> map observed evs = concat (map (effects True f) cmds)) \<and>
    (\<exists>evs. master_GetRequest e f (poke b 0 (concat (map encode cmds))) (int (length (concat (map encode cmds)))) None =
      Ret (None, evs) \<and> map observed evs = concat (map (effects False f) cmds))"
proof -
  let ?txt = "concat (map encode cmds)"
  have len: "int (length ?txt) = 0 + int (length ?txt)" and n: "length cmds < nat (int (length ?txt)) + 2"
    using commands_length [of cmds] by simp_all
  have "\<exists>evs. request_loop (nat (int (length ?txt)) + 2) replies e f (poke b 0 ?txt) (int (length ?txt)) 0 None =
      Ret (None, evs) \<and> map observed evs = concat (map (effects replies f) cmds)" for replies
    using loop_run [OF assms(1-3) assms(4) poke_holds [of b 0] order_refl len n] .
  then show ?thesis unfolding GetRequest_def master_GetRequest_def by blast
qed

definition zero_req :: creq where
  "zero_req = \<lparr>cfd = 0, addr = 0, target_fd = 0, kw_valid = 0, keywordNum = 0, ty_valid = 0, ty_len = 0,
     ty_offset = 0, type_str = (\<lambda>_. NUL), ty = 0, ky_valid = 0, ky_len = 0, ky_offset = 0, ky = 0,
     va_valid = 0, va_len = 0, va_offset = 0, va = (\<lambda>_. NUL)\<rparr>"

definition sample_cenv :: cenv where
  "sample_cenv = \<lparr>fresh_req = zero_req, dma = (\<lambda>r. r\<lparr>va := (\<lambda>_. NUL)\<rparr>), type_cap = 10, value_cap = 8192\<rparr>"

lemma sample_blank: "blank ((fresh_req sample_cenv)\<lparr>cfd := f\<rparr>)"
  by (simp add: sample_cenv_def zero_req_def blank_def)

lemma sample_ok: "cmd_ok sample_cenv (CSet ''user'' 12 ''abcd'')" "cmd_ok sample_cenv (CGet ''user'' 12)"
  by (simp_all add: sample_cenv_def isdigit_def c_char_def INT_MAX_def dec.simps)

theorem GetRequest_roundtrip_witness:
  "\<exists>evs. GetRequest sample_cenv 7
      (poke (\<lambda>_. NUL) 0 (concat (map encode [CSet ''user'' 12 ''abcd'', CGet ''user'' 12])))
      (int (length (concat (map encode [CSet ''user'' 12 ''abcd'', CGet ''user'' 12])))) None = Ret (None, evs) \<and>
    map observed evs = [Inl (7, ''+OK'' @ [CR, LF]), Inr (7, 1, 13, ''abcd''), Inr (7, 2, 13, [])]"
proof -
  have "4 \<le> type_cap sample_cenv" "\<And>r. \<exists>m. dma sample_cenv r = r\<lparr>va := m\<rparr>"
    by (auto simp: sample_cenv_def)
  from GetRequest_roundtrip [OF sample_blank this, of "[CSet ''user'' 12 ''abcd'', CGet ''user'' 12]" 7 "\<lambda>_. NUL"] sample_ok
  show ?thesis by (simp del: encode.simps)
qed

definition sample_first :: "byte list" where
  "sample_first = CHR ''*'' # dec 3 @ [CR, LF] @ resp_bulk ''SET'' @ resp_bulk (''user'' @ dec 12) @ CHR ''$'' # dec 4 @ [CR, LF] @ ''ab''"

text \<open>
  C18: a \<open>SET\<close> that arrives in two pieces, cut within its value, is answered twice and submitted with
  the wrong key, one too large, and with what the second DMA buffer held in place of the first piece.
\<close>

theorem set_value_cut:
  assumes fresh: "blank ((fresh_req e)\<lparr>cfd := f\<rparr>)" and cap: "4 \<le> type_cap e" and dma: "dma e = (\<lambda>r. r\<lparr>va := m\<rparr>)"
    and ok: "cmd_ok e (CSet pre n (v1 @ v2))" and n: "int n < 18446744073709551614" and v2: "v2 \<noteq> []"
    and cut: "encode (CSet pre n (v1 @ v2)) = first @ v2 @ [CR, LF]"
  shows "\<exists>r evs. GetRequest e f (poke b 0 first) (int (length first)) None = Ret (Some r, [CReply f (''+OK'' @ [CR, LF])]) \<and>
    GetRequest e f (poke b 0 (v2 @ [CR, LF])) (int (length (v2 @ [CR, LF]))) (Some r) = Ret (None, evs) \<and>
    map observed evs = [Inl (f, ''+OK'' @ [CR, LF]), Inr (f, 1, int n + 2, peek m 0 (length v1) @ v2)]"
proof -
  have first: "first = CHR ''*'' # dec 3 @ [CR, LF] @ resp_bulk ''SET'' @ resp_bulk (pre @ dec n) @
      CHR ''$'' # dec (length (v1 @ v2)) @ [CR, LF] @ v1"
    using cut by (simp add: resp_command_def resp_bulk_def numeral_3_eq_3)
  let ?r0 = "(fresh_req e)\<lparr>cfd := f\<rparr>"
  obtain r where r: "request_pass True e (poke b 0 first) (int (length first)) 0 ?r0 = Wait r [CReply f (''+OK'' @ [CR, LF])]"
    and fr: "cfd r = f" "ty r = 1" "ky r = int n + 1" "kw_valid r = 1" "ty_valid r = 2" "ky_valid r = 2"
      "va_valid r = 1" "va_len r = int (length (v1 @ v2))" "va_offset r = int (length v1)"
    using cut_pass [OF fresh ok cap _ v2 poke_holds [of b 0 first, unfolded first] refl, folded first] dma by auto
  have g1: "GetRequest e f (poke b 0 first) (int (length first)) None = Ret (Some r, [CReply f (''+OK'' @ [CR, LF])])"
    unfolding GetRequest_def using r by (simp add: first add_2_eq_Suc')
  let ?rest = "v2 @ [CR, LF]"
  have "\<exists>r'. request_pass True e (poke b 0 ?rest) (int (length ?rest)) 0 r =
      Made (int (length ?rest)) [CReply (cfd r) (''+OK'' @ [CR, LF]), CMake r'] \<and>
    observed (CMake r') = Inr (cfd r, 1, ky r + 1, peek m 0 (length v1) @ v2)"
    by (rule rest_pass [where ?v1.0 = v1]) (use fr n ok dma v2 in \<open>simp_all add: poke_holds\<close>)
  then obtain r' where r': "request_pass True e (poke b 0 ?rest) (int (length ?rest)) 0 r =
      Made (int (length ?rest)) [CReply f (''+OK'' @ [CR, LF]), CMake r']"
    "observed (CMake r') = Inr (f, 1, int n + 2, peek m 0 (length v1) @ v2)"
    using fr by auto
  have "GetRequest e f (poke b 0 ?rest) (int (length ?rest)) (Some r) = Ret (None, [CReply f (''+OK'' @ [CR, LF]), CMake r'])"
    unfolding GetRequest_def using r'(1) by (simp add: add_2_eq_Suc' del: length_append)
  then show ?thesis using g1 r'(2) by auto
qed

theorem set_value_cut_witness:
  "\<exists>r evs. GetRequest sample_cenv 7 (poke (\<lambda>_. NUL) 0 sample_first) (int (length sample_first)) None =
      Ret (Some r, [CReply 7 (''+OK'' @ [CR, LF])]) \<and>
    GetRequest sample_cenv 7 (poke (\<lambda>_. NUL) 0 (''cd'' @ [CR, LF])) (int (length (''cd'' @ [CR, LF]))) (Some r) = Ret (None, evs) \<and>
    map observed evs = [Inl (7, ''+OK'' @ [CR, LF]), Inr (7, 1, 14, [NUL, NUL] @ ''cd'')]"
proof -
  have "encode (CSet ''user'' 12 (''ab'' @ ''cd'')) = sample_first @ ''cd'' @ [CR, LF]"
    by (simp add: sample_first_def resp_command_def resp_bulk_def numeral_eq_Suc)
  moreover have "4 \<le> type_cap sample_cenv" "dma sample_cenv = (\<lambda>r. r\<lparr>va := (\<lambda>_. NUL)\<rparr>)"
    "cmd_ok sample_cenv (CSet ''user'' 12 (''ab'' @ ''cd''))"
    using sample_ok(1) by (simp_all add: sample_cenv_def)
  ultimately show ?thesis
    using set_value_cut [OF sample_blank, where f = 7 and m = "\<lambda>_. NUL" and pre = "''user''" and n = 12
      and ?v1.0 = "''ab''" and ?v2.0 = "''cd''" and first = sample_first and b = "\<lambda>_. NUL"]
    by (simp add: numeral_2_eq_2)
qed

end
