(* ===== verification/LengthCut.thy ===== *)
theory LengthCut
  imports CommandProps
begin

text \<open>
  A length line of \<open>command.c\<close> that arrives in two parts: \<open>GetLength\<close> multiplies the number read so far
  by ten once and adds the number of the second part, whatever its number of digits.
\<close>

definition length_of :: "int \<Rightarrow> creq \<Rightarrow> int" where
  "length_of which r = (if which = 1 then keywordNum r else if which = 2 then ty_len r
     else if which = 3 then ky_len r else va_len r)"

lemma add_length_of:
  assumes "which \<in> {1, 2, 3, 4}" and "is_int (length_of which r * 10)" and "is_int (length_of which r * 10 + d)"
  shows "\<exists>r'. add_length which d r = Some r' \<and> length_of which r' = length_of which r * 10 + d"
  using assms by (auto simp: add_length_def length_of_def times_ten_plus_def)

lemma add_valid_length [simp]: "length_of which (add_valid w r) = length_of which r"
  by (simp add: add_valid_def length_of_def)

lemma length_loop_cut:
  "holds str cur ds \<Longrightarrow> \<forall>d \<in> set ds. isdigit d \<Longrightarrow> len = cur + int (length ds) \<Longrightarrow> 0 \<le> a \<Longrightarrow>
     dec_value a ds + 48 \<le> INT_MAX \<Longrightarrow> length_loop str len cur a = Some (dec_value a ds, len)"
proof (induction ds arbitrary: cur a)
  case Nil
  then show ?case by (simp add: length_loop.simps)
next
  case (Cons d ds)
  let ?a = "a * 10 + c_char d - 48"
  have d: "48 \<le> c_char d" "c_char d \<le> 57" "str cur = d" "d \<noteq> CR"
    using Cons.prems by (auto simp: isdigit_def c_char_def)
  have le: "?a + 48 \<le> INT_MAX"
    using dec_value_ge [of ?a ds] Cons.prems(2,4,5) d by (simp add: add_diff_eq)
  have "length_loop str len (cur + 1) ?a = Some (dec_value ?a ds, len)"
    by (rule Cons.IH) (use Cons.prems d in \<open>simp_all add: add_diff_eq\<close>)
  then show ?case using Cons.prems d le
    by (subst length_loop.simps) (simp add: is_int_def INT_MIN_def add_diff_eq)
qed

lemma GetLength_first:
  assumes h: "holds str cur (cmp # ds)" and len: "len = cur + 1 + int (length ds)" and ds: "ds \<noteq> []"
    "\<forall>d \<in> set ds. isdigit d" and cmp: "cmp \<noteq> LF" and n: "dec_value 0 ds + 48 \<le> INT_MAX"
    and r1: "add_length which (dec_value 0 ds) r = Some r1"
  shows "GetLength str cmp len cur r which = Some (- 1, r1)"
proof -
  have "length_loop str len (cur + 1) 0 = Some (dec_value 0 ds, len)"
    by (rule length_loop_cut) (use h len ds n in simp_all)
  then show ?thesis using h len ds(1) cmp r1 by (simp add: GetLength_def Let_def)
qed

lemma GetLength_rest:
  assumes h: "holds str 0 (ds @ [CR, LF])" and len: "int (length ds) + 2 \<le> len"
    and ds: "\<forall>d \<in> set ds. isdigit d" and cmp: "\<not> isdigit cmp" "cmp \<noteq> CR" and n: "dec_value 0 ds + 48 \<le> INT_MAX"
    and r1: "add_length which (dec_value 0 ds) r = Some r1"
  shows "GetLength str cmp len 0 r which = Some (int (length ds) + 2, add_valid which r1)"
proof -
  have h': "holds str 0 (ds @ [CR])" "str (0 + int (length ds) + 1) = LF"
    using h by (simp_all add: holds_append)
  have loop: "length_loop str len 0 0 = Some (dec_value 0 ds, 0 + int (length ds) + 1)"
    by (rule length_loop_run [OF h'(1) ds]) (use len n in simp_all)
  have "isdigit (str 0) \<or> str 0 = CR" using h ds by (cases ds) auto
  then have "str 0 \<noteq> LF" "str 0 \<noteq> cmp" using cmp by (auto simp: isdigit_def c_char_def)
  then show ?thesis using loop h'(2) len r1 by (simp add: GetLength_def Let_def)
qed

lemma dec_value_shift: "dec_value a ds = a * 10 ^ length ds + dec_value 0 ds"
proof (induction ds arbitrary: a)
  case (Cons d ds)
  show ?case using Cons.IH [of "a * 10 + (c_char d - 48)"] Cons.IH [of "c_char d - 48"]
    by (simp add: algebra_simps)
qed simp

lemma split_length:
  assumes "0 < dec_value 0 xs"
  shows "dec_value 0 xs * 10 + dec_value 0 ys = dec_value 0 (xs @ ys) \<longleftrightarrow> length ys = 1"
proof -
  have "dec_value 0 (xs @ ys) = dec_value 0 xs * 10 ^ length ys + dec_value 0 ys"
    using dec_value_shift [of "dec_value 0 xs" ys] by (simp add: dec_value_append)
  moreover have "(10::int) ^ length ys = 10 \<longleftrightarrow> length ys = 1"
    using power_inject_exp [of "10::int" "length ys" 1] by simp
  ultimately show ?thesis using assms by auto
qed

section \<open>Properties\<close>

text \<open>
  C19: when a length line arrives in two parts, the first call waits and the second call takes the
  length to be ten times the first part's number plus the second part's: the length that was sent
  exactly if the second part has one digit.
\<close>

theorem length_line_cut:
  assumes "which \<in> {1, 2, 3, 4}" and "length_of which r = 0"
    and "holds str1 cur (cmp # ds1)" and "len1 = cur + 1 + int (length ds1)"
    and "holds str2 0 (ds2 @ [CR, LF])" and "int (length ds2) + 2 \<le> len2"
    and "\<forall>d \<in> set (ds1 @ ds2). isdigit d" and "0 < dec_value 0 ds1"
    and "\<not> isdigit cmp" and "cmp \<notin> {CR, LF}" and "dec_value 0 ds1 * 10 + dec_value 0 ds2 + 48 \<le> INT_MAX"
  shows "\<exists>r1 r2. GetLength str1 cmp len1 cur r which = Some (- 1, r1) \<and>
    GetLength str2 cmp len2 0 r1 which = Some (int (length ds2) + 2, r2) \<and>
    length_of which r2 = dec_value 0 ds1 * 10 + dec_value 0 ds2 \<and>
    (length_of which r2 = dec_value 0 (ds1 @ ds2) \<longleftrightarrow> length ds2 = 1)"
proof -
  have pos: "0 \<le> dec_value 0 ds2" using dec_value_ge [of 0 ds2] assms(7) by simp
  have n1: "is_int (length_of which r * 10)" "is_int (length_of which r * 10 + dec_value 0 ds1)"
    using assms(2,8,11) pos by (simp_all add: is_int_def INT_MIN_def INT_MAX_def)
  obtain r1 where r1: "add_length which (dec_value 0 ds1) r = Some r1" "length_of which r1 = dec_value 0 ds1"
    using add_length_of [OF assms(1) n1] assms(2) by auto
  have n2: "is_int (length_of which r1 * 10)" "is_int (length_of which r1 * 10 + dec_value 0 ds2)"
    using assms(8,11) pos r1(2) by (simp_all add: is_int_def INT_MIN_def INT_MAX_def)
  obtain r2 where r2: "add_length which (dec_value 0 ds2) r1 = Some r2"
    "length_of which r2 = dec_value 0 ds1 * 10 + dec_value 0 ds2"
    using add_length_of [OF assms(1) n2] r1(2) by auto
  have ne: "ds1 \<noteq> []" using assms(8) by auto
  have "GetLength str1 cmp len1 cur r which = Some (- 1, r1)"
    by (rule GetLength_first [OF assms(3,4) ne _ _ _ r1(1)]) (use assms(7,8,10,11) pos in auto)
  moreover have "GetLength str2 cmp len2 0 r1 which = Some (int (length ds2) + 2, add_valid which r2)"
    by (rule GetLength_rest [OF assms(5,6) _ assms(9) _ _ r2(1)]) (use assms(7,8,10,11) pos in auto)
  ultimately show ?thesis using r2(2) split_length [OF assms(8), of ds2] by simp
qed

theorem length_line_cut_witness:
  "\<exists>r1 r2. GetLength (poke (\<lambda>_. NUL) 0 ''$1'') (CHR ''$'') 2 0 zero_req 4 = Some (- 1, r1) \<and>
    GetLength (poke (\<lambda>_. NUL) 0 (''00'' @ [CR, LF])) (CHR ''$'') 4 0 r1 4 = Some (4, r2) \<and> va_len r2 = 10"
proof -
  have v: "dec_value 0 ''1'' = 1" "dec_value 0 ''00'' = 0" "dec_value 0 (''1'' @ ''00'') = 100"
    by (simp_all add: c_char_def)
  have h: "holds (poke (\<lambda>_. NUL) 0 ''$1'') 0 ''$1''"
    "holds (poke (\<lambda>_. NUL) 0 (''00'' @ [CR, LF])) 0 (''00'' @ [CR, LF])"
    by (rule poke_holds)+
  have d: "\<forall>d \<in> set (''1'' @ ''00''). isdigit d" "\<not> isdigit (CHR ''$'')" "CHR ''$'' \<notin> {CR, LF}"
    by (simp_all add: isdigit_def c_char_def)
  have w: "(4::int) \<in> {1, 2, 3, 4}" "length_of 4 zero_req = 0" by (simp_all add: length_of_def zero_req_def)
  have n: "(2::int) = 0 + 1 + int (length ''1'')" "int (length ''00'') + 2 \<le> 4" "0 < dec_value 0 ''1''"
    "dec_value 0 ''1'' * 10 + dec_value 0 ''00'' + 48 \<le> INT_MAX"
    unfolding v by (simp_all add: INT_MAX_def)
  from length_line_cut [OF w h(1) n(1) h(2) n(2) d(1) n(3) d(2,3) n(4)]
  obtain r1 r2 where "GetLength (poke (\<lambda>_. NUL) 0 ''$1'') (CHR ''$'') 2 0 zero_req 4 = Some (- 1, r1)"
    "GetLength (poke (\<lambda>_. NUL) 0 (''00'' @ [CR, LF])) (CHR ''$'') 4 0 r1 4 = Some (int (length ''00'') + 2, r2)"
    "length_of 4 r2 = dec_value 0 ''1'' * 10 + dec_value 0 ''00''"
    by blast
  moreover have "int (length ''00'') + 2 = 4" by simp
  ultimately show ?thesis unfolding v by (intro exI [of _ r1] exI [of _ r2]) (simp add: length_of_def)
qed

end
