(* ===== verification/Udp.thy ===== *)
theory Udp
  imports Command SpscQueue
begin

text \<open>
  \<open>udp_server.cpp\<close> with its protocol in \<open>command.c\<close>: the receiving loop of \<open>main\<close>, the handler
  thread, the queue of \<open>lockfreeq.h\<close> between them, and the replies. What the system calls return and
  what \<open>malloc\<close> leaves in memory are arguments. The address structures are numbered.
\<close>

section \<open>The protocol\<close>

text \<open>\<open>for( i = 0; i < n; i++ ) { x = str[i] - '0'; x *= 10; }\<close>\<close>

fun digit_loop :: "nat \<Rightarrow> mem \<Rightarrow> int \<Rightarrow> int \<Rightarrow> int" where
  "digit_loop 0 str i x = x"
| "digit_loop (Suc n) str i x = digit_loop n str (i + 1) ((c_char (str i) - 48) * 10)"

definition two_digits :: "mem \<Rightarrow> int \<Rightarrow> int" where
  "two_digits str i = (c_char (str i) - 48) * 10 + c_char (str (i + 1)) - 48"

fun udp_key_loop :: "nat \<Rightarrow> mem \<Rightarrow> int \<Rightarrow> int \<Rightarrow> int" where
  "udp_key_loop 0 str i key = key"
| "udp_key_loop (Suc n) str i key =
     udp_key_loop n str (i + 1) (to_uint64 (to_uint64 (key + (c_char (str i) - 48)) * 10))"

text \<open>
  A key of more than 18 digits is read from before the buffer. \<open>value_len\<close> is computed and not used,
  and the value is not copied.
\<close>

definition udp_GetRequest :: "cenv \<Rightarrow> int \<Rightarrow> mem \<Rightarrow> int \<Rightarrow> creq option \<Rightarrow> int \<Rightarrow>
    (creq option \<times> cevent list) option" where
  "udp_GetRequest e f str len req a =
     (let new_req = (case req of None \<Rightarrow> (fresh_req e)\<lparr>cfd := f, addr := a\<rparr> | Some r \<Rightarrow> r);
          r1 = new_req\<lparr>target_fd := digit_loop 3 str 0 (target_fd new_req) + c_char (str 3) - 48,
                       ty := two_digits str 4\<rparr>;
          key_len = two_digits str 6
      in if 18 < key_len then None
         else
           let k = udp_key_loop (nat key_len) str (18 - key_len) (ky r1);
               r2 = r1\<lparr>ky := to_uint64 (k div 10 + 1)\<rparr>;
               r3 = (if ty r2 < 3 then dma e r2 else r2)
           in Some (None, [CMake r3]))"

text \<open>The replies, with the descriptor and the address they go to.\<close>

type_synonym udp_reply = "int \<times> (int \<times> int \<times> byte list) list"

definition udp_SendOkCommand :: "mem \<Rightarrow> bool \<Rightarrow> creq \<Rightarrow> udp_reply option" where
  "udp_SendOkCommand junk ok r =
     do { b \<leftarrow> print_into 6 junk 0 (zero_padded 4 (target_fd r) @ zero_padded 2 (ty r));
          Some (if ok then (0, [(cfd r, addr r, peek b 0 6)]) else (- 1, [])) }"

definition udp_SendBulkValue :: "mem \<Rightarrow> bool \<Rightarrow> creq \<Rightarrow> mem \<Rightarrow> int \<Rightarrow> udp_reply option" where
  "udp_SendBulkValue junk ok r val len =
     do { let txt = zero_padded 4 (target_fd r) @ zero_padded 2 (ty r) @ zero_padded 4 8192;
          h1 \<leftarrow> print_into 8202 junk 0 txt;
          h2 \<leftarrow> print_into 8202 h1 0 txt;
          let h3 = poke h2 10 (peek val 0 8192);
          Some (if ok then (0, [(cfd r, addr r, peek h3 0 8202)]) else (- 1, [])) }"

section \<open>The server\<close>

record read_data =
  rd_fd :: int
  rd_buf :: mem
  rd_nread :: int
  rd_key :: int
  rd_addr :: int

text \<open>
  \<open>req_q\<close>, \<open>req_map\<close>, the \<open>rdata\<close> that \<open>main\<close> is about to enqueue, whether \<open>main\<close> has left its loop,
  what was submitted, and how many receive buffers and address structures are allocated.
\<close>

record udp =
  listen_fd :: int
  req_q :: "read_data spsc"
  req_map :: "int \<Rightarrow> creq option"
  pushing :: "read_data option"
  stopped :: bool
  made :: "cevent list"
  bufs :: int
  addrs :: int
  next_addr :: int

text \<open>\<open>addr_key\<close> is not set before the loop adds to it: it starts with what \<open>malloc\<close> left there.\<close>

fun addr_key_loop :: "nat \<Rightarrow> mem \<Rightarrow> int \<Rightarrow> int \<Rightarrow> int" where
  "addr_key_loop 0 sa i k = k"
| "addr_key_loop (Suc n) sa i k =
     addr_key_loop n sa (i + 1) (to_uint64 (to_uint64 (k + c_char (sa i)) * 2 ^ 8))"

definition addr_key :: "int \<Rightarrow> mem \<Rightarrow> int" where
  "addr_key junk sa = to_uint64 (addr_key_loop 5 sa 0 junk + c_char (sa 5))"

text \<open>
  \<open>recvfrom\<close>: it fails, with \<open>EWOULDBLOCK\<close> or not, or it gives a length, the buffer's contents and
  the address.
\<close>

datatype udp_recv = RecvFails bool | RecvFrom int mem mem

text \<open>One pass of the loop in \<open>main\<close>, up to the enqueue loop.\<close>

definition main_pass :: "int \<Rightarrow> int \<Rightarrow> udp_recv \<Rightarrow> int \<Rightarrow> udp \<Rightarrow> udp" where
  "main_pass rc revents rv junk s =
     (if rc < 0 then s\<lparr>stopped := True\<rparr>
      else if rc = 0 then s\<lparr>stopped := True\<rparr>
      else if revents = 0 then s
      else if revents \<noteq> 1 then s\<lparr>stopped := True\<rparr>
      else
        let s1 = s\<lparr>bufs := bufs s + 1, addrs := addrs s + 1, next_addr := next_addr s + 1\<rparr>
        in case rv of
             RecvFails would_block \<Rightarrow>
               (if \<not> would_block then s1\<lparr>bufs := bufs s, addrs := addrs s, stopped := True\<rparr>
                else s1\<lparr>stopped := True\<rparr>)
           | RecvFrom n b sa \<Rightarrow>
               s1\<lparr>pushing := Some \<lparr>rd_fd = listen_fd s, rd_buf = b, rd_nread = n,
                                    rd_key = addr_key junk sa, rd_addr = next_addr s\<rparr>\<rparr>)"

text \<open>One test of \<open>while(!req_q->enqueue(rdata))\<close>.\<close>

definition push_pass :: "udp \<Rightarrow> udp" where
  "push_pass s =
     (case pushing s of
        None \<Rightarrow> s
      | Some d \<Rightarrow> (case spsc_enqueue d (req_q s) of (ok, q) \<Rightarrow>
          if ok then s\<lparr>req_q := q, pushing := None\<rparr> else s\<lparr>req_q := q\<rparr>))"

text \<open>
  What \<open>request_handler\<close> does with a datagram it took off the queue. \<open>insert\<close> keeps an entry that is
  there already.
\<close>

definition handle_data :: "cenv \<Rightarrow> read_data \<Rightarrow> udp \<Rightarrow> udp option" where
  "handle_data e d s =
     (let req = req_map s (rd_key d);
          rest = (if req = None then req_map s else (req_map s)(rd_key d := None))
      in (case udp_GetRequest e (rd_fd d) (rd_buf d) (rd_nread d) req (rd_addr d) of
            None \<Rightarrow> None
          | Some (r, out) \<Rightarrow>
              Some (s\<lparr>req_map := (case r of
                                    None \<Rightarrow> rest
                                  | Some x \<Rightarrow> if rest (rd_key d) = None then rest(rd_key d \<mapsto> x) else rest),
                      made := made s @ out, bufs := bufs s - 1\<rparr>)))"

text \<open>One pass of its loop, where a test of the dequeue loop that fails is a pass of its own.\<close>

definition request_handler :: "cenv \<Rightarrow> udp \<Rightarrow> udp option" where
  "request_handler e s =
     (case spsc_dequeue (req_q s) of
        (None, q) \<Rightarrow> Some (s\<lparr>req_q := q\<rparr>)
      | (Some d, q) \<Rightarrow> handle_data e d (s\<lparr>req_q := q\<rparr>))"

text \<open>What the system calls before the loop return, and the port that is bound.\<close>

record udp_setup =
  us_sd :: int
  us_reuse_ok :: bool
  us_ioctl_ok :: bool
  us_bind_ok :: bool

definition QSIZE :: "64 word" where "QSIZE = 2048"

definition udp_main_start :: "(nat \<Rightarrow> read_data) \<Rightarrow> udp_setup \<Rightarrow> byte list option \<Rightarrow> (udp \<times> int) outcome" where
  "udp_main_start junk r argv1 =
     (if us_sd r < 0 then Exit (- 1)
      else if \<not> us_reuse_ok r then Exit (- 1)
      else if \<not> us_ioctl_ok r then Exit (- 1)
      else case argv1 of
        None \<Rightarrow> Undef
      | Some a \<Rightarrow>
          and_then (defined (atoi (poke (\<lambda>_. NUL) 0 (a @ [NUL])) (int (length a) + 1) 0)) (\<lambda>port.
          if \<not> us_bind_ok r then Exit (- 1)
          else (case spsc_new junk QSIZE of
                  None \<Rightarrow> Exit 134
                | Some q \<Rightarrow> Ret (\<lparr>listen_fd = us_sd r, req_q = q, req_map = (\<lambda>_. None), pushing = None,
                                  stopped = False, made = [], bufs = 0, addrs = 0, next_addr = 0\<rparr>,
                                 port mod 65536))))"

text \<open>
  The two threads, with the datagrams received so far: each call on the queue is one step. After
  \<open>main\<close> has left its loop the process ends.
\<close>

inductive udp_run :: "cenv \<Rightarrow> udp \<Rightarrow> read_data list \<Rightarrow> udp \<Rightarrow> bool" for e s0 where
  start: "udp_run e s0 [] s0"
| receive: "udp_run e s0 ds s \<Longrightarrow> \<not> stopped s \<Longrightarrow> pushing s = None \<Longrightarrow> main_pass rc revents rv junk s = s' \<Longrightarrow>
    udp_run e s0 (ds @ (case pushing s' of None \<Rightarrow> [] | Some d \<Rightarrow> [d])) s'"
| push: "udp_run e s0 ds s \<Longrightarrow> \<not> stopped s \<Longrightarrow> pushing s \<noteq> None \<Longrightarrow> udp_run e s0 ds (push_pass s)"
| handle: "udp_run e s0 ds s \<Longrightarrow> \<not> stopped s \<Longrightarrow> request_handler e s = Some s' \<Longrightarrow> udp_run e s0 ds s'"

end
