(* ===== verification/UdpProps.thy ===== *)
theory UdpProps
  imports Udp CommandProps
begin

text \<open>
  The UDP server: what is read of a datagram, that the handler submits the datagrams in the order they
  came, that the table of partial requests stays empty, which memory is lost, and the replies that
  overflow their arrays.
\<close>

section \<open>Padded numbers\<close>

lemma length_dec_le: "n < 10 ^ w \<Longrightarrow> 0 < w \<Longrightarrow> length (dec n) \<le> w"
proof (induction n arbitrary: w rule: dec.induct)
  case (1 n)
  show ?case
  proof (cases "n < 10")
    case False
    then obtain w' where w: "w = Suc w'" "0 < w'" using 1(2,3) by (cases w; cases "w - 1") auto
    then have "n div 10 < 10 ^ w'" using 1(2) by (simp add: less_mult_imp_div_less mult.commute)
    then show ?thesis using 1(1) [OF False] w False by (subst dec.simps) simp
  qed (use 1 in \<open>subst dec.simps, simp\<close>)
qed

lemmas zero_char = digit_chars(1) [symmetric]

lemma zero_padded_digits: "0 \<le> x \<Longrightarrow> d \<in> set (zero_padded w x) \<Longrightarrow> isdigit d"
  by (auto simp: zero_padded_def dec_isdigit zero_char isdigit_digit split: if_splits)

lemma zero_padded_length: "0 \<le> x \<Longrightarrow> x < 10 ^ w \<Longrightarrow> 0 < w \<Longrightarrow> length (zero_padded w x) = w"
  using length_dec_le [of "nat x" w] by (simp add: zero_padded_def nat_less_iff)

lemma padded_8192: "zero_padded 4 8192 = ''8192''"
  by (simp add: zero_padded_def dec_8192)

lemma zero_padded_min_length: "w \<le> length (zero_padded w x)"
  by (auto simp: zero_padded_def)

lemma dec_value_zeros: "dec_value 0 (replicate n (CHR ''0'') @ ds) = dec_value 0 ds"
  by (induction n) (simp_all add: zero_char c_char_digit)

lemma zero_padded_value: "0 \<le> x \<Longrightarrow> dec_value 0 (zero_padded w x) = x"
  by (simp add: zero_padded_def dec_value_zeros dec_value_dec)

lemma mod_hundred: "x = m * 100 + r \<Longrightarrow> 0 \<le> r \<Longrightarrow> r < 100 \<Longrightarrow> x mod 100 = (r :: int)"
  by simp

lemma two_digits_read:
  assumes "holds str i (zero_padded 2 x)" and "0 \<le> x" and "x < 100"
  shows "two_digits str i = x"
proof -
  have "length (zero_padded 2 x) = 2" using assms(2,3) by (simp add: zero_padded_length)
  then obtain a b where ab: "zero_padded 2 x = [a, b]"
    by (auto simp: length_Suc_conv numeral_2_eq_2)
  then have "dec_value 0 [a, b] = x" using zero_padded_value [OF assms(2), of 2] by simp
  then show ?thesis using assms(1) ab by (simp add: two_digits_def)
qed

text \<open>Only the last two digits of four are read.\<close>

lemma four_digits_read:
  assumes h: "holds str i (zero_padded 4 x)" and x: "0 \<le> x" "x < 10000"
  shows "digit_loop 3 str i y + c_char (str (i + 3)) - 48 = x mod 100"
proof -
  have "length (zero_padded 4 x) = 4" using x by (simp add: zero_padded_length)
  then obtain a b c d where abcd: "zero_padded 4 x = [a, b, c, d]"
    by (auto simp: length_Suc_conv numeral_eq_Suc)
  have dig: "isdigit c" "isdigit d" using zero_padded_digits [OF x(1), of _ 4] abcd by auto
  have "dec_value 0 [a, b, c, d] = x" using zero_padded_value [OF x(1), of 4] abcd by simp
  then have "x = (((c_char a - 48) * 10 + (c_char b - 48)) * 100) + ((c_char c - 48) * 10 + (c_char d - 48))"
    by simp
  then have "x mod 100 = (c_char c - 48) * 10 + (c_char d - 48)"
    by (rule mod_hundred) (use dig in \<open>simp_all add: isdigit_def\<close>)
  moreover have "digit_loop 3 str i y = (c_char c - 48) * 10" "str (i + 3) = d"
    using h abcd by (simp_all add: numeral_3_eq_3 add.assoc)
  ultimately show ?thesis by simp
qed

lemma peek_poke_prefix: "peek (poke m i (xs @ ys)) i (length xs) = xs"
  using holds_append [of "poke m i (xs @ ys)" i xs ys] holds_peek peek_poke_same by blast

section \<open>The key\<close>

lemma udp_key_loop_run:
  "holds str i ds \<Longrightarrow> \<forall>d \<in> set ds. isdigit d \<Longrightarrow> 0 \<le> a \<Longrightarrow> dec_value a ds * 10 < 18446744073709551616 \<Longrightarrow>
     udp_key_loop (length ds) str i (a * 10) = dec_value a ds * 10"
proof (induction ds arbitrary: i a)
  case (Cons d ds)
  let ?a = "a * 10 + (c_char d - 48)"
  have d: "str i = d" "0 \<le> ?a" using Cons.prems by (simp_all add: isdigit_def)
  then have "?a \<le> dec_value ?a ds" using dec_value_ge Cons.prems by simp
  then have le: "?a * 10 < 18446744073709551616" using Cons.prems(4) by simp
  have "to_uint64 (to_uint64 ?a * 10) = ?a * 10"
    using d(2) le by (simp add: to_uint64_id)
  then show ?case using Cons.IH [of "i + 1" ?a] Cons.prems d by simp
qed simp

section \<open>A datagram\<close>

text \<open>
  Target, type, number of digits of the key, the key at the right end of ten places, then the length
  of the value and the value.
\<close>

definition datagram :: "int \<Rightarrow> int \<Rightarrow> nat \<Rightarrow> byte list \<Rightarrow> byte list" where
  "datagram t op k v =
     zero_padded 4 t @ zero_padded 2 op @ zero_padded 2 (int (length (dec k))) @
     replicate (10 - length (dec k)) SP @ dec k @ zero_padded 4 (int (length v)) @ v"

definition datagram_req :: "cenv \<Rightarrow> int \<Rightarrow> int \<Rightarrow> int \<Rightarrow> int \<Rightarrow> nat \<Rightarrow> creq" where
  "datagram_req e f a t op k =
     (let r = (fresh_req e)\<lparr>cfd := f, addr := a, target_fd := t mod 100, ty := op, ky := int k + 1\<rparr>
      in if op < 3 then dma e r else r)"

lemma udp_GetRequest_run:
  assumes fresh: "ky (fresh_req e) = 0" and t: "0 \<le> t" "t < 10000" and op: "0 \<le> op" "op < 100"
    and k: "k < 10 ^ 10" and h: "holds str 0 (datagram t op k v)"
  shows "udp_GetRequest e f str len None a = Some (None, [CMake (datagram_req e f a t op k)])"
proof -
  let ?n = "length (dec k)"
  have n: "?n \<le> 10" using k by (intro length_dec_le) simp_all
  have lens: "length (zero_padded 4 t) = 4" "length (zero_padded 2 op) = 2"
    "length (zero_padded 2 (int ?n)) = 2"
    using t op n by (simp_all add: zero_padded_length)
  have h4: "holds str 0 (zero_padded 4 t)" "holds str 4 (zero_padded 2 op)"
    "holds str 6 (zero_padded 2 (int ?n))" "holds str (18 - int ?n) (dec k)"
    using h lens n by (simp_all add: datagram_def holds_append of_nat_diff)
  have fd: "digit_loop 3 str 0 y + c_char (str 3) - 48 = t mod 100" for y
    using four_digits_read [OF h4(1) t] by simp
  have tyv: "two_digits str 4 = op" and kl: "two_digits str 6 = int ?n"
    using two_digits_read h4(2,3) op n by auto
  have "dec_value 0 (dec k) * 10 < 18446744073709551616" using k by (simp add: dec_value_dec)
  then have key: "udp_key_loop ?n str (18 - int ?n) 0 = int k * 10"
    using udp_key_loop_run [OF h4(4), of 0] by (simp add: dec_isdigit dec_value_dec)
  have k1: "to_uint64 (int k + 1) = int k + 1" using k by (simp add: to_uint64_id)
  show ?thesis using n fresh
    by (simp add: udp_GetRequest_def Let_def fd tyv kl key k1 datagram_req_def)
qed

section \<open>The key of an address\<close>

lemma to_uint64_cong: "to_uint64 (to_uint64 x + y) = to_uint64 (x + y)" "to_uint64 (to_uint64 x * y) = to_uint64 (x * y)"
  by (simp_all add: to_uint64_def mod_simps)

lemma mod_inner: "(z + p mod m * q + y) mod m = (z + p * q + y) mod (m :: int)"
proof -
  have "(p mod m * q) mod m = (p * q) mod m" by (rule mod_mult_left_eq)
  then show ?thesis by (intro mod_add_cong refl) 
qed

lemma addr_key_loop_shift:
  "to_uint64 (addr_key_loop n sa i k + y) = to_uint64 (addr_key_loop n sa i 0 + k * 2 ^ (8 * n) + y)"
proof (induction n arbitrary: i k y)
  case (Suc n)
  have "to_uint64 (addr_key_loop (Suc n) sa i k + y) =
      to_uint64 (addr_key_loop n sa (i + 1) 0 + to_uint64 (to_uint64 (k + c_char (sa i)) * 2 ^ 8) * 2 ^ (8 * n) + y)" for k y
    using Suc.IH by simp
  moreover have "to_uint64 (z + to_uint64 (to_uint64 x * 2 ^ 8) * 2 ^ (8 * n) + y) = to_uint64 (z + x * 2 ^ 8 * 2 ^ (8 * n) + y)"
    for x y z unfolding to_uint64_cong(2) unfolding to_uint64_def by (rule mod_inner)
  ultimately have eq: "to_uint64 (addr_key_loop (Suc n) sa i k + y) =
      to_uint64 (addr_key_loop n sa (i + 1) 0 + (k + c_char (sa i)) * 2 ^ 8 * 2 ^ (8 * n) + y)" for k y
    by (simp only:)
  have "(2 :: int) ^ 8 * 2 ^ (8 * n) = 2 ^ (8 * Suc n)" by (simp add: power_add)
  then show ?case
    using eq [of k y] eq [of 0 "k * 2 ^ (8 * Suc n) + y"] by (simp only: algebra_simps) simp
qed simp

lemma addr_key_junk: "addr_key junk sa = to_uint64 (addr_key 0 sa + junk * 2 ^ 40)"
  using addr_key_loop_shift [of 5 sa 0 junk "c_char (sa 5)"]
  by (simp add: addr_key_def to_uint64_cong algebra_simps)

section \<open>The server\<close>

text \<open>What the handler submits for a datagram.\<close>

definition handled :: "cenv \<Rightarrow> read_data \<Rightarrow> cevent list" where
  "handled e d = (case udp_GetRequest e (rd_fd d) (rd_buf d) (rd_nread d) None (rd_addr d) of
                    None \<Rightarrow> [] | Some (_, out) \<Rightarrow> out)"

definition held :: "udp \<Rightarrow> read_data list" where
  "held s = (case pushing s of None \<Rightarrow> [] | Some d \<Rightarrow> [d])"

lemma udp_GetRequest_keeps_none: "udp_GetRequest e f str len req a = Some (r, out) \<Longrightarrow> r = None"
  by (auto simp: udp_GetRequest_def Let_def split: if_splits)

definition udp_inv :: "cenv \<Rightarrow> nat \<Rightarrow> read_data list \<Rightarrow> udp \<Rightarrow> bool" where
  "udp_inv e cap ds s \<longleftrightarrow> spsc_inv (req_q s) \<and> spsc_capacity (req_q s) = cap \<and> req_map s = (\<lambda>_. None) \<and>
     (\<exists>served. ds = served @ spsc_items (req_q s) @ held s \<and> made s = concat (map (handled e) served)) \<and>
     (\<not> stopped s \<longrightarrow> bufs s = int (length (spsc_items (req_q s) @ held s)) \<and> addrs s = int (length ds))"

lemma udp_inv_receive:
  "udp_inv e cap ds s \<Longrightarrow> \<not> stopped s \<Longrightarrow> pushing s = None \<Longrightarrow>
     udp_inv e cap (ds @ held (main_pass rc revents rv junk s)) (main_pass rc revents rv junk s)"
  by (auto simp: udp_inv_def main_pass_def held_def Let_def split: udp_recv.splits)

lemma udp_inv_push:
  assumes "udp_inv e cap ds s" and "pushing s \<noteq> None"
  shows "udp_inv e cap ds (push_pass s)"
proof -
  obtain d where d: "pushing s = Some d" using assms(2) by auto
  obtain ok q where q: "spsc_enqueue d (req_q s) = (ok, q)" by fastforce
  have inv: "spsc_inv (req_q s)" using assms(1) by (simp add: udp_inv_def)
  have "spsc_inv q" "spsc_items q = (if ok then spsc_items (req_q s) @ [d] else spsc_items (req_q s))"
    "spsc_capacity q = spsc_capacity (req_q s)"
    using spsc.enq_invar [OF inv, of d] spsc.enq_contents [OF inv, of d] spsc.enq_capacity [OF inv, of d] q
    by simp_all
  then show ?thesis using assms(1) d q
    by (cases ok) (auto simp: udp_inv_def push_pass_def held_def)
qed

lemma udp_inv_handle:
  assumes "udp_inv e cap ds s" and "request_handler e s = Some s'"
  shows "udp_inv e cap ds s'"
proof -
  obtain v q where q: "spsc_dequeue (req_q s) = (v, q)" by fastforce
  have inv: "spsc_inv (req_q s)" and empty: "req_map s = (\<lambda>_. None)" using assms(1) by (simp_all add: udp_inv_def)
  have new: "spsc_inv q" "spsc_items (req_q s) = (case v of None \<Rightarrow> [] | Some x \<Rightarrow> [x]) @ spsc_items q"
    "spsc_capacity q = spsc_capacity (req_q s)"
    using spsc.deq_invar [OF inv] spsc.deq_contents [OF inv] spsc.deq_capacity [OF inv] q by simp_all
  show ?thesis
  proof (cases v)
    case None
    then show ?thesis using assms q new by (auto simp: udp_inv_def request_handler_def handle_data_def held_def)
  next
    case (Some d)
    obtain r out where g: "udp_GetRequest e (rd_fd d) (rd_buf d) (rd_nread d) None (rd_addr d) = Some (r, out)"
      using assms(2) Some q empty by (auto simp: request_handler_def handle_data_def Let_def split: option.splits)
    have s': "s' = s\<lparr>req_q := q, made := made s @ out, bufs := bufs s - 1\<rparr>"
      using assms(2) Some q empty g udp_GetRequest_keeps_none [OF g] by (auto simp: request_handler_def handle_data_def Let_def)
    have out: "handled e d = out" using g by (simp add: handled_def)
    obtain served where served: "ds = served @ spsc_items (req_q s) @ held s" "made s = concat (map (handled e) served)"
      using assms(1) by (auto simp: udp_inv_def)
    have "ds = (served @ [d]) @ spsc_items q @ held s'" "made s' = concat (map (handled e) (served @ [d]))"
      using served new(2) Some s' out by (simp_all add: held_def)
    then have "\<exists>served. ds = served @ spsc_items (req_q s') @ held s' \<and> made s' = concat (map (handled e) served)"
      using s' by (intro exI [of _ "served @ [d]"]) simp
    then show ?thesis using assms(1) new Some s' by (auto simp: udp_inv_def held_def)
  qed
qed

lemma udp_run_inv: "udp_run e s0 ds s \<Longrightarrow> udp_inv e cap [] s0 \<Longrightarrow> udp_inv e cap ds s"
proof (induction rule: udp_run.induct)
  case (receive ds s rc revents rv junk s')
  then show ?case using udp_inv_receive [of e cap ds s rc revents rv junk] by (simp add: held_def)
qed (auto intro: udp_inv_push udp_inv_handle)

lemma udp_main_start_inv: "udp_main_start junk r argv1 = Ret (s0, port) \<Longrightarrow> udp_inv e 2047 [] s0"
proof -
  assume start: "udp_main_start junk r argv1 = Ret (s0, port)"
  obtain q where q: "spsc_new junk (2 ^ 11) = Some q" "spsc_inv q" "spsc_items q = []" "spsc_capacity q = 2 ^ 11 - 1"
    using spsc_new_inv [of 11 junk] by auto
  then have "spsc_new junk QSIZE = Some q" by (simp add: QSIZE_def)
  then show ?thesis using start q(2-4)
    by (auto simp: udp_main_start_def udp_inv_def held_def split: if_splits option.splits)
qed

text \<open>What waits in the queue and in \<open>main\<close> can be handled.\<close>

definition handleable :: "cenv \<Rightarrow> read_data \<Rightarrow> bool" where
  "handleable e d \<longleftrightarrow> udp_GetRequest e (rd_fd d) (rd_buf d) (rd_nread d) None (rd_addr d) \<noteq> None"

lemma handleable_two_digits: "two_digits (rd_buf d) 6 \<le> 18 \<Longrightarrow> handleable e d"
  by (simp add: handleable_def udp_GetRequest_def Let_def)

lemma request_handler_next:
  assumes "udp_inv e cap ds s" and "spsc_items (req_q s) = d # rest" and "handleable e d"
  shows "\<exists>s'. request_handler e s = Some s' \<and> spsc_items (req_q s') = rest \<and> pushing s' = pushing s \<and> stopped s' = stopped s"
proof -
  have inv: "spsc_inv (req_q s)" and empty: "req_map s = (\<lambda>_. None)" using assms(1) by (simp_all add: udp_inv_def)
  obtain q where q: "spsc_dequeue (req_q s) = (Some d, q)" "spsc_items q = rest"
    using spsc.deq_some [OF inv assms(2)] by (cases "spsc_dequeue (req_q s)") auto
  obtain r out where g: "udp_GetRequest e (rd_fd d) (rd_buf d) (rd_nread d) None (rd_addr d) = Some (r, out)"
    using assms(3) by (auto simp: handleable_def)
  show ?thesis using q empty g by (auto simp: request_handler_def handle_data_def Let_def)
qed

lemma udp_drain_queue:
  "udp_run e s0 ds s \<Longrightarrow> udp_inv e cap [] s0 \<Longrightarrow> \<not> stopped s \<Longrightarrow> \<forall>d \<in> set ds. handleable e d \<Longrightarrow>
     \<exists>s'. udp_run e s0 ds s' \<and> spsc_items (req_q s') = [] \<and> pushing s' = pushing s \<and> \<not> stopped s'"
proof (induction "spsc_items (req_q s)" arbitrary: s)
  case Nil
  then show ?case by auto
next
  case (Cons d rest)
  note inv = udp_run_inv [OF Cons.prems(1,2)]
  then have "d \<in> set ds" using Cons.hyps(2) [symmetric] by (auto simp: udp_inv_def)
  then obtain s1 where s1: "request_handler e s = Some s1" "spsc_items (req_q s1) = rest" "pushing s1 = pushing s"
    "stopped s1 = stopped s"
    using request_handler_next [OF inv Cons.hyps(2) [symmetric]] Cons.prems(4) by auto
  then show ?case using Cons.hyps(1) [of s1] udp_run.handle [OF Cons.prems(1) Cons.prems(3) s1(1)] Cons.prems by auto
qed

lemma udp_drain:
  assumes run: "udp_run e s0 ds s" and inv0: "udp_inv e cap [] s0" and cap: "0 < cap" and go: "\<not> stopped s"
    and all: "\<forall>d \<in> set ds. handleable e d"
  shows "\<exists>s'. udp_run e s0 ds s' \<and> made s' = concat (map (handled e) ds) \<and> \<not> stopped s'"
proof -
  obtain s1 where s1: "udp_run e s0 ds s1" "spsc_items (req_q s1) = []" "pushing s1 = pushing s" "\<not> stopped s1"
    using udp_drain_queue [OF run inv0 go all] by auto
  have served: "made x = concat (map (handled e) ds)" if "udp_run e s0 ds x" "spsc_items (req_q x) = []" "pushing x = None" for x
    using udp_run_inv [OF that(1) inv0] that(2,3) by (auto simp: udp_inv_def held_def)
  show ?thesis
  proof (cases "pushing s1")
    case None
    then show ?thesis using s1 served by blast
  next
    case (Some d)
    have i: "spsc_inv (req_q s1)" "spsc_capacity (req_q s1) = cap" using udp_run_inv [OF s1(1) inv0] by (simp_all add: udp_inv_def)
    then have "fst (spsc_enqueue d (req_q s1))" using spsc.enq_accepts_iff [OF i(1), of d] s1(2) cap by simp
    then have p: "pushing (push_pass s1) = None" "stopped (push_pass s1) = stopped s1"
      using Some by (auto simp: push_pass_def split: prod.splits)
    have run2: "udp_run e s0 ds (push_pass s1)" using udp_run.push [OF s1(1,4)] Some by simp
    obtain s2 where "udp_run e s0 ds s2" "spsc_items (req_q s2) = []" "pushing s2 = None" "\<not> stopped s2"
      using udp_drain_queue [OF run2 inv0] p s1(4) all by auto
    then show ?thesis using served by blast
  qed
qed

section \<open>A run\<close>

definition sample_datagram :: read_data where
  "sample_datagram = \<lparr>rd_fd = 3, rd_buf = poke (\<lambda>_. NUL) 0 (datagram 412 2 77 []), rd_nread = 22,
     rd_key = addr_key 0 (\<lambda>_. NUL), rd_addr = 0\<rparr>"

definition sample_setup :: udp_setup where
  "sample_setup = \<lparr>us_sd = 3, us_reuse_ok = True, us_ioctl_ok = True, us_bind_ok = True\<rparr>"

lemma sample_start:
  "\<exists>s0. udp_main_start (\<lambda>_. sample_datagram) sample_setup (Some (dec 12345)) = Ret (s0, 12345) \<and> listen_fd s0 = 3 \<and>
     pushing s0 = None \<and> \<not> stopped s0 \<and> next_addr s0 = 0"
proof -
  obtain q where "spsc_new (\<lambda>_. sample_datagram) (2 ^ 11) = Some q" using spsc_new_inv [of 11] by auto
  then have q: "spsc_new (\<lambda>_. sample_datagram) QSIZE = Some q" by (simp add: QSIZE_def)
  have h: "holds (poke (\<lambda>_. NUL) 0 (dec 12345 @ [NUL])) 0 (dec 12345 @ [NUL])" by (rule poke_holds)
  have n: "poke (\<lambda>_. NUL) 0 (dec 12345 @ [NUL]) (int (length (dec 12345))) = NUL"
    using h by (simp add: holds_append)
  have "atoi (poke (\<lambda>_. NUL) 0 (dec 12345 @ [NUL])) (int (length (dec 12345)) + 1) 0 = Some (int 12345)"
    by (rule atoi_dec) (use h n in \<open>simp_all add: holds_append isdigit_def c_char_def INT_MAX_def\<close>)
  then show ?thesis using q by (simp add: udp_main_start_def sample_setup_def)
qed

lemma sample_reached:
  "\<exists>s0 s. udp_main_start (\<lambda>_. sample_datagram) sample_setup (Some (dec 12345)) = Ret (s0, 12345) \<and>
     udp_run e s0 [sample_datagram] s \<and> \<not> stopped s"
proof -
  obtain s0 where s0: "udp_main_start (\<lambda>_. sample_datagram) sample_setup (Some (dec 12345)) = Ret (s0, 12345)"
    "listen_fd s0 = 3" "pushing s0 = None" "\<not> stopped s0" "next_addr s0 = 0" using sample_start by blast
  let ?s = "main_pass 1 1 (RecvFrom 22 (poke (\<lambda>_. NUL) 0 (datagram 412 2 77 [])) (\<lambda>_. NUL)) 0 s0"
  have "pushing ?s = Some sample_datagram" "\<not> stopped ?s"
    using s0 by (simp_all add: main_pass_def Let_def sample_datagram_def)
  moreover from this have "udp_run e s0 [sample_datagram] ?s"
    using udp_run.receive [OF udp_run.start s0(4,3) refl [of ?s], of e] by simp
  ultimately show ?thesis using s0(1) by blast
qed

lemma sample_key_digits: "two_digits (rd_buf sample_datagram) 6 = 2"
proof -
  have "length (zero_padded 4 412) = 4" "length (zero_padded 2 2) = 2" "length (dec 77) = 2"
    by (simp_all add: zero_padded_length dec.simps)
  then have "holds (rd_buf sample_datagram) 6 (zero_padded 2 2)"
    using poke_holds [of "\<lambda>_. NUL" 0 "datagram 412 2 77 []"]
    by (simp add: sample_datagram_def datagram_def holds_append)
  then show ?thesis by (rule two_digits_read) simp_all
qed

section \<open>Properties\<close>

text \<open>
  C10: whatever the order of the steps of \<open>main\<close> and of the handler, the datagrams received are those
  submitted, those queued and the one \<open>main\<close> holds, in this order; the table of partial requests stays
  empty and the queue within its capacity.
\<close>

theorem udp_server_order:
  assumes "udp_main_start junk r argv1 = Ret (s0, port)" and "udp_run e s0 ds s"
  shows "req_map s = (\<lambda>_. None) \<and> length (spsc_items (req_q s)) \<le> 2047 \<and>
    (\<exists>served. ds = served @ spsc_items (req_q s) @ held s \<and> made s = concat (map (handled e) served))"
proof -
  have "udp_inv e 2047 ds s" using udp_run_inv [OF assms(2) udp_main_start_inv [OF assms(1)]] .
  then show ?thesis using spsc.within [of "req_q s"] by (auto simp: udp_inv_def)
qed

theorem udp_server_order_witness:
  "\<exists>s0 s. udp_main_start (\<lambda>_. sample_datagram) sample_setup (Some (dec 12345)) = Ret (s0, 12345) \<and>
     udp_run sample_cenv s0 [sample_datagram] s \<and>
     req_map s = (\<lambda>_. None) \<and> length (spsc_items (req_q s)) \<le> 2047 \<and>
     (\<exists>served. [sample_datagram] = served @ spsc_items (req_q s) @ held s \<and>
        made s = concat (map (handled sample_cenv) served))"
proof -
  obtain s0 s where s: "udp_main_start (\<lambda>_. sample_datagram) sample_setup (Some (dec 12345)) = Ret (s0, 12345)"
    "udp_run sample_cenv s0 [sample_datagram] s" using sample_reached by blast
  then show ?thesis using udp_server_order [OF s] by blast
qed

text \<open>
  While the server runs, the receive buffers allocated are those of the datagrams queued or held;
  the address structures are never freed: there is one for every datagram ever received.
\<close>

theorem udp_server_memory:
  assumes "udp_main_start junk r argv1 = Ret (s0, port)" and "udp_run e s0 ds s" and "\<not> stopped s"
  shows "bufs s = int (length (spsc_items (req_q s) @ held s)) \<and> addrs s = int (length ds)"
  using udp_run_inv [OF assms(2) udp_main_start_inv [OF assms(1)]] assms(3) by (simp add: udp_inv_def)

theorem udp_server_memory_witness:
  "\<exists>s0 s. udp_main_start (\<lambda>_. sample_datagram) sample_setup (Some (dec 12345)) = Ret (s0, 12345) \<and>
     udp_run sample_cenv s0 [sample_datagram] s \<and> \<not> stopped s \<and>
     bufs s = int (length (spsc_items (req_q s) @ held s)) \<and> addrs s = 1"
proof -
  obtain s0 s where s: "udp_main_start (\<lambda>_. sample_datagram) sample_setup (Some (dec 12345)) = Ret (s0, 12345)"
    "udp_run sample_cenv s0 [sample_datagram] s" "\<not> stopped s" using sample_reached by blast
  then show ?thesis using udp_server_memory [OF s] by auto
qed

text \<open>
  C25: from every state the running server can reach, the threads can go on to submit every datagram
  received, once and in order, if none of them has a key of more than 18 digits.
\<close>

theorem udp_server_drains:
  assumes "udp_main_start junk r argv1 = Ret (s0, port)" and "udp_run e s0 ds s" and "\<not> stopped s"
    and "list_all (\<lambda>d. two_digits (rd_buf d) 6 \<le> 18) ds"
  shows "\<exists>s'. udp_run e s0 ds s' \<and> made s' = concat (map (handled e) ds)"
proof -
  have "\<forall>d \<in> set ds. handleable e d"
    using assms(4) by (auto simp: list_all_iff handleable_two_digits)
  then show ?thesis using udp_drain [OF assms(2) udp_main_start_inv [OF assms(1)] _ assms(3)] by auto
qed

theorem udp_server_drains_witness:
  "\<exists>s0 s s'. udp_main_start (\<lambda>_. sample_datagram) sample_setup (Some (dec 12345)) = Ret (s0, 12345) \<and>
     udp_run sample_cenv s0 [sample_datagram] s \<and> udp_run sample_cenv s0 [sample_datagram] s' \<and>
     made s' = handled sample_cenv sample_datagram"
proof -
  obtain s0 s where s: "udp_main_start (\<lambda>_. sample_datagram) sample_setup (Some (dec 12345)) = Ret (s0, 12345)"
    "udp_run sample_cenv s0 [sample_datagram] s" "\<not> stopped s" using sample_reached by blast
  have "list_all (\<lambda>d. two_digits (rd_buf d) 6 \<le> 18) [sample_datagram]" by (simp add: sample_key_digits)
  from udp_server_drains [OF s this] s show ?thesis by auto
qed

text \<open>
  C26: of a well-formed datagram the handler makes a request with its type and its key plus one; of the
  four digits of the target it keeps the last two. The request does not depend on the value.
\<close>

theorem udp_GetRequest_reads:
  assumes "ky (fresh_req e) = 0" and "0 \<le> t" "t < 10000" and "0 \<le> op" "op < 100" and "k < 10 ^ 10"
  shows "udp_GetRequest e f (poke b 0 (datagram t op k v)) len None a = Some (None, [CMake (datagram_req e f a t op k)])"
proof (rule udp_GetRequest_run [OF assms, where v = v])
  show "holds (poke b 0 (datagram t op k v)) 0 (datagram t op k v)" by (simp add: holds_peek peek_poke_same)
qed

theorem udp_GetRequest_reads_witness:
  "udp_GetRequest sample_cenv 3 (poke (\<lambda>_. NUL) 0 (datagram 412 2 77 [])) 22 None 5 =
     Some (None, [CMake (datagram_req sample_cenv 3 5 412 2 77)]) \<and>
   target_fd (datagram_req sample_cenv 3 5 412 2 77) = 12 \<and> ky (datagram_req sample_cenv 3 5 412 2 77) = 78"
proof -
  have "ky (fresh_req sample_cenv) = 0" by (simp add: sample_cenv_def zero_req_def)
  from udp_GetRequest_reads [OF this, of 412 2 77 3 "\<lambda>_. NUL" "[]" 22 5]
  have "udp_GetRequest sample_cenv 3 (poke (\<lambda>_. NUL) 0 (datagram 412 2 77 [])) 22 None 5 =
     Some (None, [CMake (datagram_req sample_cenv 3 5 412 2 77)])" by simp
  then show ?thesis by (simp add: datagram_req_def sample_cenv_def)
qed

text \<open>
  The reply to a datagram with a type below 100 names the last two digits of its target, its type
  and the length 8192, and carries the value; it goes to the descriptor and the address it came from.
\<close>

theorem udp_value_reply:
  assumes "0 \<le> op" "op < 100" and "\<And>r. \<exists>m. dma e r = r\<lparr>va := m\<rparr>"
  shows "udp_SendBulkValue junk True (datagram_req e f a t op k) val len =
    Some (0, [(f, a, zero_padded 4 (t mod 100) @ zero_padded 2 op @ ''8192'' @ peek val 0 8192)])"
proof -
  let ?r = "datagram_req e f a t op k" and ?txt = "zero_padded 4 (t mod 100) @ zero_padded 2 op @ zero_padded 4 8192"
  obtain m where "dma e ((fresh_req e)\<lparr>cfd := f, addr := a, target_fd := t mod 100, ty := op, ky := int k + 1\<rparr>) =
      (fresh_req e)\<lparr>cfd := f, addr := a, target_fd := t mod 100, ty := op, ky := int k + 1, va := m\<rparr>"
    using assms(3) by fastforce
  then have r: "target_fd ?r = t mod 100" "ty ?r = op" "cfd ?r = f" "addr ?r = a"
    by (simp_all add: datagram_req_def Let_def)
  note num = padded_8192
  have len: "length (zero_padded 4 (t mod 100)) = 4" "length (zero_padded 2 op) = 2"
    using assms(1,2) by (simp_all add: zero_padded_length)
  then have ten: "length ?txt = 10" using num by simp
  define h where "h = poke junk 0 (?txt @ [NUL])"
  define h' where "h' = poke h 0 (?txt @ [NUL])"
  have "print_into 8202 junk 0 ?txt = Some h" "print_into 8202 h 0 ?txt = Some h'"
    using ten by (simp_all add: print_into_def h_def h'_def)
  then have sent: "udp_SendBulkValue junk True ?r val len =
      Some (0, [(f, a, peek (poke h' 10 (peek val 0 8192)) 0 (10 + 8192))])"
    using r by (simp add: udp_SendBulkValue_def)
  have "peek h' 0 (length ?txt) = ?txt" unfolding h'_def by (rule peek_poke_prefix)
  then have "peek h' 0 10 = ?txt" by (simp only: ten)
  moreover have "peek (poke h' 10 (peek val 0 8192)) 10 8192 = peek val 0 8192"
    using peek_poke_same [of h' 10 "peek val 0 8192"] by simp
  ultimately have "peek (poke h' 10 (peek val 0 8192)) 0 (10 + 8192) = ?txt @ peek val 0 8192"
    unfolding peek_append by (simp add: peek_poke_before)
  then show ?thesis unfolding sent num by simp
qed

theorem udp_value_reply_witness:
  "udp_SendBulkValue (\<lambda>_. NUL) True (datagram_req sample_cenv 3 5 412 2 77) (\<lambda>_. CHR ''x'') 8192 =
    Some (0, [(3, 5, zero_padded 4 12 @ zero_padded 2 2 @ ''8192'' @ peek (\<lambda>_. CHR ''x'') 0 8192)])"
proof -
  have "\<And>r. \<exists>m. dma sample_cenv r = r\<lparr>va := m\<rparr>" by (auto simp: sample_cenv_def)
  from udp_value_reply [OF _ _ this, of 2 "\<lambda>_. NUL" 3 5 412 77 "\<lambda>_. CHR ''x''" 8192]
  show ?thesis by simp
qed

text \<open>
  C35: the acknowledgement of the UDP protocol and the value reply of the TCP protocol never fit their
  arrays: each call writes at least one byte past the end.
\<close>

theorem replies_overflow:
  "udp_SendOkCommand junk ok r = None \<and> master_SendBulkValue junk' ok' f val len = None"
proof
  have "6 \<le> length (zero_padded 4 (target_fd r) @ zero_padded 2 (ty r))"
    using zero_padded_min_length [of 4 "target_fd r"] zero_padded_min_length [of 2 "ty r"] by simp
  then have "print_into 6 junk 0 (zero_padded 4 (target_fd r) @ zero_padded 2 (ty r)) = None"
    unfolding print_into_def by simp
  then show "udp_SendOkCommand junk ok r = None" by (simp add: udp_SendOkCommand_def)
  have "print_into 8201 h 8199 [CR, LF] = None" for h by (simp add: print_into_def)
  then show "master_SendBulkValue junk' ok' f val len = None"
    by (simp add: master_SendBulkValue_def split: Option.bind_splits)
qed

text \<open>
  Two datagrams from one address get the same key exactly when the 24 low bits that \<open>malloc\<close> left
  in the field agree.
\<close>

theorem addr_key_depends_on_junk:
  "addr_key junk sa = addr_key junk' sa \<longleftrightarrow> junk mod 2 ^ 24 = junk' mod 2 ^ 24"
proof -
  have "addr_key junk sa = addr_key junk' sa \<longleftrightarrow> (junk * 2 ^ 40) mod 2 ^ 64 = (junk' * 2 ^ 40) mod 2 ^ 64"
    unfolding addr_key_junk [of junk] addr_key_junk [of junk'] to_uint64_def
    by (simp only: mod_eq_dvd_iff) simp
  also have "\<dots> \<longleftrightarrow> (2 ^ 24 * 2 ^ 40 :: int) dvd (junk - junk') * 2 ^ 40"
    by (simp only: mod_eq_dvd_iff left_diff_distrib) simp
  also have "\<dots> \<longleftrightarrow> (2 ^ 24 :: int) dvd junk - junk'" by (simp only: dvd_mult_cancel_right) simp
  finally show ?thesis by (simp only: mod_eq_dvd_iff)
qed

end
