(* ===== verification/UdpThreads.thy ===== *)
theory UdpThreads
  imports UdpProps SpscThreads
begin

text \<open>
  The two threads of \<open>udp_server.cpp\<close> on the ring of \<open>lockfreeq.h\<close> with its single accesses: \<open>main\<close>
  is the producer, the handler the consumer, and each access to the ring is a step. The result is that
  nothing is gained over \<open>udp_run\<close>, where each call on the ring is one step: every state reached here
  corresponds to a state reached there.
\<close>

section \<open>The threads\<close>

text \<open>
  The queue of \<open>net\<close> is not used: the ring is in \<open>ring\<close>. \<open>handling\<close> is the datagram the handler has
  taken off and not yet handled, \<open>arrived\<close> records those received.
\<close>

record udp_system =
  net :: udp
  ring :: "read_data spsc_system"
  handling :: "read_data option"
  arrived :: "read_data list"

inductive udp_thread_step :: "cenv \<Rightarrow> udp_system \<Rightarrow> udp_system \<Rightarrow> bool" for e where
  main_receive: "\<not> stopped (net s) \<Longrightarrow> pushing (net s) = None \<Longrightarrow>
    main_pass rc revents rv junk (net s) = u \<Longrightarrow>
    udp_thread_step e s (s\<lparr>net := u, arrived := arrived s @ held u\<rparr>)"
| main_test: "\<not> stopped (net s) \<Longrightarrow> pushing (net s) = Some d \<Longrightarrow> producer (ring s) = PStart \<Longrightarrow>
    q = shared (ring s) \<Longrightarrow> ((sp_tail q - (sp_head q + 1)) AND sp_mask q) \<ge> 1 \<Longrightarrow>
    udp_thread_step e s (s\<lparr>ring := (ring s)\<lparr>producer := PSlot d (sp_head q)\<rparr>\<rparr>)"
| main_full: "\<not> stopped (net s) \<Longrightarrow> pushing (net s) = Some d \<Longrightarrow> producer (ring s) = PStart \<Longrightarrow>
    q = shared (ring s) \<Longrightarrow> \<not> ((sp_tail q - (sp_head q + 1)) AND sp_mask q) \<ge> 1 \<Longrightarrow>
    udp_thread_step e s s"
| main_write: "\<not> stopped (net s) \<Longrightarrow> producer (ring s) = PSlot d h \<Longrightarrow> q = shared (ring s) \<Longrightarrow>
    udp_thread_step e s (s\<lparr>ring := (ring s)\<lparr>shared := q\<lparr>sp_buffer := (sp_buffer q)(slot (sp_mask q) h := d)\<rparr>,
      producer := PPublish h, pushed := pushed (ring s) @ [d]\<rparr>\<rparr>)"
| main_store: "\<not> stopped (net s) \<Longrightarrow> producer (ring s) = PPublish h \<Longrightarrow>
    udp_thread_step e s (s\<lparr>ring := (ring s)\<lparr>shared := (shared (ring s))\<lparr>sp_head := h + 1\<rparr>, producer := PStart\<rparr>,
      net := (net s)\<lparr>pushing := None\<rparr>\<rparr>)"
| handler_test: "\<not> stopped (net s) \<Longrightarrow> handling s = None \<Longrightarrow> consumer (ring s) = CStart \<Longrightarrow>
    q = shared (ring s) \<Longrightarrow> ((sp_head q - sp_tail q) AND sp_mask q) \<ge> 1 \<Longrightarrow>
    udp_thread_step e s (s\<lparr>ring := (ring s)\<lparr>consumer := CSlot (sp_tail q)\<rparr>\<rparr>)"
| handler_empty: "\<not> stopped (net s) \<Longrightarrow> handling s = None \<Longrightarrow> consumer (ring s) = CStart \<Longrightarrow>
    q = shared (ring s) \<Longrightarrow> \<not> ((sp_head q - sp_tail q) AND sp_mask q) \<ge> 1 \<Longrightarrow>
    udp_thread_step e s s"
| handler_read: "\<not> stopped (net s) \<Longrightarrow> consumer (ring s) = CSlot t \<Longrightarrow> q = shared (ring s) \<Longrightarrow>
    udp_thread_step e s (s\<lparr>ring := (ring s)\<lparr>consumer := CRelease (sp_buffer q (slot (sp_mask q) (sp_tail q))) t\<rparr>\<rparr>)"
| handler_store: "\<not> stopped (net s) \<Longrightarrow> consumer (ring s) = CRelease d t \<Longrightarrow>
    udp_thread_step e s (s\<lparr>ring := (ring s)\<lparr>shared := (shared (ring s))\<lparr>sp_tail := t + 1\<rparr>, consumer := CStart,
      popped := popped (ring s) @ [d]\<rparr>, handling := Some d\<rparr>)"
| handler_submit: "\<not> stopped (net s) \<Longrightarrow> handling s = Some d \<Longrightarrow> handle_data e d (net s) = Some u \<Longrightarrow>
    udp_thread_step e s (s\<lparr>net := u, handling := None\<rparr>)"

definition udp_threads_start :: "udp \<Rightarrow> udp_system" where
  "udp_threads_start s0 = \<lparr>net = s0, ring = spsc_start (req_q s0), handling = None, arrived = []\<rparr>"

text \<open>On the ring every step is a step of its two threads.\<close>

lemma ring_step: "udp_thread_step e s s' \<Longrightarrow> ring s' = ring s \<or> spsc_step (ring s) (ring s')"
  by (induction rule: udp_thread_step.induct) (auto intro: spsc_step.intros)

section \<open>The simulation\<close>

text \<open>
  A call takes effect in the abstract run when its counter is stored. The handler is behind by the
  datagram it has taken off.
\<close>

definition behind :: "cenv \<Rightarrow> udp_system \<Rightarrow> cevent list" where
  "behind e s = (case handling s of None \<Rightarrow> [] | Some d \<Rightarrow> handled e d)"

definition carried :: "udp_system \<Rightarrow> bool" where
  "carried s \<longleftrightarrow> (case producer (ring s) of
      PStart \<Rightarrow> True
    | PSlot x h \<Rightarrow> pushing (net s) = Some x
    | PPublish h \<Rightarrow> pushing (net s) = Some (sp_buffer (shared (ring s)) (slot (sp_mask (shared (ring s))) h)))"

definition same_udp :: "udp \<Rightarrow> udp \<Rightarrow> bool" where
  "same_udp u v \<longleftrightarrow> listen_fd u = listen_fd v \<and> req_map u = req_map v \<and> pushing u = pushing v \<and>
     stopped u = stopped v \<and> addrs u = addrs v \<and> next_addr u = next_addr v"

definition udp_related :: "cenv \<Rightarrow> udp_system \<Rightarrow> read_data list \<times> udp \<Rightarrow> bool" where
  "udp_related e s = (\<lambda>(ds, u). threads_inv 2047 (ring s) \<and> carried s \<and> ds = arrived s \<and> same_udp u (net s) \<and>
     spsc_items (req_q u) = spsc_items (shared (ring s)) \<and> made u = made (net s) @ behind e s \<and>
     bufs u = bufs (net s) - (if handling s = None then 0 else 1) \<and>
     (handling s = None \<or> consumer (ring s) = CStart))"

definition udp_started :: "udp_system \<Rightarrow> bool" where
  "udp_started c \<longleftrightarrow> (\<exists>junk r argv1 s0 port. udp_main_start junk r argv1 = Ret (s0, port) \<and> c = udp_threads_start s0)"

definition all_handleable :: "cenv \<Rightarrow> udp_system \<Rightarrow> bool" where
  "all_handleable e s \<longleftrightarrow> (\<forall>d \<in> set (arrived s). handleable e d)"

definition udp_reached :: "cenv \<Rightarrow> udp_system \<Rightarrow> read_data list \<times> udp \<Rightarrow> bool" where
  "udp_reached e c = (\<lambda>(ds, u). udp_run e (net c) ds u)"

lemma started_inv: "udp_started c \<Longrightarrow> udp_inv e 2047 [] (net c) \<and> c = udp_threads_start (net c)"
  using udp_main_start_inv by (auto simp: udp_started_def udp_threads_start_def)

lemma main_pass_same:
  assumes "same_udp u v"
  shows "same_udp (main_pass rc revents rv junk u) (main_pass rc revents rv junk v)"
    and "req_q (main_pass rc revents rv junk u) = req_q u" and "made (main_pass rc revents rv junk u) = made u"
    and "made (main_pass rc revents rv junk v) = made v"
    and "bufs (main_pass rc revents rv junk u) - bufs u = bufs (main_pass rc revents rv junk v) - bufs v"
  using assms by (auto simp: same_udp_def main_pass_def Let_def split: udp_recv.splits)

lemma carried_idle: "carried s \<Longrightarrow> pushing (net s) = None \<Longrightarrow> producer (ring s) = PStart"
  by (auto simp: carried_def split: producer_pc.splits)

text \<open>\<open>main\<close> receives: the abstract run receives the same.\<close>

lemma match_receive:
  assumes run: "udp_run e s0 ds u" and rel: "udp_related e s (ds, u)" and go: "\<not> stopped (net s)"
    and idle: "pushing (net s) = None" and v: "main_pass rc revents rv junk (net s) = v"
  shows "\<exists>u'. udp_run e s0 (arrived s @ held v) u' \<and>
    udp_related e (s\<lparr>net := v, arrived := arrived s @ held v\<rparr>) (arrived s @ held v, u')"
proof -
  let ?u = "main_pass rc revents rv junk u"
  have same: "same_udp u (net s)" and ds: "ds = arrived s" using rel by (simp_all add: udp_related_def)
  then have u: "\<not> stopped u" "pushing u = None" using go idle by (simp_all add: same_udp_def)
  note m = main_pass_same [OF same, of rc revents rv junk, unfolded v]
  have held: "held ?u = held v" using m(1) by (simp add: held_def same_udp_def)
  have "udp_run e s0 (ds @ held ?u) ?u"
    using udp_run.receive [OF run u refl [of ?u]] by (simp add: held_def)
  moreover have "carried (s\<lparr>net := v, arrived := arrived s @ held v\<rparr>)"
    using carried_idle [of s] rel idle by (simp add: udp_related_def carried_def)
  moreover have "made v = made (net s)" using m(4) .
  moreover have "bufs ?u = bufs v - (if handling s = None then 0 else 1)"
    using m(5) rel by (auto simp: udp_related_def)
  ultimately show ?thesis using rel m(1-3) held ds
    by (intro exI [of _ ?u]) (auto simp: udp_related_def behind_def)
qed

text \<open>\<open>main\<close> publishes: the abstract \<open>push_pass\<close> has room.\<close>

lemma match_store:
  assumes run: "udp_run e s0 ds u" and uinv: "udp_inv e 2047 ds u" and rel: "udp_related e s (ds, u)"
    and go: "\<not> stopped (net s)" and pc: "producer (ring s) = PPublish h"
    and s': "s' = s\<lparr>ring := (ring s)\<lparr>shared := (shared (ring s))\<lparr>sp_head := h + 1\<rparr>, producer := PStart\<rparr>,
      net := (net s)\<lparr>pushing := None\<rparr>\<rparr>"
  shows "\<exists>u'. udp_run e s0 ds u' \<and> udp_related e s' (ds, u')"
proof -
  let ?q = "shared (ring s)" and ?x = "sp_buffer (shared (ring s)) (slot (sp_mask (shared (ring s))) h)"
  have inv: "threads_inv 2047 (ring s)" using rel by (simp add: udp_related_def)
  then have q: "spsc_inv ?q" "spsc_room ?q" "h = sp_head ?q" "spsc_capacity ?q = 2047"
    using pc by (simp_all add: threads_inv_def producer_ok_def)
  have items: "spsc_items (?q\<lparr>sp_head := h + 1\<rparr>) = spsc_items ?q @ [?x]"
    using publish_slot [OF q(1,2)] q(3) by simp
  have d: "pushing u = Some ?x" using rel pc by (simp add: udp_related_def carried_def same_udp_def)
  have u: "spsc_inv (req_q u)" "spsc_capacity (req_q u) = 2047" "\<not> stopped u"
    using uinv rel go by (simp_all add: udp_inv_def udp_related_def same_udp_def)
  have "spsc_items (req_q u) = spsc_items ?q" using rel by (simp add: udp_related_def)
  then have "fst (spsc_enqueue ?x (req_q u))"
    using spsc.enq_accepts_iff [OF u(1), of ?x] u(2) q(2,4) by (simp add: room_iff_items)
  then obtain q' where q': "spsc_enqueue ?x (req_q u) = (True, q')" "spsc_items q' = spsc_items (req_q u) @ [?x]"
    using spsc.enq_contents [OF u(1), of ?x] by (cases "spsc_enqueue ?x (req_q u)") auto
  have u': "push_pass u = u\<lparr>req_q := q', pushing := None\<rparr>" using d q'(1) by (simp add: push_pass_def)
  have "udp_run e s0 ds (push_pass u)" by (rule udp_run.push [OF run u(3)]) (simp add: d)
  moreover have "threads_inv 2047 (ring s')"
    using threads_inv_step [OF spsc_step.push_store [OF pc] inv] by (simp add: s')
  ultimately show ?thesis using rel items q'(2)
    by (intro exI [of _ "push_pass u"]) (auto simp: udp_related_def u' s' carried_def same_udp_def behind_def)
qed

text \<open>The handler takes off: the abstract handler also handles.\<close>

lemma match_take:
  assumes run: "udp_run e s0 ds u" and uinv: "udp_inv e 2047 ds u" and rel: "udp_related e s (ds, u)"
    and go: "\<not> stopped (net s)" and pc: "consumer (ring s) = CRelease d t"
    and ok: "\<forall>d \<in> set ds. handleable e d"
    and s': "s' = s\<lparr>ring := (ring s)\<lparr>shared := (shared (ring s))\<lparr>sp_tail := t + 1\<rparr>, consumer := CStart,
      popped := popped (ring s) @ [d]\<rparr>, handling := Some d\<rparr>"
  shows "\<exists>u'. udp_run e s0 ds u' \<and> udp_related e s' (ds, u')"
proof -
  let ?q = "shared (ring s)"
  have inv: "threads_inv 2047 (ring s)" and idle: "handling s = None" using rel pc by (simp_all add: udp_related_def)
  then obtain xs where q: "spsc_inv ?q" "t = sp_tail ?q" "spsc_items ?q = d # xs"
    using pc by (auto simp: threads_inv_def consumer_ok_def)
  have items: "spsc_items (?q\<lparr>sp_tail := t + 1\<rparr>) = xs" using release_slot(3) [OF q(1,3)] q(2) by simp
  have u: "spsc_inv (req_q u)" "req_map u = (\<lambda>_. None)" "\<not> stopped u" "spsc_items (req_q u) = d # xs"
    using uinv rel go q(3) by (simp_all add: udp_inv_def udp_related_def same_udp_def)
  obtain q' where q': "spsc_dequeue (req_q u) = (Some d, q')" "spsc_items q' = xs"
    using spsc.deq_some [OF u(1,4)] by (cases "spsc_dequeue (req_q u)") auto
  have "d \<in> set ds" using uinv u(4) by (auto simp: udp_inv_def)
  then obtain r out where g: "udp_GetRequest e (rd_fd d) (rd_buf d) (rd_nread d) None (rd_addr d) = Some (r, out)"
    using ok by (auto simp: handleable_def)
  then have r: "r = None" "handled e d = out" using udp_GetRequest_keeps_none by (auto simp: handled_def)
  let ?u = "u\<lparr>req_q := q', made := made u @ out, bufs := bufs u - 1\<rparr>"
  have "request_handler e u = Some ?u"
    using q'(1) u(2) g r(1) by (simp add: request_handler_def handle_data_def)
  then have "udp_run e s0 ds ?u" by (rule udp_run.handle [OF run u(3)])
  moreover have "threads_inv 2047 (ring s')"
    using threads_inv_step [OF spsc_step.pop_store [OF pc] inv] by (simp add: s')
  moreover have "carried s'" using rel by (simp add: udp_related_def carried_def s' cong: producer_pc.case_cong)
  ultimately show ?thesis using rel items q'(2) r(2) idle
    by (intro exI [of _ ?u]) (auto simp: udp_related_def s' same_udp_def behind_def)
qed

text \<open>The handler handles: it catches up.\<close>

lemma match_submit:
  assumes uinv: "udp_inv e 2047 ds u" and rel: "udp_related e s (ds, u)" and busy: "handling s = Some d"
    and v: "handle_data e d (net s) = Some v"
  shows "udp_related e (s\<lparr>net := v, handling := None\<rparr>) (ds, u)"
proof -
  have empty: "req_map (net s) = (\<lambda>_. None)" using uinv rel by (simp add: udp_inv_def udp_related_def same_udp_def)
  then obtain r out where g: "udp_GetRequest e (rd_fd d) (rd_buf d) (rd_nread d) None (rd_addr d) = Some (r, out)"
    using v by (auto simp: handle_data_def Let_def split: option.splits)
  then have r: "r = None" "handled e d = out" using udp_GetRequest_keeps_none by (auto simp: handled_def)
  have "v = (net s)\<lparr>req_map := (\<lambda>_. None), made := made (net s) @ out, bufs := bufs (net s) - 1\<rparr>"
    using v empty g r(1) by (simp add: handle_data_def)
  then show ?thesis using rel busy r(2) empty
    by (auto simp: udp_related_def same_udp_def behind_def carried_def split: producer_pc.splits)
qed

text \<open>The other steps are matched by none: they change neither the items nor what is observed.\<close>

lemma match_internal:
  assumes rel: "udp_related e s (ds, u)" and r: "spsc_step (ring s) r'"
    and items: "spsc_items (shared r') = spsc_items (shared (ring s))" and c: "carried (s\<lparr>ring := r'\<rparr>)"
    and h: "handling s = None \<or> consumer r' = CStart"
  shows "udp_related e (s\<lparr>ring := r'\<rparr>) (ds, u)"
  using rel threads_inv_step [OF r] items c h by (simp add: udp_related_def behind_def)

lemma carried_consumer [simp]: "carried (s\<lparr>ring := (ring s)\<lparr>consumer := k\<rparr>\<rparr>) \<longleftrightarrow> carried s"
  by (simp add: carried_def cong: producer_pc.case_cong)

lemma match_step:
  assumes "udp_thread_step e s s'" and "all_handleable e s'" and "udp_inv e 2047 [] s0"
    and "udp_run e s0 ds u" and "udp_related e s (ds, u)"
  shows "\<exists>ds' u'. udp_run e s0 ds' u' \<and> udp_related e s' (ds', u')"
  using assms
proof (induction rule: udp_thread_step.induct)
  case (main_receive s rc revents rv junk v)
  from match_receive [OF main_receive(6,7) main_receive(1-3)] show ?case by blast
next
  case (main_test s d q)
  note rel = main_test(9)
  have "spsc_step (ring s) ((ring s)\<lparr>producer := PSlot d (sp_head q)\<rparr>)"
    by (rule spsc_step.push_test [OF main_test(3-5)])
  from match_internal [OF rel this] main_test(2,8) rel show ?case
    by (auto simp: carried_def udp_related_def)
next
  case (main_write s d h q)
  note rel = main_write(7)
  have inv: "threads_inv 2047 (ring s)" using rel by (simp add: udp_related_def)
  then have q: "spsc_inv q" "spsc_room q" "h = sp_head q"
    using main_write(2,3) by (simp_all add: threads_inv_def producer_ok_def)
  from match_internal [OF rel spsc_step.push_write [OF main_write(2,3)]] write_slot [OF q(1,2), of d] q(3)
    main_write(2,3,6) rel show ?case
    by (auto simp: carried_def udp_related_def)
next
  case (main_store s h)
  from match_store [OF main_store(5) udp_run_inv [OF main_store(5,4)] main_store(6,1,2) refl] show ?case by blast
next
  case (handler_test s q)
  note rel = handler_test(9)
  from match_internal [OF rel spsc_step.pop_test [OF handler_test(3-5)]] handler_test(2,8) rel show ?case
    by (auto simp: udp_related_def)
next
  case (handler_read s t q)
  note rel = handler_read(7)
  from match_internal [OF rel spsc_step.pop_read [OF handler_read(2,3)]] handler_read(2,6) rel show ?case
    by (auto simp: udp_related_def)
next
  case (handler_store s d t)
  have "\<forall>d \<in> set ds. handleable e d" using handler_store(3,6) by (simp add: udp_related_def all_handleable_def)
  from match_take [OF handler_store(5) udp_run_inv [OF handler_store(5,4)] handler_store(6,1,2) this refl]
  show ?case by blast
next
  case (handler_submit s d v)
  from match_submit [OF udp_run_inv [OF handler_submit(6,5)] handler_submit(7,2,3)] handler_submit(6)
  show ?case by blast
qed blast+

lemma arrived_grows: "udp_thread_step e s s' \<Longrightarrow> set (arrived s) \<subseteq> set (arrived s')"
  by (induction rule: udp_thread_step.induct) auto

interpretation udp_sim: run_simulation udp_started "udp_thread_step e" "all_handleable e"
    "udp_reached e" "udp_related e" for e
proof
  fix c0
  assume "udp_started c0"
  then obtain s0 where s0: "udp_inv e 2047 [] s0" "c0 = udp_threads_start s0"
    using started_inv by blast
  then have "threads_inv 2047 (spsc_start (req_q s0))"
    by (auto simp: udp_inv_def held_def threads_inv_def spsc_start_def producer_ok_def consumer_ok_def pending_def)
  then have "udp_related e c0 ([], s0)" using s0
    by (auto simp: udp_related_def udp_threads_start_def carried_def same_udp_def behind_def spsc_start_def)
  moreover have "udp_reached e c0 ([], s0)"
    using udp_run.start by (simp add: udp_reached_def s0(2) udp_threads_start_def)
  ultimately show "\<exists>a. udp_reached e c0 a \<and> udp_related e c0 a" by blast
next
  fix c c'
  assume "udp_thread_step e c c'" "all_handleable e c'"
  then show "all_handleable e c" using arrived_grows [of e c c'] by (auto simp: all_handleable_def)
next
  fix c c' c0 a
  assume h: "udp_thread_step e c c'" "all_handleable e c'" "udp_started c0" "udp_reached e c0 a" "udp_related e c a"
  obtain ds u where a: "a = (ds, u)" by fastforce
  have "udp_inv e 2047 [] (net c0)" using started_inv [OF h(3)] by blast
  with match_step [OF h(1,2) this, of ds u] h(4,5) show "\<exists>a'. udp_reached e c0 a' \<and> udp_related e c' a'"
    by (auto simp: udp_reached_def a)
qed

section \<open>A run\<close>

text \<open>A datagram passes the empty ring.\<close>

lemma ring_pass:
  assumes s: "\<not> stopped (net s)" "pushing (net s) = Some d" "handling s = None" "ring s = spsc_start q"
    and q: "spsc_inv q" "spsc_items q = []" "0 < spsc_capacity q"
  shows "\<exists>s'. (udp_thread_step e)\<^sup>*\<^sup>* s s' \<and> handling s' = Some d \<and> arrived s' = arrived s"
proof -
  let ?q1 = "q\<lparr>sp_buffer := (sp_buffer q)(slot (sp_mask q) (sp_head q) := d)\<rparr>"
  let ?q2 = "?q1\<lparr>sp_head := sp_head q + 1\<rparr>"
  have room: "spsc_room q" using q by (simp add: room_iff_items)
  have q1: "spsc_inv ?q1" "spsc_room ?q1" "spsc_items ?q1 = []"
    using write_slot [OF q(1) room, of d] q(2) by simp_all
  have q2: "spsc_inv ?q2" "spsc_items ?q2 = [d]"
    using publish_slot [OF q1(1,2), of d] q1(3) by simp_all
  have front: "sp_buffer ?q2 (slot (sp_mask ?q2) (sp_tail ?q2)) = d" by (rule release_slot(1) [OF q2])
  obtain s1 where s1: "s1 = s\<lparr>ring := (ring s)\<lparr>producer := PSlot d (sp_head q)\<rparr>\<rparr>" by blast
  obtain s2 where s2: "s2 = s1\<lparr>ring := (ring s1)\<lparr>shared := ?q1, producer := PPublish (sp_head q),
    pushed := pushed (ring s1) @ [d]\<rparr>\<rparr>" by blast
  obtain s3 where s3: "s3 = s2\<lparr>ring := (ring s2)\<lparr>shared := (shared (ring s2))\<lparr>sp_head := sp_head q + 1\<rparr>,
    producer := PStart\<rparr>, net := (net s2)\<lparr>pushing := None\<rparr>\<rparr>" by blast
  obtain s4 where s4: "s4 = s3\<lparr>ring := (ring s3)\<lparr>consumer := CSlot (sp_tail q)\<rparr>\<rparr>" by blast
  obtain s5 where s5: "s5 = s4\<lparr>ring := (ring s4)\<lparr>consumer := CRelease d (sp_tail q)\<rparr>\<rparr>" by blast
  obtain s6 where s6: "s6 = s5\<lparr>ring := (ring s5)\<lparr>shared := (shared (ring s5))\<lparr>sp_tail := sp_tail q + 1\<rparr>,
    consumer := CStart, popped := popped (ring s5) @ [d]\<rparr>, handling := Some d\<rparr>" by blast
  have r: "shared (ring s) = q" "producer (ring s) = PStart" "consumer (ring s) = CStart"
    using s(4) by (simp_all add: spsc_start_def)
  have 1: "udp_thread_step e s s1" unfolding s1
    by (rule main_test [OF s(1,2)]) (use r test_room [OF q(1)] room in simp_all)
  have f1: "\<not> stopped (net s1)" "shared (ring s1) = q" "producer (ring s1) = PSlot d (sp_head q)"
    "consumer (ring s1) = CStart" "handling s1 = None" "arrived s1 = arrived s"
    using s r by (simp_all add: s1)
  have 2: "udp_thread_step e s1 s2" unfolding s2 by (rule main_write [OF f1(1,3) f1(2) [symmetric]])
  have f2: "\<not> stopped (net s2)" "shared (ring s2) = ?q1" "producer (ring s2) = PPublish (sp_head q)"
    "consumer (ring s2) = CStart" "handling s2 = None" "arrived s2 = arrived s"
    using f1 by (simp_all add: s2)
  have 3: "udp_thread_step e s2 s3" unfolding s3 by (rule main_store [OF f2(1,3)])
  have f3: "\<not> stopped (net s3)" "shared (ring s3) = ?q2" "consumer (ring s3) = CStart" "handling s3 = None"
    "arrived s3 = arrived s"
    using f2 by (simp_all add: s3)
  have t: "sp_tail ?q2 = sp_tail q" by simp
  have "1 \<le> (sp_head ?q2 - sp_tail ?q2) AND sp_mask ?q2"
    by (rule iffD2 [OF test_items [OF q2(1)]]) (simp only: q2(2) list.distinct not_False_eq_True)
  then have 4: "udp_thread_step e s3 s4"
    unfolding s4 t [symmetric] by (rule handler_test [OF f3(1,4,3) f3(2) [symmetric]])
  have f4: "\<not> stopped (net s4)" "shared (ring s4) = ?q2" "consumer (ring s4) = CSlot (sp_tail q)"
    "arrived s4 = arrived s"
    using f3 by (simp_all add: s4)
  have 5: "udp_thread_step e s4 s5"
    using handler_read [OF f4(1,3) f4(2) [symmetric], of e] unfolding front s5 .
  have f5: "\<not> stopped (net s5)" "consumer (ring s5) = CRelease d (sp_tail q)" "arrived s5 = arrived s"
    using f4 by (simp_all add: s5)
  have 6: "udp_thread_step e s5 s6" unfolding s6 by (rule handler_store [OF f5(1,2)])
  note path = r_into_rtranclp [where r = "udp_thread_step e", OF 1]
  note path = rtranclp.rtrancl_into_rtrancl [where r = "udp_thread_step e", OF path 2]
  note path = rtranclp.rtrancl_into_rtrancl [where r = "udp_thread_step e", OF path 3]
  note path = rtranclp.rtrancl_into_rtrancl [where r = "udp_thread_step e", OF path 4]
  note path = rtranclp.rtrancl_into_rtrancl [where r = "udp_thread_step e", OF path 5]
  note path = rtranclp.rtrancl_into_rtrancl [where r = "udp_thread_step e", OF path 6]
  have "handling s6 = Some d" "arrived s6 = arrived s" using f5(3) by (simp_all add: s6)
  then show ?thesis using path by blast
qed

lemma sample_threads:
  "\<exists>s0 s. udp_main_start (\<lambda>_. sample_datagram) sample_setup (Some (dec 12345)) = Ret (s0, 12345) \<and>
     (udp_thread_step e)\<^sup>*\<^sup>* (udp_threads_start s0) s \<and> handling s = Some sample_datagram \<and>
     arrived s = [sample_datagram]"
proof -
  obtain s0 where s0: "udp_main_start (\<lambda>_. sample_datagram) sample_setup (Some (dec 12345)) = Ret (s0, 12345)"
    "listen_fd s0 = 3" "pushing s0 = None" "\<not> stopped s0" "next_addr s0 = 0" using sample_start by blast
  have inv: "udp_inv e 2047 [] s0" by (rule udp_main_start_inv [OF s0(1)])
  obtain u where u: "main_pass 1 1 (RecvFrom 22 (poke (\<lambda>_. NUL) 0 (datagram 412 2 77 [])) (\<lambda>_. NUL)) 0 s0 = u"
    by blast
  then have p: "pushing u = Some sample_datagram" "\<not> stopped u"
    using s0 by (auto simp: main_pass_def Let_def sample_datagram_def)
  let ?c = "udp_threads_start s0" and ?s = "(udp_threads_start s0)\<lparr>net := u, arrived := [sample_datagram]\<rparr>"
  have c: "net ?c = s0" "arrived ?c = []" by (simp_all add: udp_threads_start_def)
  have "udp_thread_step e ?c (?c\<lparr>net := u, arrived := arrived ?c @ held u\<rparr>)"
    by (rule main_receive) (use s0(3,4) u c in simp_all)
  then have step: "udp_thread_step e ?c ?s" using p(1) by (simp add: c(2) held_def)
  have s: "\<not> stopped (net ?s)" "pushing (net ?s) = Some sample_datagram" "handling ?s = None"
    "ring ?s = spsc_start (req_q s0)" "arrived ?s = [sample_datagram]"
    using p by (simp_all add: udp_threads_start_def)
  have q: "spsc_inv (req_q s0)" "spsc_items (req_q s0) = []" "0 < spsc_capacity (req_q s0)"
    using inv by (auto simp: udp_inv_def)
  from ring_pass [OF s(1-4) q, of e] s(5) obtain s' where
    "(udp_thread_step e)\<^sup>*\<^sup>* ?s s'" "handling s' = Some sample_datagram" "arrived s' = [sample_datagram]"
    by auto
  then show ?thesis using s0(1) converse_rtranclp_into_rtranclp [where r = "udp_thread_step e", OF step] by blast
qed

section \<open>Properties\<close>

text \<open>
  C11: however the single accesses of \<open>main\<close> and the handler to the ring interleave, the state is one
  of \<open>udp_run\<close>, in which each call on the ring is one step: the same datagrams received, queued and held,
  and the same requests submitted but for those of the datagram the handler has just taken off. This
  holds as long as no datagram that arrives has a key length, as its two digits give it, of more than 18:
  the loop over the digits of the key overflows beyond.
\<close>

theorem udp_threads_refine:
  assumes "udp_main_start junk r argv1 = Ret (s0, port)"
    and "(udp_thread_step e)\<^sup>*\<^sup>* (udp_threads_start s0) s"
    and "list_all (\<lambda>d. two_digits (rd_buf d) 6 \<le> 18) (arrived s)"
  shows "\<exists>u. udp_run e s0 (arrived s) u \<and> spsc_items (req_q u) = spsc_items (shared (ring s)) \<and>
    held u = held (net s) \<and> stopped u = stopped (net s) \<and> req_map u = req_map (net s) \<and>
    made u = made (net s) @ (case handling s of None \<Rightarrow> [] | Some d \<Rightarrow> handled e d)"
proof -
  have "all_handleable e s" using assms(3) by (auto simp: all_handleable_def list_all_iff handleable_two_digits)
  moreover have "udp_started (udp_threads_start s0)" unfolding udp_started_def using assms(1) by blast
  ultimately obtain ds u where "udp_reached e (udp_threads_start s0) (ds, u)" "udp_related e s (ds, u)"
    using udp_sim.reach_related [OF assms(2)] by force
  then show ?thesis
    by (intro exI [of _ u]) (auto simp: udp_reached_def udp_threads_start_def udp_related_def same_udp_def held_def behind_def)
qed

theorem udp_threads_refine_witness:
  "\<exists>s0 s u. (udp_thread_step sample_cenv)\<^sup>*\<^sup>* (udp_threads_start s0) s \<and> handling s = Some sample_datagram \<and>
     udp_run sample_cenv s0 [sample_datagram] u \<and> made u = made (net s) @ handled sample_cenv sample_datagram"
proof -
  obtain s0 s where s: "udp_main_start (\<lambda>_. sample_datagram) sample_setup (Some (dec 12345)) = Ret (s0, 12345)"
    "(udp_thread_step sample_cenv)\<^sup>*\<^sup>* (udp_threads_start s0) s" "handling s = Some sample_datagram"
    "arrived s = [sample_datagram]"
    using sample_threads by blast
  have "list_all (\<lambda>d. two_digits (rd_buf d) 6 \<le> 18) (arrived s)" by (simp add: s(4) sample_key_digits)
  from udp_threads_refine [OF s(1,2) this] s show ?thesis by auto
qed

end
