(* ===== verification/Batch.thy ===== *)
theory Batch
  imports System
begin

text \<open>
  Pipelining: a client sends any number of \<open>get\<close> and \<open>set\<close> commands at once. All of them are executed
  and answered, but not in the order of the commands: \<open>on_read\<close> sends the replies to the \<open>set\<close>s, and
  the answering thread those to the \<open>get\<close>s later.
\<close>

section \<open>Commands\<close>

text \<open>A command with its name in any letter case, the four-byte prefix and the number of its key.\<close>

datatype cmd = Get "byte list" "byte list" nat | Set "byte list" "byte list" nat "byte list"

fun words :: "cmd \<Rightarrow> byte list list" where
  "words (Get name pre n) = [name, pre @ dec n]"
| "words (Set name pre n v) = [name, pre @ dec n, v]"

fun cmd_ok :: "cmd \<Rightarrow> bool" where
  "cmd_ok (Get name pre n) = (list_all2 same_letter name ''get'' \<and> length pre = 4 \<and> int n \<le> INT_MAX)"
| "cmd_ok (Set name pre n v) = (list_all2 same_letter name ''set'' \<and> length pre = 4 \<and> int n \<le> INT_MAX \<and>
     int (length v) \<le> DMA_SIZE)"

fun is_set :: "cmd \<Rightarrow> bool" where
  "is_set (Get name pre n) = False"
| "is_set (Set name pre n v) = True"

fun cmd_key :: "cmd \<Rightarrow> nat" where
  "cmd_key (Get name pre n) = n"
| "cmd_key (Set name pre n v) = n"

definition input_of :: "cmd list \<Rightarrow> byte list" where
  "input_of ks = concat (map (\<lambda>k. resp_command (words k)) ks)"

definition set_replies :: "cmd list \<Rightarrow> byte list" where
  "set_replies ks = concat (map (\<lambda>k. ''+OK'' @ [CR, LF]) (filter is_set ks))"

definition get_reply :: "byte list" where
  "get_reply = ''$8192'' @ [CR, LF] @ replicate 8192 NUL @ [CR, LF]"

text \<open>The request that a command submits.\<close>

definition request_for :: "nat \<Rightarrow> cmd \<Rightarrow> req \<Rightarrow> bool" where
  "request_for cid k r \<longleftrightarrow> req_client r = Some cid \<and> req_type r = (if is_set k then 1 else 2) \<and>
     req_key r = int (cmd_key k) + 1"

lemma input_of_simps [simp]:
  "input_of [] = []" "input_of (k # ks) = resp_command (words k) @ input_of ks"
  by (simp_all add: input_of_def)

lemma set_replies_simps [simp]:
  "set_replies [] = []" "set_replies (k # ks) = (if is_set k then ''+OK'' @ [CR, LF] else []) @ set_replies ks"
  by (simp_all add: set_replies_def)

lemma length_set_replies: "length (set_replies ks) = 5 * length (filter is_set ks)"
  by (induction ks) simp_all

lemma length_input_of: "length ks \<le> length (input_of ks)"
  by (induction ks) (simp_all add: resp_command_def)

section \<open>Executing them\<close>

lemma cmd_run:
  assumes inv: "parser_inv c" "output_inv c" "output_len c + (if is_set k then 5 else 0) \<le> OUTPUT_BUFSIZE"
    and u: "unread c = resp_command (words k) @ rest" and k: "cmd_ok k"
    and engine: "\<forall>es. alloc_mem e es \<noteq> None" "\<forall>es. lr_make_req e es \<noteq> - 1"
  shows "\<exists>c1 c2 w2 r. client_read_command c = Some (None, c1) \<and> exec_command e cid c1 w = Ret (None, c2, w2) \<and>
    unread c2 = rest \<and> input_same c1 c2 \<and> output_inv c2 \<and> output_offset c2 = output_offset c \<and>
    output_bytes c2 = output_bytes c @ (if is_set k then ''+OK'' @ [CR, LF] else []) \<and>
    output_len c2 = output_len c + (if is_set k then 5 else 0) \<and> output_valid c2 = (output_valid c \<or> is_set k) \<and>
    submitted (trace w2) = submitted (trace w) @ [r] \<and> request_for cid k r"
proof (cases k)
  case (Get name pre n)
  then show ?thesis using get_run [OF inv(1), of name pre n rest e cid w] inv(2) u k engine(2)
    by (fastforce simp: request_for_def)
next
  case (Set name pre n v)
  obtain m where m: "alloc_mem e (trace w) = Some m" using engine(1) by auto
  show ?thesis using set_run [OF inv(1,2) _ _ _ _ _ _ m engine(2), of name pre n v rest cid] inv(3) u k Set
    by (fastforce simp: request_for_def)
qed

lemma same_drained:
  assumes "input_same c1 c2" and "parser_inv c1"
  shows "parser_inv c2" "buf_idx c2 = buf_idx c1" "buf_len c2 = buf_len c1" "unread c2 = unread c1"
  using assms input_same_inv [OF assms] by (simp_all add: input_same_def unread_def)

text \<open>The loop over the commands, up to the one that is incomplete: nothing.\<close>

lemma batch_exec:
  assumes "parser_inv c" and "output_inv c" and "unread c = input_of ks" and "ks = [] \<longrightarrow> buf_idx c = 0"
    and "\<forall>k \<in> set ks. cmd_ok k" and "length ks < n"
    and "output_len c + 5 * int (length (filter is_set ks)) \<le> OUTPUT_BUFSIZE"
    and engine: "\<forall>es. alloc_mem e es \<noteq> None" "\<forall>es. lr_make_req e es \<noteq> - 1"
  shows "\<exists>c' w' rs. client_exec_commands n e cid c w = Ret (True, c', w') \<and> parser_inv c' \<and> output_inv c' \<and>
    buf_idx c' = 0 \<and> buf_len c' = 0 \<and> output_offset c' = output_offset c \<and>
    output_bytes c' = output_bytes c @ set_replies ks \<and>
    output_len c' = output_len c + 5 * int (length (filter is_set ks)) \<and>
    output_valid c' = (output_valid c \<or> filter is_set ks \<noteq> []) \<and>
    submitted (trace w') = submitted (trace w) @ rs \<and> list_all2 (request_for cid) ks rs"
  using assms(1-7)
proof (induction ks arbitrary: c w n)
  case Nil
  obtain m where n: "n = Suc m" using Nil.prems(6) by (cases n) auto
  have len: "buf_len c = 0" by (rule unread_empty) (use Nil.prems in simp_all)
  have "client_read_command c = Some (Some ERR_INCOMPLETE, c\<lparr>args_len := 0\<rparr>)"
    using len by (simp add: client_read_command_def Let_def parser_size_t [OF Nil.prems(1)])
  then have "client_exec_commands n e cid c w = Ret (True, c\<lparr>args_len := 0\<rparr>, w)" by (simp add: n)
  then show ?case using Nil.prems len
    by (intro exI [of _ "c\<lparr>args_len := 0\<rparr>"] exI [of _ w] exI [of _ "[]"])
      (simp add: parser_inv_def output_inv_def output_bytes_def)
next
  case (Cons k ks)
  obtain m where n: "n = Suc m" "length ks < m" using Cons.prems(6) by (cases n) auto
  have room: "output_len c + (if is_set k then 5 else 0) \<le> OUTPUT_BUFSIZE" using Cons.prems(7) by auto
  have u: "unread c = resp_command (words k) @ input_of ks" using Cons.prems(3) by simp
  obtain c1 c2 w2 r where run: "client_read_command c = Some (None, c1)" "exec_command e cid c1 w = Ret (None, c2, w2)"
    "unread c2 = input_of ks" "input_same c1 c2" "output_inv c2" "output_offset c2 = output_offset c"
    "output_bytes c2 = output_bytes c @ (if is_set k then ''+OK'' @ [CR, LF] else [])"
    "output_len c2 = output_len c + (if is_set k then 5 else 0)" "output_valid c2 = (output_valid c \<or> is_set k)"
    "submitted (trace w2) = submitted (trace w) @ [r]" "request_for cid k r"
    using cmd_run [OF Cons.prems(1,2) room u _ engine, of cid w] Cons.prems(5) by auto
  have inv1: "parser_inv c1" by (rule parsed_facts(1) [OF Cons.prems(1) read_command_facts [OF Cons.prems(1) run(1)]])
  note d = same_drained [OF run(4) inv1]
  have drained: "ks = [] \<longrightarrow> buf_idx c2 = 0"
    using read_drained(2) [OF Cons.prems(1) run(1)] run(3) d(2,4) by simp
  have room2: "output_len c2 + 5 * int (length (filter is_set ks)) \<le> OUTPUT_BUFSIZE"
    using Cons.prems(7) run(8) by (cases "is_set k") simp_all
  from Cons.IH [OF d(1) run(5,3) drained _ n(2) room2, of w2] Cons.prems(5) obtain c' w' rs where
    ih: "client_exec_commands m e cid c2 w2 = Ret (True, c', w')" "parser_inv c'" "output_inv c'"
      "buf_idx c' = 0" "buf_len c' = 0" "output_offset c' = output_offset c2"
      "output_bytes c' = output_bytes c2 @ set_replies ks"
      "output_len c' = output_len c2 + 5 * int (length (filter is_set ks))"
      "output_valid c' = (output_valid c2 \<or> filter is_set ks \<noteq> [])"
      "submitted (trace w') = submitted (trace w2) @ rs" "list_all2 (request_for cid) ks rs"
    by auto
  have "client_exec_commands n e cid c w = Ret (True, c', w')" using run(1,2) ih(1) by (simp add: n(1))
  then show ?case using ih run
    by (intro exI [of _ c'] exI [of _ w'] exI [of _ "r # rs"]) auto
qed

section \<open>Reading them\<close>

text \<open>After the loop the replies to the \<open>set\<close>s go out, after those that were pending.\<close>

lemma batch_read:
  assumes inv: "parser_inv c" "output_inv c" and idle: "unread c = []" "\<not> output_valid c" "output_offset c = 0"
    and ks: "ks \<noteq> []" "\<forall>k \<in> set ks. cmd_ok k" and got: "buf_idx c + int (length (input_of ks)) \<le> BUFSIZE"
    and room: "output_len c + 5 * int (length (filter is_set ks)) \<le> OUTPUT_BUFSIZE"
    and engine: "\<forall>es. alloc_mem e es \<noteq> None" "\<forall>es. lr_make_req e es \<noteq> - 1"
    and ws: "\<forall>r \<in> set ws. \<exists>n. r = Wrote n" "output_len c + 5 * int (length (filter is_set ks)) \<le> int (taken ws)"
  shows "\<exists>out c' w' ws' rs. on_read e cid c w (Received (input_of ks)) ws = Ret (None, out, c', w', ws') \<and>
    output_inv c' \<and> submitted (trace w') = submitted (trace w) @ rs \<and> list_all2 (request_for cid) ks rs \<and>
    output_len c' = (if filter is_set ks = [] then output_len c else 0) \<and>
    out @ output_bytes c' = output_bytes c @ set_replies ks \<and> (filter is_set ks = [] \<longrightarrow> out = [])"
proof -
  have len: "buf_len c = 0" by (rule unread_empty [OF inv(1) idle(1)])
  have fits: "take (nat (to_size_t (BUFSIZE - buf_idx c - buf_len c))) (input_of ks) = input_of ks"
    using inv(1) got len by (simp add: to_size_t_id parser_inv_def BUFSIZE_def)
  obtain c1 where c1: "store_received (input_of ks) c = Some c1"
    using inv(1) got len by (simp add: store_received_def get_buffer_def parser_inv_def)
  have s: "parser_inv c1" "unread c1 = input_of ks" using store_received_unread [OF inv(1) c1] idle(1) by simp_all
  have out1: "output_bytes c1 = output_bytes c" "output_len c1 = output_len c" "output_inv c1" "\<not> output_valid c1"
    "output_offset c1 = 0"
    using c1 inv(2) idle by (auto simp: store_received_def output_bytes_def output_inv_def split: if_splits)
  have fuel: "length ks < exec_fuel"
    using length_input_of [of ks] got inv(1) by (simp add: exec_fuel_def parser_inv_def BUFSIZE_def)
  obtain c2 w2 rs where run: "client_exec_commands exec_fuel e cid c1 w = Ret (True, c2, w2)" "output_inv c2"
    "buf_idx c2 = 0" "buf_len c2 = 0" "output_offset c2 = 0" "output_bytes c2 = output_bytes c @ set_replies ks"
    "output_len c2 = output_len c + 5 * int (length (filter is_set ks))" "output_valid c2 = (filter is_set ks \<noteq> [])"
    "submitted (trace w2) = submitted (trace w) @ rs" "list_all2 (request_for cid) ks rs"
    using batch_exec [OF s(1) out1(3) s(2) _ ks(2) fuel _ engine, of cid w] out1 ks(1) room by auto
  have comp: "compact c2 = Ret c2" using run(3,4) by (simp add: compact_def BUFSIZE_def)
  have nonempty: "input_of ks \<noteq> []" using ks(1) by (cases ks) (simp_all add: resp_command_def)
  then have read: "on_read e cid c w (Received (input_of ks)) ws = on_data e cid c1 w ws"
    by (simp add: on_read_def fits c1)
  show ?thesis
  proof (cases "filter is_set ks = []")
    case True
    then have "set_replies ks = []" by (simp add: set_replies_def)
    moreover have "on_data e cid c1 w ws = Ret (None, [], c2, w2, ws)"
      using run(1,8) comp True by (simp add: on_data_def)
    ultimately show ?thesis using read run True
      by (intro exI [of _ "[]"] exI [of _ c2] exI [of _ w2] exI [of _ ws] exI [of _ rs]) simp
  next
    case False
    have "0 < int (length (filter is_set ks))" using False by (simp only: of_nat_0_less_iff length_greater_0_conv not_False_eq_True)
    then have pos: "0 < output_len c2" using run(7) inv(2) unfolding output_inv_def by linarith
    have "\<exists>c3 ws'. client_flush_offset 0 c2 ws =
        Ret (peek (out_buf c2) 0 (nat (output_len c2 - 0)), c3, ws') \<and> (0 < output_len c2 \<longrightarrow> c3 = c2\<lparr>output_len := 0\<rparr>)"
      by (rule client_flush_all [OF _ _ run(2) ws(1)]) (use pos run(7) ws(2) in simp_all)
    then obtain ws' where flush: "client_flush_offset 0 c2 ws = Ret (output_bytes c2, c2\<lparr>output_len := 0\<rparr>, ws')"
      using pos by (auto simp: output_bytes_def)
    let ?c = "(client_clear (c2\<lparr>output_len := 0\<rparr>))\<lparr>time_valid := 1, output_valid := False\<rparr>"
    have "on_data e cid c1 w ws = Ret (None, output_bytes c2, ?c, w2, ws')"
      using run(1,5,8) comp False flush by (simp add: on_data_def)
    then show ?thesis using read run False
      by (intro exI [of _ "output_bytes c2"] exI [of _ ?c] exI [of _ w2] exI [of _ ws'] exI [of _ rs])
        (simp add: client_clear_def output_inv_def output_bytes_def OUTPUT_BUFSIZE_def)
  qed
qed

section \<open>Finishing them\<close>

text \<open>One request: a \<open>set\<close> is freed, a \<open>get\<close> goes through the queue and is answered.\<close>

lemma finish_set:
  assumes s: "engine s = r # rs" "req_type r = 1"
  shows "\<exists>w'. server_step e s (s\<lparr>wld := w', engine := rs, finished := finished s @ [r]\<rparr>)"
proof -
  have "server_step e s (s\<lparr>wld := free_req r (wld s), engine := [] @ rs, endq := endq s,
      finished := (if req_type r = 1 then finished s @ [r] else finished s)\<rparr>)"
    by (rule step_done [where r = r]) (simp_all add: s end_req_def)
  then show ?thesis using s(2) by (intro exI [of _ "free_req r (wld s)"]) simp
qed

lemma finish_get:
  assumes s: "engine s = r # rs" "req_type r = 2" "req_client r = Some i" "answering s = None"
    and q: "mpmc_inv (endq s)" "mpmc_items (endq s) = []"
    and c: "conns s i = Some c" "output_inv c" "output_len c + 8201 \<le> OUTPUT_BUFSIZE"
  shows "\<exists>s' c'. (server_step e)\<^sup>*\<^sup>* s s' \<and> engine s' = rs \<and> answering s' = None \<and>
    mpmc_inv (endq s') \<and> mpmc_items (endq s') = [] \<and> conns s' i = Some c' \<and> output_len c' = 0 \<and>
    finished s' = finished s @ [r] \<and> sent s' i = sent s i @ output_bytes c @ get_reply"
proof -
  obtain q1 where q1: "mpmc_enq r (endq s) = (True, q1)" "mpmc_inv q1" "mpmc_items q1 = [r]"
    using mpmc_enq_idle [OF q] by blast
  obtain q2 where q2: "mpmc_deq q1 = (Some r, q2)" "mpmc_inv q2" "mpmc_items q2 = []"
    using mpmc.deq_item [OF q1(2,3)] by blast
  let ?ws = "[Wrote (nat (output_len c + 8201))]"
  have "0 \<le> output_len c" using c(2) by (simp add: output_inv_def)
  then obtain c' ws' where ans: "answer NUL True r c (wld s) ?ws =
      Ret (output_bytes c @ get_reply, c', free_req r (wld s), ws')" "output_len c' = 0"
    using get_answer_run [OF c(2,3) s(2), of ?ws NUL True "wld s"] by (auto simp: get_reply_def)
  let ?s1 = "s\<lparr>wld := wld s, engine := [] @ rs, endq := q1, finished := (if req_type r = 1 then finished s @ [r] else finished s)\<rparr>"
  have s1: "server_step e s ?s1"
    by (rule step_done [where r = r]) (simp_all add: end_req_def s(1,2) q1(1))
  let ?s2 = "?s1\<lparr>endq := q2, answering := Some r\<rparr>"
  have s2: "server_step e ?s1 ?s2" by (rule step_take) (simp_all add: s(4) q2(1))
  let ?s3 = "?s2\<lparr>conns := (conns ?s2)(i \<mapsto> c'), wld := free_req r (wld s), answering := None,
    finished := finished ?s2 @ [r], sent := (sent ?s2)(i := sent ?s2 i @ output_bytes c @ get_reply)\<rparr>"
  have s3: "server_step e ?s2 ?s3"
    by (rule step_answer [where r = r and c = c and ws = ?ws and ws' = ws'])
      (use ans(1) s(3) c(1) in \<open>simp_all add: end_req_q_handler_def\<close>)
  show ?thesis using server_steps [OF s1 s2 s3] ans(2) q2(2,3) s(2)
    by (intro exI [of _ ?s3] exI [of _ c']) simp
qed

text \<open>All requests, in the order in which they were submitted.\<close>

lemma finish_all:
  assumes "list_all2 (request_for i) ks rs" and "engine s = rs" and "answering s = None"
    and "mpmc_inv (endq s)" and "mpmc_items (endq s) = []"
    and "conns s i = Some c" and "output_inv c" and "output_len c + 8201 \<le> OUTPUT_BUFSIZE"
  shows "\<exists>s'. (server_step e)\<^sup>*\<^sup>* s s' \<and> engine s' = [] \<and> mpmc_items (endq s') = [] \<and> answering s' = None \<and>
    finished s' = finished s @ rs \<and>
    sent s' i = sent s i @ (if \<forall>k \<in> set ks. is_set k then [] else output_bytes c) @
      concat (map (\<lambda>k. get_reply) (filter (\<lambda>k. \<not> is_set k) ks))"
  using assms
proof (induction ks rs arbitrary: s c rule: list_all2_induct)
  case Nil
  then show ?case by (intro exI [of _ s]) simp
next
  case (Cons k ks r rs)
  show ?case
  proof (cases "is_set k")
    case True
    obtain w' where step: "server_step e s (s\<lparr>wld := w', engine := rs, finished := finished s @ [r]\<rparr>)" (is "server_step e s ?s")
      using finish_set [OF Cons.prems(1)] Cons.hyps(1) True by (auto simp: request_for_def)
    obtain s' where s': "(server_step e)\<^sup>*\<^sup>* ?s s'" "engine s' = []" "mpmc_items (endq s') = []" "answering s' = None"
      "finished s' = finished ?s @ rs"
      "sent s' i = sent ?s i @ (if \<forall>k \<in> set ks. is_set k then [] else output_bytes c) @
        concat (map (\<lambda>k. get_reply) (filter (\<lambda>k. \<not> is_set k) ks))"
      using Cons.IH [of ?s c] Cons.prems by auto
    show ?thesis using converse_rtranclp_into_rtranclp [OF step s'(1)] s' True by (intro exI [of _ s']) simp
  next
    case False
    then have r: "req_type r = 2" "req_client r = Some i" using Cons.hyps(1) by (simp_all add: request_for_def)
    obtain s1 c1 where s1: "(server_step e)\<^sup>*\<^sup>* s s1" "engine s1 = rs" "answering s1 = None" "mpmc_inv (endq s1)"
      "mpmc_items (endq s1) = []" "conns s1 i = Some c1" "output_len c1 = 0" "finished s1 = finished s @ [r]"
      "sent s1 i = sent s i @ output_bytes c @ get_reply"
      using finish_get [OF Cons.prems(1) r Cons.prems(2-7)] by blast
    have out: "output_inv c1" "output_bytes c1 = []" "output_len c1 + 8201 \<le> OUTPUT_BUFSIZE"
      using s1(7) by (simp_all add: output_inv_def output_bytes_def OUTPUT_BUFSIZE_def)
    obtain s' where s': "(server_step e)\<^sup>*\<^sup>* s1 s'" "engine s' = []" "mpmc_items (endq s') = []" "answering s' = None"
      "finished s' = finished s1 @ rs"
      "sent s' i = sent s1 i @ concat (map (\<lambda>k. get_reply) (filter (\<lambda>k. \<not> is_set k) ks))"
      using Cons.IH [OF s1(2-6) out(1,3)] out(2) by auto
    show ?thesis using rtranclp_trans [OF s1(1) s'(1)] s' s1(8,9) False by (intro exI [of _ s']) simp
  qed
qed

section \<open>Properties\<close>

text \<open>
  C4: an idle server serves any number of \<open>get\<close> and \<open>set\<close> commands sent at once: there is a run after
  which the server is idle, the request of every command is finished, and exactly the pending replies
  and one reply per command have been sent; but the \<open>set\<close>s are answered first and the \<open>get\<close>s after
  them, whatever the order of the commands. The commands have arrived in full and are executed by one
  \<open>on_read\<close>, which is one step here.
\<close>

theorem batch_served:
  assumes q: "mpmc_new js jd 4096 = Some q" and s: "server_reachable e q s"
    and free: "engine s = []" "mpmc_items (endq s) = []" "answering s = None" and c: "conns s i = Some c"
    and inv: "parser_inv c" "output_inv c" and idle: "unread c = []" "\<not> output_valid c" "output_offset c = 0"
    and ks: "ks \<noteq> []" "\<forall>k \<in> set ks. cmd_ok k" and got: "buf_idx c + int (length (input_of ks)) \<le> BUFSIZE"
    and room: "output_len c + 5 * int (length ks) + 8201 \<le> OUTPUT_BUFSIZE"
    and engine: "\<forall>es. alloc_mem e es \<noteq> None" "\<forall>es. lr_make_req e es \<noteq> - 1"
    and ws: "\<forall>r \<in> set ws. \<exists>n. r = Wrote n" "output_len c + 5 * int (length ks) \<le> int (taken ws)"
  shows "\<exists>out c' w' ws' s' rs. on_read e i c (wld s) (Received (input_of ks)) ws = Ret (None, out, c', w', ws') \<and>
    (server_step e)\<^sup>*\<^sup>* (after_read i out c' w' s) s' \<and>
    engine s' = [] \<and> mpmc_items (endq s') = [] \<and> answering s' = None \<and>
    finished s' = finished s @ rs \<and> list_all2 (request_for i) ks rs \<and>
    sent s' i = sent s i @ output_bytes c @ set_replies ks @
      concat (map (\<lambda>k. get_reply) (filter (\<lambda>k. \<not> is_set k) ks))"
proof -
  have few: "int (length (filter is_set ks)) \<le> int (length ks)" by simp
  have pos: "0 \<le> output_len c" using inv(2) by (simp add: output_inv_def)
  obtain out c' w' ws' rs where r: "on_read e i c (wld s) (Received (input_of ks)) ws = Ret (None, out, c', w', ws')"
    and c': "output_inv c'" "output_len c' = (if filter is_set ks = [] then output_len c else 0)"
    and w': "submitted (trace w') = submitted (trace (wld s)) @ rs" "list_all2 (request_for i) ks rs"
    and out: "out @ output_bytes c' = output_bytes c @ set_replies ks"
    using batch_read [OF inv idle ks got _ engine ws(1)] few room ws(2) by (smt (verit))
  let ?s = "after_read i out c' w' s"
  have qinv: "mpmc_inv (endq s)" using server_reachable_inv [OF s q] by (simp add: server_inv_def)
  have room': "output_len c' + 8201 \<le> OUTPUT_BUFSIZE" using c'(2) room pos by (auto split: if_splits)
  have start: "engine ?s = rs" "answering ?s = None" "mpmc_inv (endq ?s)" "mpmc_items (endq ?s) = []"
    "conns ?s i = Some c'" "sent ?s i = sent s i @ out" "finished ?s = finished s"
    using free w'(1) qinv by (simp_all add: after_read_def)
  obtain s' where s': "(server_step e)\<^sup>*\<^sup>* ?s s'" "engine s' = []" "mpmc_items (endq s') = []" "answering s' = None"
    "finished s' = finished ?s @ rs" "sent s' i = sent ?s i @ (if \<forall>k \<in> set ks. is_set k then [] else output_bytes c') @
      concat (map (\<lambda>k. get_reply) (filter (\<lambda>k. \<not> is_set k) ks))"
    using finish_all [OF w'(2) start(1-5) c'(1) room'] by blast
  have "filter is_set ks \<noteq> []" if "\<forall>k \<in> set ks. is_set k" using that ks(1) by (cases ks) simp_all
  then have "output_bytes c' = []" if "\<forall>k \<in> set ks. is_set k" using that c'(2) by (simp add: output_bytes_def)
  then have "out @ (if \<forall>k \<in> set ks. is_set k then [] else output_bytes c') = output_bytes c @ set_replies ks"
    using out by auto
  then have "sent s' i = sent s i @ output_bytes c @ set_replies ks @
      concat (map (\<lambda>k. get_reply) (filter (\<lambda>k. \<not> is_set k) ks))"
    using s'(6) start(6) by (metis append.assoc)
  then show ?thesis using r s'(1-5) start(7) w'(2) by auto
qed

text \<open>A \<open>get\<close> followed by a \<open>set\<close>: the \<open>set\<close> is answered first.\<close>

theorem batch_served_witness:
  "\<exists>q s out c' w' s'. server_reachable sample_env q s \<and> conns s 5 \<noteq> None \<and>
    (server_step sample_env)\<^sup>*\<^sup>* (after_read 5 out c' w' s) s' \<and> length (finished s') = 2 \<and>
    sent s' 5 = ''+OK'' @ [CR, LF] @ get_reply"
proof -
  let ?ks = "[Get ''GET'' ''user'' 7, Set ''SET'' ''user'' 8 ''v'']"
  obtain q where q: "mpmc_new (\<lambda>_. 0) (\<lambda>_. alloc_req) 4096 = Some q" "mpmc_items q = []"
    using sample_queue by blast
  obtain s c where s: "server_reachable sample_env q s" "engine s = []" "mpmc_items (endq s) = []" "answering s = None" "conns s 5 = Some c"
    "parser_inv c" "output_inv c" "unread c = []" "\<not> output_valid c" "output_offset c = 0"
    and c: "buf_idx c = 0" "output_len c = 0" "finished s = []" "sent s 5 = []"
    using sample_open [OF q, of sample_env] by blast
  have ok: "\<forall>k \<in> set ?ks. cmd_ok k" by (simp add: same_letter_def c_char_def INT_MAX_def DMA_SIZE_def)
  have len: "buf_idx c + int (length (input_of ?ks)) \<le> BUFSIZE"
    by (simp add: resp_command_def length_resp_bulk length_dec_one BUFSIZE_def c(1))
  have engine: "\<forall>es. alloc_mem sample_env es \<noteq> None" "\<forall>es. lr_make_req sample_env es \<noteq> - 1"
    by (simp_all add: sample_env_def)
  have bytes: "output_bytes c = []" using c(2) by (simp add: output_bytes_def)
  have room: "output_len c + 5 * int (length ?ks) + 8201 \<le> OUTPUT_BUFSIZE"
    "output_len c + 5 * int (length ?ks) \<le> int (taken [Wrote 10])" by (simp_all add: c(2) OUTPUT_BUFSIZE_def)
  from batch_served [OF q(1) s _ ok len room(1) engine _ room(2)] obtain out c' w' s' rs where
    s': "(server_step sample_env)\<^sup>*\<^sup>* (after_read 5 out c' w' s) s'" "finished s' = finished s @ rs"
      "list_all2 (request_for 5) ?ks rs" "sent s' 5 = sent s 5 @ output_bytes c @ set_replies ?ks @
        concat (map (\<lambda>k. get_reply) (filter (\<lambda>k. \<not> is_set k) ?ks))"
    by auto
  have "length rs = 2" using list_all2_lengthD [OF s'(3)] by simp
  moreover have "sent s' 5 = ''+OK'' @ [CR, LF] @ get_reply" using s'(4) c(4) bytes by simp
  ultimately show ?thesis using s(1,5) s'(1,2) c(3)
    by (intro exI [of _ q] exI [of _ s] exI [of _ out] exI [of _ c'] exI [of _ w'] exI [of _ s']) simp
qed

end
