(* ===== verification/ReplyRace.thy ===== *)
theory ReplyRace
  imports Server Fifo
begin

text \<open>
  The reply buffer of a connection is written by two threads: the polling thread for the commands it
  answers itself, the answering thread for finished requests. The mutex of the client is never taken.
  Here each access of the two to \<open>output_len\<close> and to the buffer is a step. Replies are lost and a flush
  reads beyond the end. As a check of the model, the steps do what the functions of \<open>client.cc\<close> do if
  whole calls exclude each other.
\<close>

section \<open>The calls and their accesses\<close>

datatype thread = Polling | Answering

text \<open>The functions of \<open>client.cc\<close> that the threads call on the reply buffer.\<close>

datatype reply_op = Append "byte list" | PutByte byte | Flush int | Clear

text \<open>Where a thread is: the next access, with the local variables and the values already loaded.\<close>

datatype reply_pc =
  Ready
| Copying "byte list" int \<comment> \<open>\<open>memcpy\<close> to the place loaded\<close>
| Adding "byte list" \<comment> \<open>copied, \<open>output_len += n\<close> to come\<close>
| PuttingByte byte int
| Storing reply_op int \<comment> \<open>the new \<open>output_len\<close> computed, not yet stored\<close>
| Sizing int \<comment> \<open>\<open>client_flush_offset\<close> after its first test\<close>
| Writing int int int \<comment> \<open>its loop: \<open>size\<close>, \<open>sent\<close> and \<open>offset\<close>\<close>
| Clearing

text \<open>\<open>script\<close> is what a thread is still to call, \<open>wire\<close> what the socket has taken.\<close>

record reply_threads =
  shared :: client
  script :: "thread \<Rightarrow> reply_op list"
  place :: "thread \<Rightarrow> reply_pc"
  wire :: "byte list"

definition begin_call :: "thread \<Rightarrow> reply_op list \<Rightarrow> reply_pc \<Rightarrow> reply_threads \<Rightarrow> reply_threads" where
  "begin_call i ops p s = s\<lparr>script := (script s)(i := ops), place := (place s)(i := p)\<rparr>"

definition access :: "thread \<Rightarrow> client \<Rightarrow> reply_pc \<Rightarrow> reply_threads \<Rightarrow> reply_threads" where
  "access i c p s = s\<lparr>shared := c, place := (place s)(i := p)\<rparr>"

text \<open>
  One access of thread \<open>i\<close>. A copy out of the bounds of the buffer and a \<open>write\<close> of a negative length
  are undefined and have no step.
\<close>

inductive reply_step :: "thread \<Rightarrow> reply_threads \<Rightarrow> reply_threads \<Rightarrow> bool" for i where
  append_load: "place s i = Ready \<Longrightarrow> script s i = Append bs # ops \<Longrightarrow>
    reply_step i s (begin_call i ops (Copying bs (output_len (shared s))) s)"
| append_copy: "place s i = Copying bs p \<Longrightarrow> c = shared s \<Longrightarrow> 0 \<le> p \<Longrightarrow> p + int (length bs) \<le> OUTPUT_BUFSIZE \<Longrightarrow>
    reply_step i s (access i (c\<lparr>out_buf := poke (out_buf c) p bs\<rparr>) (Adding bs) s)"
| append_add: "place s i = Adding bs \<Longrightarrow>
    reply_step i s (access i (shared s) (Storing (Append bs) (output_len (shared s) + int (length bs))) s)"
| byte_load: "place s i = Ready \<Longrightarrow> script s i = PutByte b # ops \<Longrightarrow>
    reply_step i s (begin_call i ops (PuttingByte b (output_len (shared s))) s)"
| byte_put: "place s i = PuttingByte b p \<Longrightarrow> c = shared s \<Longrightarrow> 0 \<le> p \<Longrightarrow> p < OUTPUT_BUFSIZE \<Longrightarrow>
    reply_step i s (access i (c\<lparr>out_buf := (out_buf c)(p := b)\<rparr>) (Storing (PutByte b) (p + 1)) s)"
| store_len: "place s i = Storing op v \<Longrightarrow>
    reply_step i s (access i ((shared s)\<lparr>output_len := v\<rparr>) Ready s)"
| flush_nothing: "place s i = Ready \<Longrightarrow> script s i = Flush off # ops \<Longrightarrow> output_len (shared s) - off \<le> 0 \<Longrightarrow>
    reply_step i s (begin_call i ops Ready s)"
| flush_test: "place s i = Ready \<Longrightarrow> script s i = Flush off # ops \<Longrightarrow> 0 < output_len (shared s) - off \<Longrightarrow>
    reply_step i s (begin_call i ops (Sizing off) s)"
| flush_size: "place s i = Sizing off \<Longrightarrow>
    reply_step i s (access i (shared s) (Writing (to_size_t (output_len (shared s) - off)) 0 off) s)"
| flush_write: "place s i = Writing siz sent off \<Longrightarrow> sent < siz \<Longrightarrow> c = shared s \<Longrightarrow> 0 \<le> off \<Longrightarrow>
    off \<le> output_len c \<Longrightarrow> output_len c \<le> OUTPUT_BUFSIZE \<Longrightarrow> k = min n (nat (output_len c - off)) \<Longrightarrow>
    reply_step i s (access i c (Writing siz (to_size_t (sent + int k)) (off + int k))
      (s\<lparr>wire := wire s @ peek (out_buf c) off k\<rparr>))"
| flush_block: "place s i = Writing siz sent off \<Longrightarrow> sent < siz \<Longrightarrow> c = shared s \<Longrightarrow> 0 \<le> off \<Longrightarrow>
    off \<le> output_len c \<Longrightarrow> output_len c \<le> OUTPUT_BUFSIZE \<Longrightarrow>
    reply_step i s (access i c (Writing siz (to_size_t (sent - 1)) (off - 1)) s)"
| flush_done: "place s i = Writing siz sent off \<Longrightarrow> siz \<le> sent \<Longrightarrow>
    reply_step i s (access i ((shared s)\<lparr>output_len := 0\<rparr>) Ready s)"
| clear_len: "place s i = Ready \<Longrightarrow> script s i = Clear # ops \<Longrightarrow>
    reply_step i s (begin_call i ops Clearing (s\<lparr>shared := (shared s)\<lparr>output_len := 0\<rparr>\<rparr>))"
| clear_offset: "place s i = Clearing \<Longrightarrow>
    reply_step i s (access i ((shared s)\<lparr>output_offset := 0\<rparr>) Ready s)"

definition race_step :: "reply_threads \<Rightarrow> reply_threads \<Rightarrow> bool" where
  "race_step s s' \<longleftrightarrow> (\<exists>i. reply_step i s s')"

text \<open>
  This is no code: it is what would run if every call took the mutex of the client, which none does. It
  serves two ends: \<open>locked_iff_whole\<close> checks the accesses against the functions of \<open>Client\<close>, and
  \<open>reply_can_be_lost\<close> shows that taking the mutex in each call would not be enough.
\<close>

definition locked_step :: "reply_threads \<Rightarrow> reply_threads \<Rightarrow> bool" where
  "locked_step s s' \<longleftrightarrow> (\<exists>i. reply_step i s s' \<and> (\<forall>j. j \<noteq> i \<longrightarrow> place s j = Ready))"

definition reply_start :: "client \<Rightarrow> (thread \<Rightarrow> reply_op list) \<Rightarrow> reply_threads" where
  "reply_start c ops = \<lparr>shared = c, script = ops, place = (\<lambda>_. Ready), wire = []\<rparr>"

text \<open>The calls that the two threads make: the reply to a \<open>set\<close> and its flush, the answer to a \<open>get\<close>.\<close>

definition set_script :: "int \<Rightarrow> reply_op list" where
  "set_script off = [Append (''+OK'' @ [CR, LF]), Flush off, Clear]"

definition get_script :: "byte list \<Rightarrow> reply_op list" where
  "get_script v = [Append (CHR ''$'' # sprint_d (int (length v)) @ [CR, LF]), Append v, PutByte CR, PutByte LF,
     Flush 0, Clear]"

section \<open>Whole calls\<close>

fun whole_op :: "reply_op \<Rightarrow> client \<Rightarrow> write_result list \<Rightarrow> (byte list \<times> client \<times> write_result list) outcome" where
  "whole_op (Append bs) c ws = and_then (defined (client_write bs (int (length bs)) c)) (\<lambda>c'. Ret ([], c', ws))"
| "whole_op (PutByte b) c ws = and_then (defined (client_write_byte b c)) (\<lambda>c'. Ret ([], c', ws))"
| "whole_op (Flush off) c ws = client_flush_offset off c ws"
| "whole_op Clear c ws = Ret ([], client_clear c, ws)"

fun whole_ops :: "reply_op list \<Rightarrow> client \<Rightarrow> write_result list \<Rightarrow> (byte list \<times> client \<times> write_result list) outcome" where
  "whole_ops [] c ws = Ret ([], c, ws)"
| "whole_ops (op # ops) c ws =
     and_then (whole_op op c ws) (\<lambda>(out, c1, ws1).
     and_then (whole_ops ops c1 ws1) (\<lambda>(out', c2, ws2). Ret (out @ out', c2, ws2)))"

inductive whole_step :: "reply_threads \<Rightarrow> reply_threads \<Rightarrow> bool" where
  whole_call: "script u i = op # ops \<Longrightarrow> whole_op op (shared u) ws = Ret (out, c', ws') \<Longrightarrow>
    whole_step u (u\<lparr>shared := c', script := (script u)(i := ops), wire := wire u @ out\<rparr>)"

text \<open>The script for a \<open>get\<close> is what \<open>answer\<close> calls.\<close>

lemma and_then_assoc: "and_then (and_then x f) g = and_then x (\<lambda>a. and_then (f a) g)"
  by (cases x) simp_all

lemma defined_bind: "defined (Option.bind x f) = and_then (defined x) (\<lambda>a. defined (f a))"
  by (cases x) simp_all

lemma answer_script:
  assumes "req_type r = 2"
  shows "answer fill frees r c w ws = and_then (whole_ops (get_script (replicate 8192 fill)) c ws)
    (\<lambda>(out, c', ws'). Ret (out, c', if frees then free_req r w else w, ws'))"
proof -
  have n: "int (length (replicate 8192 fill)) = 8192" by simp
  show ?thesis
    unfolding answer_def get_script_def whole_ops.simps whole_op.simps client_write_bulk_def Let_def flush_and_clear_def n
    by (simp add: assms and_then_assoc defined_bind client_write_data_eq case_prod_unfold del: and_then_Ret)
qed

section \<open>Calls that exclude each other\<close>

text \<open>A flush that has come to \<open>sent\<close> and \<open>off\<close> with \<open>out\<close> sent, by some results of \<open>write\<close>.\<close>

definition flushed_to :: "client \<Rightarrow> int \<Rightarrow> int \<Rightarrow> int \<Rightarrow> int \<Rightarrow> byte list \<Rightarrow> bool" where
  "flushed_to c siz off0 sent off out \<longleftrightarrow> (\<exists>ws. \<forall>ws2. flush_loop c siz 0 off0 (ws @ ws2) =
     and_then (flush_loop c siz sent off ws2) (\<lambda>(o2, ws'). Ret (out @ o2, ws')))"

lemma flushed_start: "flushed_to c siz off 0 off []"
  unfolding flushed_to_def
proof (intro exI allI)
  fix ws2
  show "flush_loop c siz 0 off ([] @ ws2) = and_then (flush_loop c siz 0 off ws2) (\<lambda>(o2, ws'). Ret ([] @ o2, ws'))"
    by (cases "flush_loop c siz 0 off ws2") auto
qed

lemma flushed_by:
  assumes "flushed_to c siz off0 sent off out"
    and "\<And>ws2. flush_loop c siz sent off (r # ws2) =
      and_then (flush_loop c siz sent' off' ws2) (\<lambda>(o2, ws'). Ret (out' @ o2, ws'))"
  shows "flushed_to c siz off0 sent' off' (out @ out')"
proof -
  obtain ws where ws: "\<And>ws2. flush_loop c siz 0 off0 (ws @ ws2) =
      and_then (flush_loop c siz sent off ws2) (\<lambda>(o2, ws'). Ret (out @ o2, ws'))"
    using assms(1) by (auto simp: flushed_to_def)
  have "flush_loop c siz 0 off0 ((ws @ [r]) @ ws2) =
      and_then (flush_loop c siz sent' off' ws2) (\<lambda>(o2, ws'). Ret ((out @ out') @ o2, ws'))" for ws2
    using ws [of "r # ws2"] assms(2) [of ws2]
    by (simp add: and_then_assoc case_prod_unfold del: and_then_Ret flush_loop.simps)
  then show ?thesis unfolding flushed_to_def by blast
qed

lemma flushed_all:
  assumes "flushed_to c siz off0 sent off out" and "siz \<le> sent"
  shows "\<exists>ws. flush_loop c siz 0 off0 ws = Ret (out, [])"
proof -
  obtain ws where "\<And>ws2. flush_loop c siz 0 off0 (ws @ ws2) =
      and_then (flush_loop c siz sent off ws2) (\<lambda>(o2, ws'). Ret (out @ o2, ws'))"
    using assms(1) by (auto simp: flushed_to_def)
  from this [of "[]"] assms(2) show ?thesis by (intro exI [of _ ws]) simp
qed

text \<open>A call in progress: the client before it is \<open>c\<close>, \<open>c'\<close> the one now, \<open>out\<close> what it has sent.\<close>

fun in_call :: "reply_pc \<Rightarrow> reply_op \<Rightarrow> client \<Rightarrow> client \<Rightarrow> byte list \<Rightarrow> bool" where
  "in_call (Copying bs p) op c c' out = (op = Append bs \<and> c' = c \<and> p = output_len c \<and> out = [])"
| "in_call (Adding bs) op c c' out = (op = Append bs \<and> out = [] \<and> 0 \<le> output_len c \<and>
     output_len c + int (length bs) \<le> OUTPUT_BUFSIZE \<and> c' = c\<lparr>out_buf := poke (out_buf c) (output_len c) bs\<rparr>)"
| "in_call (PuttingByte b p) op c c' out = (op = PutByte b \<and> c' = c \<and> p = output_len c \<and> out = [])"
| "in_call (Storing op' v) op c c' out = (op = op' \<and> out = [] \<and>
     (\<exists>ws. whole_op op c ws = Ret ([], c'\<lparr>output_len := v\<rparr>, ws)))"
| "in_call (Sizing off) op c c' out = (op = Flush off \<and> c' = c \<and> out = [] \<and> 0 < output_len c - off)"
| "in_call (Writing siz sent off) op c c' out = (\<exists>off0. op = Flush off0 \<and> c' = c \<and> 0 < output_len c - off0 \<and>
     siz = to_size_t (output_len c - off0) \<and> flushed_to c siz off0 sent off out)"
| "in_call Clearing op c c' out = (op = Clear \<and> out = [] \<and> c' = c\<lparr>output_len := 0\<rparr>)"
| "in_call Ready op c c' out = False"

definition corresponds :: "reply_threads \<Rightarrow> reply_threads \<Rightarrow> bool" where
  "corresponds s u \<longleftrightarrow> (\<forall>i. place u i = Ready) \<and>
     ((\<forall>i. place s i = Ready) \<and> u = s \<or>
      (\<exists>i op out. (\<forall>j. j \<noteq> i \<longrightarrow> place s j = Ready) \<and> in_call (place s i) op (shared u) (shared s) out \<and>
         script u = (script s)(i := op # script s i) \<and> wire s = wire u @ out))"

lemma in_progress:
  assumes "corresponds s u" and "place s i \<noteq> Ready"
  obtains op out where "\<And>j. j \<noteq> i \<Longrightarrow> place s j = Ready" "in_call (place s i) op (shared u) (shared s) out"
    "script u = (script s)(i := op # script s i)" "wire s = wire u @ out" "\<And>j. place u j = Ready"
proof -
  from assms obtain i' op out where h: "\<forall>j. j \<noteq> i' \<longrightarrow> place s j = Ready"
    "in_call (place s i') op (shared u) (shared s) out" "script u = (script s)(i' := op # script s i')"
    "wire s = wire u @ out" "\<forall>j. place u j = Ready"
    by (auto simp: corresponds_def)
  have i: "i' = i" using h(1) assms(2) by metis
  show ?thesis using that [of op out] h unfolding i by blast
qed

lemma between_calls:
  assumes "corresponds s u" and "place s i = Ready" and "\<forall>j. j \<noteq> i \<longrightarrow> place s j = Ready"
  shows "u = s" and "\<And>j. place s j = Ready"
proof -
  have all: "\<forall>j. place s j = Ready" using assms(2,3) by metis
  then show "\<And>j. place s j = Ready" by blast
  show "u = s" using assms(1) all by (auto simp: corresponds_def)
qed

lemma match_begin:
  assumes "corresponds s u" and "place s i = Ready" and "\<forall>j. j \<noteq> i \<longrightarrow> place s j = Ready"
    and "script s i = op # ops" and "in_call p op (shared s) c []"
  shows "corresponds (begin_call i ops p (s\<lparr>shared := c\<rparr>)) u"
proof -
  note r = between_calls [OF assms(1-3)]
  have "(script s)(i := op # ops) = script s" using assms(4) by auto
  then show ?thesis using r assms(5)
    by (auto simp: corresponds_def begin_call_def intro!: exI [of _ i] exI [of _ op])
qed

lemma match_access:
  assumes "corresponds s u" and "place s i \<noteq> Ready" and "p \<noteq> Ready"
    and "\<And>op out. in_call (place s i) op (shared u) (shared s) out \<Longrightarrow> in_call p op (shared u) c (out @ out')"
  shows "corresponds (access i c p (s\<lparr>wire := wire s @ out'\<rparr>)) u"
  using assms(1,2)
proof (rule in_progress)
  fix op out
  assume h: "\<And>j. j \<noteq> i \<Longrightarrow> place s j = Ready" "in_call (place s i) op (shared u) (shared s) out"
    "script u = (script s)(i := op # script s i)" "wire s = wire u @ out" "\<And>j. place u j = Ready"
  then show ?thesis using assms(4) [OF h(2)]
    by (auto simp: corresponds_def access_def intro!: exI [of _ i] exI [of _ op] exI [of _ "out @ out'"])
qed

lemma match_end:
  assumes "corresponds s u" and "place s i \<noteq> Ready"
    and "\<And>op out. in_call (place s i) op (shared u) (shared s) out \<Longrightarrow> \<exists>ws ws'. whole_op op (shared u) ws = Ret (out, c, ws')"
  shows "whole_step u (access i c Ready s) \<and> corresponds (access i c Ready s) (access i c Ready s)"
  using assms(1,2)
proof (rule in_progress)
  fix op out
  assume h: "\<And>j. j \<noteq> i \<Longrightarrow> place s j = Ready" "in_call (place s i) op (shared u) (shared s) out"
    "script u = (script s)(i := op # script s i)" "wire s = wire u @ out" "\<And>j. place u j = Ready"
  obtain ws ws' where "whole_op op (shared u) ws = Ret (out, c, ws')" using assms(3) [OF h(2)] by blast
  then have step: "whole_step u (u\<lparr>shared := c, script := (script u)(i := script s i), wire := wire u @ out\<rparr>)"
    using h(3) by (intro whole_call [where op = op]) simp_all
  have ready: "(place s)(i := Ready) = place u" using h(1,5) by (auto simp: fun_eq_iff)
  have "u\<lparr>shared := c, script := (script u)(i := script s i), wire := wire u @ out\<rparr> = access i c Ready s"
    using h(3,4) ready by (cases s; cases u) (simp add: access_def)
  then show ?thesis using step h(1) by (auto simp: corresponds_def access_def)
qed

lemma write_done:
  assumes "0 \<le> output_len c" and "output_len c + int (length bs) \<le> OUTPUT_BUFSIZE"
  shows "whole_op (Append bs) c ws = Ret ([], c\<lparr>out_buf := poke (out_buf c) (output_len c) bs,
    output_len := output_len c + int (length bs)\<rparr>, ws)"
  using assms by (simp add: client_write_def)

lemma match_locked:
  assumes step: "reply_step i s s'" and others: "\<forall>j. j \<noteq> i \<longrightarrow> place s j = Ready"
    and rel: "corresponds s u" and run: "whole_step\<^sup>*\<^sup>* u0 u"
  shows "\<exists>u'. whole_step\<^sup>*\<^sup>* u0 u' \<and> corresponds s' u'"
  using step
proof cases
  case (append_load bs ops)
  have "corresponds (begin_call i ops (Copying bs (output_len (shared s))) (s\<lparr>shared := shared s\<rparr>)) u"
    by (rule match_begin [OF rel append_load(2) others append_load(3)]) simp
  then show ?thesis using run append_load(1) by auto
next
  case (append_copy bs p c)
  have "corresponds (access i (c\<lparr>out_buf := poke (out_buf c) p bs\<rparr>) (Adding bs) (s\<lparr>wire := wire s @ []\<rparr>)) u"
    by (rule match_access [OF rel]) (use append_copy in auto)
  then show ?thesis using run append_copy(1) by auto
next
  case (append_add bs)
  have "corresponds (access i (shared s) (Storing (Append bs) (output_len (shared s) + int (length bs))) (s\<lparr>wire := wire s @ []\<rparr>)) u"
    by (rule match_access [OF rel]) (use append_add write_done in auto)
  then show ?thesis using run append_add(1) by auto
next
  case (byte_load b ops)
  have "corresponds (begin_call i ops (PuttingByte b (output_len (shared s))) (s\<lparr>shared := shared s\<rparr>)) u"
    by (rule match_begin [OF rel byte_load(2) others byte_load(3)]) simp
  then show ?thesis using run byte_load(1) by auto
next
  case (byte_put b p c)
  have "corresponds (access i (c\<lparr>out_buf := (out_buf c)(p := b)\<rparr>) (Storing (PutByte b) (p + 1)) (s\<lparr>wire := wire s @ []\<rparr>)) u"
    by (rule match_access [OF rel]) (use byte_put in \<open>auto simp: client_write_byte_def\<close>)
  then show ?thesis using run byte_put(1) by auto
next
  case (store_len op v)
  have "whole_step u (access i ((shared s)\<lparr>output_len := v\<rparr>) Ready s) \<and>
      corresponds (access i ((shared s)\<lparr>output_len := v\<rparr>) Ready s) (access i ((shared s)\<lparr>output_len := v\<rparr>) Ready s)"
    by (rule match_end [OF rel]) (use store_len in auto)
  then show ?thesis using rtranclp.rtrancl_into_rtrancl [OF run] store_len(1) by blast
next
  case (flush_nothing off ops)
  note r = between_calls [OF rel flush_nothing(2) others]
  have "whole_step u (u\<lparr>shared := shared u, script := (script u)(i := ops), wire := wire u @ []\<rparr>)"
    using flush_nothing r(1) by (intro whole_call [where op = "Flush off" and ws = "[]"]) (simp_all add: client_flush_offset_def)
  moreover have "u\<lparr>shared := shared u, script := (script u)(i := ops), wire := wire u @ []\<rparr> = s'"
    using flush_nothing(1,2) r(1) by (simp add: begin_call_def fun_upd_idem)
  moreover have "corresponds s' s'" using r(2) flush_nothing(1) by (simp add: corresponds_def begin_call_def)
  ultimately show ?thesis using rtranclp.rtrancl_into_rtrancl [OF run] by blast
next
  case (flush_test off ops)
  have "corresponds (begin_call i ops (Sizing off) (s\<lparr>shared := shared s\<rparr>)) u"
    by (rule match_begin [OF rel flush_test(2) others flush_test(3)]) (use flush_test(4) in simp)
  then show ?thesis using run flush_test(1) by auto
next
  case (flush_size off)
  have "corresponds (access i (shared s) (Writing (to_size_t (output_len (shared s) - off)) 0 off) (s\<lparr>wire := wire s @ []\<rparr>)) u"
    by (rule match_access [OF rel]) (use flush_size flushed_start in auto)
  then show ?thesis using run flush_size(1) by auto
next
  case (flush_write siz sent off c k n)
  have "corresponds (access i c (Writing siz (to_size_t (sent + int k)) (off + int k))
      (s\<lparr>wire := wire s @ peek (out_buf c) off k\<rparr>)) u"
  proof (rule match_access [OF rel])
    fix op out
    assume "in_call (place s i) op (shared u) (shared s) out"
    then obtain off0 where o: "op = Flush off0" "shared s = shared u" "0 < output_len (shared u) - off0"
      "siz = to_size_t (output_len (shared u) - off0)" "flushed_to (shared u) siz off0 sent off out"
      using flush_write(2) by auto
    have "flushed_to (shared u) siz off0 (to_size_t (sent + int k)) (off + int k) (out @ peek (out_buf c) off k)"
      by (rule flushed_by [OF o(5), of "Wrote n"]) (use flush_write o(2) in \<open>simp add: Let_def\<close>)
    then show "in_call (Writing siz (to_size_t (sent + int k)) (off + int k)) op (shared u) c (out @ peek (out_buf c) off k)"
      using o flush_write(4) by auto
  qed (use flush_write(2) in simp_all)
  then show ?thesis using run flush_write(1) by auto
next
  case (flush_block siz sent off c)
  have "corresponds (access i c (Writing siz (to_size_t (sent - 1)) (off - 1)) (s\<lparr>wire := wire s @ []\<rparr>)) u"
  proof (rule match_access [OF rel])
    fix op out
    assume "in_call (place s i) op (shared u) (shared s) out"
    then obtain off0 where o: "op = Flush off0" "shared s = shared u" "0 < output_len (shared u) - off0"
      "siz = to_size_t (output_len (shared u) - off0)" "flushed_to (shared u) siz off0 sent off out"
      using flush_block(2) by auto
    have "flushed_to (shared u) siz off0 (to_size_t (sent - 1)) (off - 1) (out @ [])"
    proof (rule flushed_by [OF o(5), of WouldBlock])
      fix ws2
      show "flush_loop (shared u) siz sent off (WouldBlock # ws2) =
          and_then (flush_loop (shared u) siz (to_size_t (sent - 1)) (off - 1) ws2) (\<lambda>(o2, ws'). Ret ([] @ o2, ws'))"
        using flush_block o(2) by (cases "flush_loop (shared u) siz (to_size_t (sent - 1)) (off - 1) ws2") auto
    qed
    then show "in_call (Writing siz (to_size_t (sent - 1)) (off - 1)) op (shared u) c (out @ [])"
      using o flush_block(4) by auto
  qed (use flush_block(2) in simp_all)
  then show ?thesis using run flush_block(1) by auto
next
  case (flush_done siz sent off)
  have "whole_step u (access i ((shared s)\<lparr>output_len := 0\<rparr>) Ready s) \<and>
      corresponds (access i ((shared s)\<lparr>output_len := 0\<rparr>) Ready s) (access i ((shared s)\<lparr>output_len := 0\<rparr>) Ready s)"
  proof (rule match_end [OF rel])
    fix op out
    assume "in_call (place s i) op (shared u) (shared s) out"
    then obtain off0 where o: "op = Flush off0" "shared s = shared u" "0 < output_len (shared u) - off0"
      "siz = to_size_t (output_len (shared u) - off0)" "flushed_to (shared u) siz off0 sent off out"
      using flush_done(2) by auto
    obtain ws where "flush_loop (shared u) siz 0 off0 ws = Ret (out, [])" using flushed_all [OF o(5) flush_done(3)] by blast
    then have "whole_op op (shared u) ws = Ret (out, (shared s)\<lparr>output_len := 0\<rparr>, [])"
      using o(1-4) by (simp add: client_flush_offset_def)
    then show "\<exists>ws ws'. whole_op op (shared u) ws = Ret (out, (shared s)\<lparr>output_len := 0\<rparr>, ws')" by blast
  qed (use flush_done(2) in simp)
  then show ?thesis using rtranclp.rtrancl_into_rtrancl [OF run] flush_done(1) by blast
next
  case (clear_len ops)
  have "corresponds (begin_call i ops Clearing (s\<lparr>shared := (shared s)\<lparr>output_len := 0\<rparr>\<rparr>)) u"
    by (rule match_begin [OF rel clear_len(2) others clear_len(3)]) simp
  then show ?thesis using run clear_len(1) by auto
next
  case clear_offset
  have "whole_step u (access i ((shared s)\<lparr>output_offset := 0\<rparr>) Ready s) \<and>
      corresponds (access i ((shared s)\<lparr>output_offset := 0\<rparr>) Ready s) (access i ((shared s)\<lparr>output_offset := 0\<rparr>) Ready s)"
    by (rule match_end [OF rel]) (use clear_offset in \<open>auto simp: client_clear_def\<close>)
  then show ?thesis using rtranclp.rtrancl_into_rtrancl [OF run] clear_offset(1) by blast
qed

definition reply_started :: "reply_threads \<Rightarrow> bool" where
  "reply_started s \<longleftrightarrow> (\<forall>i. place s i = Ready)"

interpretation lock_sim: run_simulation reply_started locked_step "\<lambda>_. True" "whole_step\<^sup>*\<^sup>*" corresponds
proof
  fix s
  assume "reply_started s"
  then show "\<exists>u. whole_step\<^sup>*\<^sup>* s u \<and> corresponds s u"
    by (intro exI [of _ s]) (simp add: reply_started_def corresponds_def)
next
  fix s s' s0 u
  assume "locked_step s s'" "whole_step\<^sup>*\<^sup>* s0 u" "corresponds s u"
  then show "\<exists>u'. whole_step\<^sup>*\<^sup>* s0 u' \<and> corresponds s' u'"
    using match_locked unfolding locked_step_def by blast
qed simp

section \<open>A whole call as a run of its accesses\<close>

lemma next_access: "(reply_step i)\<^sup>*\<^sup>* s s1 \<Longrightarrow> reply_step i s1 s2 \<Longrightarrow> (reply_step i)\<^sup>*\<^sup>* s s2"
  by (rule rtranclp.rtrancl_into_rtrancl)

lemma only_access:
  assumes "reply_step i s s'"
  shows "\<And>j. j \<noteq> i \<Longrightarrow> place s' j = place s j"
  using assms by cases (simp_all add: access_def begin_call_def)

lemma flush_accesses:
  assumes "flush_loop c siz sent off ws = Ret (out, ws')" and "place s i = Writing siz sent off" and "shared s = c"
  shows "(reply_step i)\<^sup>*\<^sup>* s (access i (c\<lparr>output_len := 0\<rparr>) Ready (s\<lparr>wire := wire s @ out\<rparr>))"
  using assms
proof (induction c siz sent off ws arbitrary: s out rule: flush_loop.induct)
  case (1 c siz sent off)
  then have "siz \<le> sent" "out = []" by (auto split: if_splits)
  then show ?case using flush_done [OF 1(2)] 1(3) by auto
next
  case (2 c siz sent off r ws)
  show ?case
  proof (cases "sent < siz")
    case False
    then have "siz \<le> sent" "out = []" using 2(3) by auto
    then show ?thesis using flush_done [OF 2(4)] 2(5) by auto
  next
    case True
    then have ok: "0 \<le> off" "off \<le> output_len c" "output_len c \<le> OUTPUT_BUFSIZE" using 2(3) by (auto split: if_splits)
    show ?thesis
    proof (cases r)
      case (Wrote n)
      let ?k = "min n (nat (output_len c - off))"
      obtain out2 where out2: "flush_loop c siz (to_size_t (sent + int ?k)) (off + int ?k) ws = Ret (out2, ws')"
        "out = peek (out_buf c) off ?k @ out2" using 2(3) True ok Wrote by (auto simp: Let_def)
      let ?s = "access i c (Writing siz (to_size_t (sent + int ?k)) (off + int ?k)) (s\<lparr>wire := wire s @ peek (out_buf c) off ?k\<rparr>)"
      have "reply_step i s ?s" by (rule flush_write [OF 2(4) True 2(5) [symmetric] ok refl])
      moreover have "(reply_step i)\<^sup>*\<^sup>* ?s (access i (c\<lparr>output_len := 0\<rparr>) Ready (?s\<lparr>wire := wire ?s @ out2\<rparr>))"
        by (rule 2(1) [OF True _ Wrote refl out2(1)]) (use ok in \<open>simp_all add: access_def\<close>)
      ultimately have "(reply_step i)\<^sup>*\<^sup>* s (access i (c\<lparr>output_len := 0\<rparr>) Ready (?s\<lparr>wire := wire ?s @ out2\<rparr>))"
        by (rule converse_rtranclp_into_rtranclp)
      then show ?thesis using out2(2) by (simp add: access_def)
    next
      case WouldBlock
      let ?s = "access i c (Writing siz (to_size_t (sent - 1)) (off - 1)) s"
      have "reply_step i s ?s" by (rule flush_block [OF 2(4) True 2(5) [symmetric] ok])
      moreover have "(reply_step i)\<^sup>*\<^sup>* ?s (access i (c\<lparr>output_len := 0\<rparr>) Ready (?s\<lparr>wire := wire ?s @ out\<rparr>))"
        by (rule 2(2) [OF True _ WouldBlock]) (use ok 2(3) True WouldBlock in \<open>simp_all add: access_def\<close>)
      ultimately have "(reply_step i)\<^sup>*\<^sup>* s (access i (c\<lparr>output_len := 0\<rparr>) Ready (?s\<lparr>wire := wire ?s @ out\<rparr>))"
        by (rule converse_rtranclp_into_rtranclp)
      then show ?thesis by (simp add: access_def)
    next
      case WriteError
      then show ?thesis using 2(3) True ok by simp
    qed
  qed
qed

definition after_call :: "thread \<Rightarrow> reply_op list \<Rightarrow> client \<Rightarrow> byte list \<Rightarrow> reply_threads \<Rightarrow> reply_threads" where
  "after_call i ops c out s = s\<lparr>script := (script s)(i := ops), shared := c, wire := wire s @ out\<rparr>"

lemma wire_shared: "t\<lparr>wire := w, shared := c\<rparr> = t\<lparr>shared := c, wire := w\<rparr>"
  by (cases t) simp

lemma call_accesses:
  assumes at: "place s i = Ready" "script s i = op # ops" and op: "whole_op op (shared s) ws = Ret (out, c', ws')"
  shows "(reply_step i)\<^sup>*\<^sup>* s (after_call i ops c' out s)"
proof (cases op)
  case (Append bs)
  have c': "0 \<le> output_len (shared s)" "output_len (shared s) + int (length bs) \<le> OUTPUT_BUFSIZE" "out = []"
    "c' = (shared s)\<lparr>out_buf := poke (out_buf (shared s)) (output_len (shared s)) bs, output_len := output_len (shared s) + int (length bs)\<rparr>"
    using op Append by (auto simp: defined_def client_write_def split: if_splits)
  note 1 = append_load [OF at(1) at(2) [unfolded Append]]
  let ?c = "(shared s)\<lparr>out_buf := poke (out_buf (shared s)) (output_len (shared s)) bs\<rparr>"
  let ?s1 = "begin_call i ops (Copying bs (output_len (shared s))) s"
  let ?s2 = "access i ?c (Adding bs) ?s1"
  let ?s3 = "access i (shared ?s2) (Storing (Append bs) (output_len (shared ?s2) + int (length bs))) ?s2"
  have "reply_step i ?s1 ?s2"
    using append_copy [of ?s1 i bs "output_len (shared s)" "shared s"] c'(1,2) by (simp add: begin_call_def)
  moreover have "reply_step i ?s2 ?s3" by (rule append_add) (simp add: access_def)
  moreover have "reply_step i ?s3 (access i ((shared ?s3)\<lparr>output_len := output_len (shared ?s2) + int (length bs)\<rparr>) Ready ?s3)"
    by (rule store_len) (simp add: access_def)
  ultimately have "(reply_step i)\<^sup>*\<^sup>* s (access i ((shared ?s3)\<lparr>output_len := output_len (shared ?s2) + int (length bs)\<rparr>) Ready ?s3)"
    using 1 by (meson next_access rtranclp.rtrancl_refl)
  then show ?thesis using c'(3,4) at(1) by (simp add: access_def begin_call_def after_call_def fun_upd_idem)
next
  case (PutByte b)
  have c': "0 \<le> output_len (shared s)" "output_len (shared s) < OUTPUT_BUFSIZE" "out = []"
    "c' = (shared s)\<lparr>out_buf := (out_buf (shared s))(output_len (shared s) := b), output_len := output_len (shared s) + 1\<rparr>"
    using op PutByte by (auto simp: defined_def client_write_byte_def split: if_splits)
  note 1 = byte_load [OF at(1) at(2) [unfolded PutByte]]
  let ?c = "(shared s)\<lparr>out_buf := (out_buf (shared s))(output_len (shared s) := b)\<rparr>"
  let ?s1 = "begin_call i ops (PuttingByte b (output_len (shared s))) s"
  let ?s2 = "access i ?c (Storing (PutByte b) (output_len (shared s) + 1)) ?s1"
  have "reply_step i ?s1 ?s2"
    using byte_put [of ?s1 i b "output_len (shared s)" "shared s"] c'(1,2) by (simp add: begin_call_def)
  moreover have "reply_step i ?s2 (access i ((shared ?s2)\<lparr>output_len := output_len (shared s) + 1\<rparr>) Ready ?s2)"
    by (rule store_len) (simp add: access_def)
  ultimately have "(reply_step i)\<^sup>*\<^sup>* s (access i ((shared ?s2)\<lparr>output_len := output_len (shared s) + 1\<rparr>) Ready ?s2)"
    using 1 by (meson next_access rtranclp.rtrancl_refl)
  then show ?thesis using c'(3,4) at(1) by (simp add: access_def begin_call_def after_call_def fun_upd_idem)
next
  case (Flush off)
  show ?thesis
  proof (cases "output_len (shared s) - off \<le> 0")
    case True
    then have "out = []" "c' = shared s" using op Flush by (simp_all add: client_flush_offset_def)
    moreover have "after_call i ops (shared s) [] s = begin_call i ops Ready s"
      using at(1) by (simp add: after_call_def begin_call_def fun_upd_idem)
    ultimately show ?thesis using flush_nothing [OF at(1) at(2) [unfolded Flush] True] by auto
  next
    case False
    let ?siz = "to_size_t (output_len (shared s) - off)"
    have f: "flush_loop (shared s) ?siz 0 off ws = Ret (out, ws')" "c' = (shared s)\<lparr>output_len := 0\<rparr>"
      using op Flush False by (auto simp: client_flush_offset_def)
    let ?s1 = "begin_call i ops (Sizing off) s"
    let ?s2 = "access i (shared ?s1) (Writing (to_size_t (output_len (shared ?s1) - off)) 0 off) ?s1"
    have 1: "reply_step i s ?s1" using flush_test [OF at(1) at(2) [unfolded Flush]] False by simp
    have 2: "reply_step i ?s1 ?s2" by (rule flush_size) (simp add: begin_call_def)
    have "(reply_step i)\<^sup>*\<^sup>* ?s2 (access i ((shared s)\<lparr>output_len := 0\<rparr>) Ready (?s2\<lparr>wire := wire ?s2 @ out\<rparr>))"
      by (rule flush_accesses [OF f(1)]) (simp_all add: access_def begin_call_def)
    with 1 2 have "(reply_step i)\<^sup>*\<^sup>* s (access i ((shared s)\<lparr>output_len := 0\<rparr>) Ready (?s2\<lparr>wire := wire ?s2 @ out\<rparr>))"
      by (meson converse_rtranclp_into_rtranclp)
    then show ?thesis using f(2) at(1) by (simp add: access_def begin_call_def after_call_def fun_upd_idem wire_shared)
  qed
next
  case Clear
  note 1 = clear_len [OF at(1) at(2) [unfolded Clear]]
  let ?s1 = "begin_call i ops Clearing (s\<lparr>shared := (shared s)\<lparr>output_len := 0\<rparr>\<rparr>)"
  have "reply_step i ?s1 (access i ((shared ?s1)\<lparr>output_offset := 0\<rparr>) Ready ?s1)"
    by (rule clear_offset) (simp add: begin_call_def)
  with 1 have "(reply_step i)\<^sup>*\<^sup>* s (access i ((shared ?s1)\<lparr>output_offset := 0\<rparr>) Ready ?s1)"
    by (meson next_access rtranclp.rtrancl_refl)
  moreover have "out = []" "c' = client_clear (shared s)" using op Clear by simp_all
  ultimately show ?thesis using at(1)
    by (simp add: access_def begin_call_def after_call_def client_clear_def fun_upd_idem)
qed

lemma calls_accesses:
  assumes "place s i = Ready" and "script s i = ops @ ops'" and "whole_ops ops (shared s) ws = Ret (out, c', ws')"
  shows "(reply_step i)\<^sup>*\<^sup>* s (after_call i ops' c' out s)"
  using assms
proof (induction ops arbitrary: s ws out)
  case Nil
  then have "after_call i ops' c' out s = s" by (cases s) (simp add: after_call_def fun_upd_idem)
  then show ?case by simp
next
  case (Cons op ops)
  then obtain o1 c1 ws1 o2 where w: "whole_op op (shared s) ws = Ret (o1, c1, ws1)"
    "whole_ops ops c1 ws1 = Ret (o2, c', ws')" "out = o1 @ o2" by auto
  let ?s = "after_call i (ops @ ops') c1 o1 s"
  have 1: "(reply_step i)\<^sup>*\<^sup>* s ?s" by (rule call_accesses [OF Cons.prems(1) _ w(1)]) (simp add: Cons.prems(2))
  have "(reply_step i)\<^sup>*\<^sup>* ?s (after_call i ops' c' o2 ?s)"
    by (rule Cons.IH) (use Cons.prems(1) w(2) in \<open>simp_all add: after_call_def\<close>)
  moreover have "after_call i ops' c' o2 ?s = after_call i ops' c' out s"
    using w(3) by (cases s) (simp add: after_call_def)
  ultimately show ?case using 1 by simp
qed

text \<open>A run of one thread is one of both, and while the other is between calls it holds the lock.\<close>

lemma race_run: "(reply_step i)\<^sup>*\<^sup>* s s' \<Longrightarrow> race_step\<^sup>*\<^sup>* s s'"
  by (induction rule: rtranclp_induct) (auto simp: race_step_def intro: rtranclp.rtrancl_into_rtrancl)

lemma locked_run:
  assumes "(reply_step i)\<^sup>*\<^sup>* s s'" and "\<forall>j. j \<noteq> i \<longrightarrow> place s j = Ready"
  shows "locked_step\<^sup>*\<^sup>* s s' \<and> (\<forall>j. j \<noteq> i \<longrightarrow> place s' j = Ready)"
  using assms
proof (induction rule: rtranclp_induct)
  case (step t t')
  then have "locked_step t t'" by (auto simp: locked_step_def)
  then show ?case using step only_access [OF step(2)] by (auto intro: rtranclp.rtrancl_into_rtrancl)
qed simp

lemma whole_locked:
  assumes "whole_step u u'" and "\<forall>j. place u j = Ready"
  shows "locked_step\<^sup>*\<^sup>* u u' \<and> (\<forall>j. place u' j = Ready)"
  using assms(1)
proof cases
  case (whole_call i op ops ws out c' ws')
  have eq: "after_call i ops c' out u = u'" unfolding whole_call(1) by (cases u) (simp add: after_call_def)
  have "(reply_step i)\<^sup>*\<^sup>* u u'"
    using call_accesses [OF _ whole_call(2,3)] assms(2) unfolding eq by blast
  then show ?thesis using locked_run assms(2) whole_call(1) by auto
qed

lemma whole_locked_run: "whole_step\<^sup>*\<^sup>* u u' \<Longrightarrow> \<forall>j. place u j = Ready \<Longrightarrow> locked_step\<^sup>*\<^sup>* u u' \<and> (\<forall>j. place u' j = Ready)"
proof (induction rule: rtranclp_induct)
  case (step t t')
  then show ?case using whole_locked [OF step(2)] by (auto intro: rtranclp_trans)
qed simp

lemma locked_race: "locked_step\<^sup>*\<^sup>* s s' \<Longrightarrow> race_step\<^sup>*\<^sup>* s s'"
  by (induction rule: rtranclp_induct) (auto simp: race_step_def locked_step_def intro: rtranclp.rtrancl_into_rtrancl)

lemma locked_iff_whole:
  assumes "\<forall>i. place s i = Ready" and "\<forall>i. place s' i = Ready"
  shows "locked_step\<^sup>*\<^sup>* s s' \<longleftrightarrow> whole_step\<^sup>*\<^sup>* s s'"
proof
  assume "locked_step\<^sup>*\<^sup>* s s'"
  then obtain u where u: "whole_step\<^sup>*\<^sup>* s u" "corresponds s' u"
    using lock_sim.reach_related [of s s'] assms(1) by (auto simp: reply_started_def)
  have "u = s'" by (rule between_calls(1) [OF u(2)]) (use assms(2) in simp_all)
  then show "whole_step\<^sup>*\<^sup>* s s'" using u(1) by simp
qed (use whole_locked_run assms(1) in blast)

section \<open>Two replies at once\<close>

text \<open>The polling thread answers a \<open>set\<close> while the answering thread answers a \<open>get\<close>.\<close>

definition both_scripts :: "thread \<Rightarrow> reply_op list" where
  "both_scripts i = (case i of Polling \<Rightarrow> set_script 0 | Answering \<Rightarrow> get_script (replicate 8192 NUL))"

lemma whole_ops_append:
  "whole_ops (ops @ ops') c ws = and_then (whole_ops ops c ws) (\<lambda>(out, c1, ws1).
     and_then (whole_ops ops' c1 ws1) (\<lambda>(out', c2, ws2). Ret (out @ out', c2, ws2)))"
proof (induction ops arbitrary: c ws)
  case Nil
  show ?case by (cases "whole_ops ops' c ws") auto
next
  case (Cons op ops)
  show ?case by (simp add: Cons.IH and_then_assoc case_prod_unfold del: and_then_Ret whole_op.simps)
qed

lemma locked_calls:
  assumes "\<forall>j. place s j = Ready" and "script s i = ops @ ops'" and "whole_ops ops (shared s) ws = Ret (out, c', ws')"
  shows "locked_step\<^sup>*\<^sup>* s (after_call i ops' c' out s)"
  using locked_run [OF calls_accesses [OF _ assms(2,3)]] assms(1) by blast

lemma bulk_ops:
  "whole_ops [Append (CHR ''$'' # sprint_d (int (length v)) @ [CR, LF]), Append v, PutByte CR, PutByte LF] c ws =
     and_then (defined (client_write_bulk v (int (length v)) c)) (\<lambda>c'. Ret ([], c', ws))"
  unfolding whole_ops.simps whole_op.simps client_write_bulk_def Let_def
  by (simp add: and_then_assoc defined_bind client_write_data_eq case_prod_unfold del: and_then_Ret)

lemma get_bulk:
  assumes "output_inv c" and "output_len c + 8201 \<le> OUTPUT_BUFSIZE"
  shows "\<exists>c'. output_inv c' \<and> output_len c' = output_len c + 8201 \<and>
    (\<forall>ws. whole_ops (take 4 (get_script (replicate 8192 NUL))) c ws = Ret ([], c', ws))"
proof -
  let ?v = "replicate 8192 NUL"
  have "\<exists>c'. client_write_bulk ?v (int (length ?v)) c = Some c' \<and> output_inv c' \<and>
      output_bytes c' = output_bytes c @ CHR ''$'' # dec (length ?v) @ [CR, LF] @ ?v @ [CR, LF]"
    by (rule client_write_bulk_ok [OF assms(1)]) (use assms(2) in \<open>simp add: dec_8192\<close>)
  then obtain c' where c': "client_write_bulk ?v (int (length ?v)) c = Some c'" "output_inv c'"
    "output_bytes c' = output_bytes c @ CHR ''$'' # dec (length ?v) @ [CR, LF] @ ?v @ [CR, LF]" by blast
  have "length (output_bytes c') = length (output_bytes c) + 8201" unfolding c'(3) by (simp add: dec_8192)
  then have "nat (output_len c') = nat (output_len c) + 8201" by (simp add: output_bytes_def)
  then have "output_len c' = output_len c + 8201" using assms(1) c'(2) unfolding output_inv_def by arith
  moreover have "take 4 (get_script ?v) = [Append (CHR ''$'' # sprint_d (int (length ?v)) @ [CR, LF]), Append ?v, PutByte CR, PutByte LF]"
    unfolding get_script_def by simp
  then have "\<forall>ws. whole_ops (take 4 (get_script ?v)) c ws = Ret ([], c', ws)"
    by (simp only: bulk_ops c'(1) defined_simps and_then.simps) simp
  ultimately show ?thesis using c'(2) by blast
qed

lemma ok_written:
  assumes "output_inv c" and "output_len c + 5 \<le> OUTPUT_BUFSIZE"
  shows "\<exists>c'. output_inv c' \<and> output_len c' = output_len c + 5 \<and> output_bytes c' = output_bytes c @ ''+OK'' @ [CR, LF] \<and>
    (\<forall>ws. whole_op (Append (''+OK'' @ [CR, LF])) c ws = Ret ([], c', ws))"
proof -
  obtain c' where c': "client_write (''+OK'' @ [CR, LF]) 5 c = Some c'"
    using client_write_ok [of c "''+OK'' @ [CR, LF]"] assms by (auto simp: output_inv_def)
  have "output_len c' = output_len c + 5" by (subst client_write_output(2) [OF c']) simp
  then show ?thesis using c' client_write_output(1,3) [OF c'] by (intro exI [of _ c']) (simp add: output_inv_def)
qed

lemma flush_all_op:
  assumes "output_inv c"
  shows "\<exists>ws ws'. whole_op (Flush 0) c ws = Ret (output_bytes c, c\<lparr>output_len := 0\<rparr>, ws')"
proof (cases "output_len c = 0")
  case True
  then show ?thesis by (intro exI [of _ "[]"]) (simp add: client_flush_offset_def output_bytes_def)
next
  case False
  then have pos: "0 < output_len c" using assms by (simp add: output_inv_def)
  have "\<exists>c' ws'. client_flush_offset 0 c [Wrote (nat (output_len c))] =
      Ret (peek (out_buf c) 0 (nat (output_len c - 0)), c', ws') \<and> (0 < output_len c \<longrightarrow> c' = c\<lparr>output_len := 0\<rparr>)"
    by (rule client_flush_all [OF _ _ assms]) (use pos in simp_all)
  then show ?thesis using pos by (auto simp: output_bytes_def)
qed

lemma replies_lost:
  assumes "output_inv c" and "output_len c + 5 \<le> OUTPUT_BUFSIZE"
  shows "\<exists>s. locked_step\<^sup>*\<^sup>* (reply_start c both_scripts) s \<and> (\<forall>i. place s i = Ready \<and> script s i = []) \<and>
    wire s = output_bytes c @ ''+OK'' @ [CR, LF] \<and> output_len (shared s) = 0"
proof -
  let ?s0 = "reply_start c both_scripts" and ?get = "get_script (replicate 8192 NUL)"
  obtain c1 where c1: "output_inv c1" "output_bytes c1 = output_bytes c @ ''+OK'' @ [CR, LF]"
    "\<And>ws. whole_op (Append (''+OK'' @ [CR, LF])) c ws = Ret ([], c1, ws)" using ok_written [OF assms] by blast
  obtain ws ws' where fl: "whole_op (Flush 0) c1 ws = Ret (output_bytes c1, c1\<lparr>output_len := 0\<rparr>, ws')"
    using flush_all_op [OF c1(1)] by blast
  let ?c1 = "c1\<lparr>output_len := 0\<rparr>"
  let ?s1 = "after_call Polling [Clear] ?c1 (output_bytes c1) ?s0"
  have "whole_ops [Append (''+OK'' @ [CR, LF]), Flush 0] (shared ?s0) ws = Ret (output_bytes c1, ?c1, ws')"
    by (simp only: whole_ops.simps reply_start_def reply_threads.simps c1(3) and_then.simps prod.case fl) simp
  then have 1: "locked_step\<^sup>*\<^sup>* ?s0 ?s1"
    by (rule locked_calls [rotated 2]) (simp_all add: reply_start_def both_scripts_def set_script_def)
  obtain c2 where c2: "\<And>ws. whole_ops (take 4 ?get) ?c1 ws = Ret ([], c2, ws)"
    using get_bulk [of ?c1] by (auto simp: output_inv_def OUTPUT_BUFSIZE_def)
  let ?s2 = "after_call Answering (drop 4 ?get) c2 [] ?s1"
  have "whole_ops (take 4 ?get) (shared ?s1) [] = Ret ([], c2, [])" using c2 by (simp only: after_call_def) simp
  then have 2: "locked_step\<^sup>*\<^sup>* ?s1 ?s2"
    by (rule locked_calls [rotated 2]) (simp_all add: after_call_def reply_start_def both_scripts_def)
  let ?s3 = "after_call Polling [] (client_clear c2) [] ?s2"
  have 3: "locked_step\<^sup>*\<^sup>* ?s2 ?s3"
    by (rule locked_calls [where ops = "[Clear]" and ws = "[]" and ws' = "[]"]) (simp_all add: after_call_def reply_start_def)
  let ?s4 = "after_call Answering [] (client_clear (client_clear c2)) [] ?s3"
  have 4: "locked_step\<^sup>*\<^sup>* ?s3 ?s4"
    by (rule locked_calls [where ops = "drop 4 ?get" and ws = "[]" and ws' = "[]"])
      (simp_all add: after_call_def reply_start_def get_script_def client_flush_offset_def client_clear_def)
  have "locked_step\<^sup>*\<^sup>* ?s0 ?s4" using 1 2 3 4 by (meson rtranclp_trans)
  moreover have "place ?s4 i = Ready \<and> script ?s4 i = []" for i
    by (cases i) (simp_all add: after_call_def reply_start_def)
  moreover have "wire ?s4 = output_bytes c @ ''+OK'' @ [CR, LF]" "output_len (shared ?s4) = 0"
    using c1(2) by (simp_all add: after_call_def reply_start_def client_clear_def)
  ultimately show ?thesis by blast
qed

lemma flush_overread:
  assumes "output_inv c" and "output_len c + 8206 \<le> OUTPUT_BUFSIZE"
  shows "\<exists>s siz sent off. race_step\<^sup>*\<^sup>* (reply_start c both_scripts) s \<and> place s Polling = Writing siz sent off \<and>
    sent < siz \<and> output_len (shared s) < off"
proof -
  let ?s0 = "reply_start c both_scripts" and ?get = "get_script (replicate 8192 NUL)"
  obtain c1 where c1: "output_inv c1" "output_len c1 = output_len c + 5"
    "\<And>ws. whole_op (Append (''+OK'' @ [CR, LF])) c ws = Ret ([], c1, ws)" using ok_written [OF assms(1)] assms(2) by auto
  have len: "5 \<le> output_len c1" "output_len c1 + 8201 \<le> OUTPUT_BUFSIZE"
    using assms c1(2) by (simp_all add: output_inv_def)
  have siz: "to_size_t (output_len c1 - 0) = output_len c1" using len by (simp add: to_size_t_id OUTPUT_BUFSIZE_def)
  let ?s1 = "after_call Polling [Flush 0, Clear] c1 [] ?s0"
  have "(reply_step Polling)\<^sup>*\<^sup>* ?s0 ?s1"
    by (rule call_accesses [where op = "Append (''+OK'' @ [CR, LF])" and ws = "[]" and ws' = "[]"])
      (use c1(3) in \<open>simp_all add: reply_start_def both_scripts_def set_script_def del: whole_op.simps\<close>)
  then have 1: "race_step\<^sup>*\<^sup>* ?s0 ?s1" by (rule race_run)
  let ?s2 = "begin_call Polling [Clear] (Sizing 0) ?s1"
  have "reply_step Polling ?s1 ?s2"
    by (rule flush_test) (use len in \<open>simp_all add: after_call_def reply_start_def\<close>)
  then have 2: "race_step ?s1 ?s2" by (auto simp: race_step_def)
  let ?s3 = "access Polling (shared ?s2) (Writing (to_size_t (output_len (shared ?s2) - 0)) 0 0) ?s2"
  have "reply_step Polling ?s2 ?s3" by (rule flush_size) (simp add: begin_call_def)
  then have 3: "race_step ?s2 ?s3" by (auto simp: race_step_def)
  have sh3: "shared ?s3 = c1" by (simp add: access_def begin_call_def after_call_def)
  have at3: "place ?s3 Polling = Writing (output_len c1) 0 0"
    using siz by (simp add: access_def begin_call_def after_call_def)
  let ?s4 = "access Polling c1 (Writing (output_len c1) (to_size_t (0 + int 1)) (0 + int 1)) (?s3\<lparr>wire := wire ?s3 @ peek (out_buf c1) 0 1\<rparr>)"
  have "reply_step Polling ?s3 ?s4"
    by (rule flush_write [OF at3, where n = 1]) (use len sh3 in simp_all)
  then have 4: "race_step ?s3 ?s4" by (auto simp: race_step_def)
  have at4: "place ?s4 Polling = Writing (output_len c1) 1 1" "place ?s4 Answering = Ready" "shared ?s4 = c1"
    "script ?s4 Answering = (take 4 ?get @ [Flush 0]) @ [Clear]"
    by (simp_all add: access_def begin_call_def after_call_def reply_start_def both_scripts_def get_script_def to_size_t_def)
  obtain c2 where c2: "output_inv c2" "\<And>ws. whole_ops (take 4 ?get) c1 ws = Ret ([], c2, ws)"
    using get_bulk [OF c1(1) len(2)] by blast
  obtain ws ws' where fl: "whole_op (Flush 0) c2 ws = Ret (output_bytes c2, c2\<lparr>output_len := 0\<rparr>, ws')"
    using flush_all_op [OF c2(1)] by blast
  have "whole_ops (take 4 ?get @ [Flush 0]) (shared ?s4) ws = Ret (output_bytes c2, c2\<lparr>output_len := 0\<rparr>, ws')"
    unfolding at4(3) using c2(2) fl by (simp add: whole_ops_append del: whole_op.simps)
  from calls_accesses [OF at4(2,4) this] have 5:
    "race_step\<^sup>*\<^sup>* ?s4 (after_call Answering [Clear] (c2\<lparr>output_len := 0\<rparr>) (output_bytes c2) ?s4)" (is "race_step\<^sup>*\<^sup>* ?s4 ?s5")
    by (rule race_run)
  have "race_step\<^sup>*\<^sup>* ?s0 ?s5" using 1 2 3 4 5 by (meson converse_rtranclp_into_rtranclp rtranclp_trans)
  moreover have "place ?s5 Polling = Writing (output_len c1) 1 1" "output_len (shared ?s5) = 0"
    using at4(1) by (simp_all add: after_call_def)
  ultimately show ?thesis using len(1)
    by (intro exI [of _ ?s5] exI [of _ "output_len c1"] exI [of _ 1]) simp
qed

section \<open>Bounds\<close>

text \<open>The bytes of the calls not yet finished: with \<open>output_len\<close> they never exceed their sum at the start.\<close>

fun op_size :: "reply_op \<Rightarrow> int" where
  "op_size (Append bs) = int (length bs)"
| "op_size (PutByte b) = 1"
| "op_size op = 0"

fun pc_size :: "reply_pc \<Rightarrow> int" where
  "pc_size (Copying bs p) = int (length bs)"
| "pc_size (Adding bs) = int (length bs)"
| "pc_size (PuttingByte b p) = 1"
| "pc_size (Storing op v) = op_size op"
| "pc_size p = 0"

definition to_come :: "reply_threads \<Rightarrow> int" where
  "to_come s = pc_size (place s Polling) + sum_list (map op_size (script s Polling)) +
     (pc_size (place s Answering) + sum_list (map op_size (script s Answering)))"

fun pc_within :: "int \<Rightarrow> reply_threads \<Rightarrow> reply_pc \<Rightarrow> bool" where
  "pc_within n s (Copying bs p) = (0 \<le> p \<and> p + to_come s \<le> n)"
| "pc_within n s (PuttingByte b p) = (0 \<le> p \<and> p + to_come s \<le> n)"
| "pc_within n s (Storing op v) = (0 \<le> v \<and> v + to_come s \<le> n + op_size op)"
| "pc_within n s p = True"

definition within :: "int \<Rightarrow> reply_threads \<Rightarrow> bool" where
  "within n s \<longleftrightarrow> 0 \<le> output_len (shared s) \<and> output_len (shared s) + to_come s \<le> n \<and> (\<forall>i. pc_within n s (place s i))"

lemma op_size_pos: "0 \<le> op_size op" "0 \<le> sum_list (map op_size ops)" "0 \<le> pc_size p"
proof -
  show op: "0 \<le> op_size op" for op by (cases op) simp_all
  then show "0 \<le> sum_list (map op_size ops)" by (induction ops) simp_all
  show "0 \<le> pc_size p" using op by (cases p) simp_all
qed

lemma pc_within_mono: "pc_within n s p \<Longrightarrow> to_come s' \<le> to_come s \<Longrightarrow> pc_within n s' p"
  by (cases p) auto

lemma withinI:
  assumes "within n s" and "to_come s' \<le> to_come s" and "\<And>j. j \<noteq> i \<Longrightarrow> place s' j = place s j"
    and "0 \<le> output_len (shared s')" and "output_len (shared s') + to_come s' \<le> n" and "pc_within n s' (place s' i)"
  shows "within n s'"
proof -
  have "pc_within n s' (place s' j)" for j
    using assms(1,2,3,6) pc_within_mono [of n s "place s j" s'] by (cases "j = i") (auto simp: within_def)
  then show ?thesis using assms(4,5) by (simp add: within_def)
qed

lemma to_come_change:
  assumes "\<And>j. j \<noteq> i \<Longrightarrow> place s' j = place s j \<and> script s' j = script s j"
  shows "to_come s' = to_come s - (pc_size (place s i) + sum_list (map op_size (script s i))) +
    (pc_size (place s' i) + sum_list (map op_size (script s' i)))"
  using assms by (cases i) (simp_all add: to_come_def)

lemma within_begin:
  assumes w: "within n s" and at: "place s i = Ready" "script s i = op # ops"
    and p: "pc_size p = op_size op" "pc_within n s p"
  shows "within n (begin_call i ops p s)"
proof -
  have same: "to_come (begin_call i ops p s) = to_come s"
    using to_come_change [of i "begin_call i ops p s" s] at p(1) by (simp add: begin_call_def)
  show ?thesis
    by (rule withinI [OF w, where i = i])
      (use w same pc_within_mono [OF p(2)] in \<open>simp_all add: begin_call_def within_def\<close>)
qed

lemma within_access:
  assumes w: "within n s" and d: "pc_size (place s i) = pc_size p + d" "0 \<le> d"
    and c: "0 \<le> output_len c" "output_len c + to_come s \<le> n + d" and p: "pc_within (n + d) s p"
  shows "within n (access i c p s)"
proof -
  have less: "to_come (access i c p s) = to_come s - d"
    using to_come_change [of i "access i c p s" s] d(1) by (simp add: access_def)
  have "pc_within n (access i c p s) p" using p less by (cases p) simp_all
  then show ?thesis
    by (intro withinI [OF w, where i = i]) (use less d(2) c in \<open>simp_all add: access_def\<close>)
qed

lemma within_shared: 
  assumes "within n s" and "0 \<le> output_len c" and "output_len c \<le> output_len (shared s)"
  shows "within n (s\<lparr>shared := c\<rparr>)"
  by (rule withinI [OF assms(1), where i = Polling])
    (use assms pc_within_mono [of n s "place s Polling"] in \<open>auto simp: within_def to_come_def\<close>)

lemma within_wire: "within n s \<Longrightarrow> within n (s\<lparr>wire := out\<rparr>)"
  by (rule withinI [where i = Polling])
    (use pc_within_mono [of n s "place s Polling"] in \<open>auto simp: within_def to_come_def\<close>)

lemma within_step:
  assumes "reply_step i s s'" and w: "within n s"
  shows "within n s'"
proof -
  have len: "0 \<le> output_len (shared s)" "output_len (shared s) + to_come s \<le> n" and at: "pc_within n s (place s i)"
    using w by (simp_all add: within_def)
  from assms(1) show ?thesis
  proof cases
    case (append_load bs ops)
    show ?thesis unfolding append_load(1)
      by (rule within_begin [OF w append_load(2,3)]) (use len in simp_all)
  next
    case (append_copy bs p c)
    show ?thesis unfolding append_copy(1)
      by (rule within_access [OF w, where d = 0]) (use len append_copy in simp_all)
  next
    case (append_add bs)
    show ?thesis unfolding append_add(1)
      by (rule within_access [OF w, where d = 0]) (use len append_add in simp_all)
  next
    case (byte_load b ops)
    show ?thesis unfolding byte_load(1)
      by (rule within_begin [OF w byte_load(2,3)]) (use len in simp_all)
  next
    case (byte_put b p c)
    show ?thesis unfolding byte_put(1)
      by (rule within_access [OF w, where d = 0]) (use len at byte_put in simp_all)
  next
    case (store_len op v)
    show ?thesis unfolding store_len(1)
      by (rule within_access [OF w, where d = "op_size op"]) (use len at store_len op_size_pos in simp_all)
  next
    case (flush_nothing off ops)
    show ?thesis unfolding flush_nothing(1)
      by (rule within_begin [OF w flush_nothing(2,3)]) simp_all
  next
    case (flush_test off ops)
    show ?thesis unfolding flush_test(1)
      by (rule within_begin [OF w flush_test(2,3)]) simp_all
  next
    case (flush_size off)
    show ?thesis unfolding flush_size(1)
      by (rule within_access [OF w, where d = 0]) (use len flush_size in simp_all)
  next
    case (flush_write siz sent off c k m)
    show ?thesis unfolding flush_write(1)
      by (rule within_access [OF within_wire [OF w], where d = 0])
        (use len flush_write in \<open>simp_all add: to_come_def\<close>)
  next
    case (flush_block siz sent off c)
    show ?thesis unfolding flush_block(1)
      by (rule within_access [OF w, where d = 0]) (use len flush_block in simp_all)
  next
    case (flush_done siz sent off)
    show ?thesis unfolding flush_done(1)
      by (rule within_access [OF w, where d = 0]) (use len flush_done in simp_all)
  next
    case (clear_len ops)
    have "within n (s\<lparr>shared := (shared s)\<lparr>output_len := 0\<rparr>\<rparr>)" by (rule within_shared [OF w]) (use len in simp_all)
    then show ?thesis unfolding clear_len(1)
      by (rule within_begin [where op = Clear]) (simp_all add: clear_len(2,3))
  next
    case clear_offset
    show ?thesis unfolding clear_offset(1)
      by (rule within_access [OF w, where d = 0]) (use len clear_offset in simp_all)
  qed
qed

lemma within_run: "race_step\<^sup>*\<^sup>* s s' \<Longrightarrow> within n s \<Longrightarrow> within n s'"
  by (induction rule: rtranclp_induct) (auto simp: race_step_def intro: within_step)

section \<open>Properties\<close>

text \<open>
  C22: while the polling thread answers a \<open>set\<close> and the answering thread a \<open>get\<close> on the same connection,
  the reply to the \<open>get\<close> can be lost, even if every single call excluded the others: it is written
  between the flush and the clear of the polling thread, which empties the buffer unsent.
\<close>

theorem reply_can_be_lost:
  assumes "output_inv c" and "output_len c + 5 \<le> OUTPUT_BUFSIZE"
  shows "\<exists>s. locked_step\<^sup>*\<^sup>* (reply_start c both_scripts) s \<and> (\<forall>i. place s i = Ready \<and> script s i = []) \<and>
    wire s = output_bytes c @ ''+OK'' @ [CR, LF] \<and> output_len (shared s) = 0"
  by (rule replies_lost [OF assms])

theorem reply_can_be_lost_witness:
  "\<exists>s. locked_step\<^sup>*\<^sup>* (reply_start sample_client both_scripts) s \<and> (\<forall>i. script s i = []) \<and>
     wire s = ''abc+OK'' @ [CR, LF]"
proof -
  have "output_inv sample_client" "output_len sample_client + 5 \<le> OUTPUT_BUFSIZE" "output_bytes sample_client = ''abc''"
    by (simp_all add: sample_client_def client_new_def output_inv_def OUTPUT_BUFSIZE_def output_bytes_def numeral_3_eq_3)
  from reply_can_be_lost [OF this(1,2)] this(3) show ?thesis by auto
qed

text \<open>
  C23: without exclusion a flush can be overtaken by the flush of the other thread, which resets
  \<open>output_len\<close>: the loop of the first is then about to call \<open>write\<close> with a negative length, which is
  undefined.
\<close>

theorem flush_can_overread:
  assumes "output_inv c" and "output_len c + 8206 \<le> OUTPUT_BUFSIZE"
  shows "\<exists>s siz sent off. race_step\<^sup>*\<^sup>* (reply_start c both_scripts) s \<and> place s Polling = Writing siz sent off \<and>
    sent < siz \<and> output_len (shared s) - off < 0 \<and> (\<nexists>s'. reply_step Polling s s')"
proof -
  obtain s siz sent off where s: "race_step\<^sup>*\<^sup>* (reply_start c both_scripts) s" "place s Polling = Writing siz sent off"
    "sent < siz" "output_len (shared s) < off" using flush_overread [OF assms] by blast
  have "\<nexists>s'. reply_step Polling s s'"
  proof
    assume "\<exists>s'. reply_step Polling s s'"
    then obtain s' where "reply_step Polling s s'" by blast
    then show False by cases (use s(2-4) in auto)
  qed
  with s show ?thesis by (intro exI [of _ s] exI [of _ siz] exI [of _ sent] exI [of _ off]) simp
qed

theorem flush_can_overread_witness:
  "\<exists>s siz sent off. race_step\<^sup>*\<^sup>* (reply_start sample_client both_scripts) s \<and> place s Polling = Writing siz sent off \<and>
    sent < siz \<and> output_len (shared s) - off < 0"
proof -
  have "output_inv sample_client" "output_len sample_client + 8206 \<le> OUTPUT_BUFSIZE"
    by (simp_all add: sample_client_def client_new_def output_inv_def OUTPUT_BUFSIZE_def)
  from flush_can_overread [OF this] show ?thesis by blast
qed

text \<open>
  C21: whatever the interleaving, no copy into the reply buffer leaves it and \<open>output_len\<close> stays within
  it, as long as all the bytes that the two threads are to write fit behind those at the start.
\<close>

theorem race_stays_in_buffer:
  assumes "0 \<le> output_len c" and "output_len c + sum_list (map op_size (ops Polling @ ops Answering)) \<le> OUTPUT_BUFSIZE"
    and "race_step\<^sup>*\<^sup>* (reply_start c ops) s"
  shows "0 \<le> output_len (shared s) \<and> output_len (shared s) \<le> OUTPUT_BUFSIZE \<and>
    (\<forall>i bs p. place s i = Copying bs p \<longrightarrow> 0 \<le> p \<and> p + int (length bs) \<le> OUTPUT_BUFSIZE) \<and>
    (\<forall>i b p. place s i = PuttingByte b p \<longrightarrow> 0 \<le> p \<and> p < OUTPUT_BUFSIZE)"
proof -
  have "within OUTPUT_BUFSIZE (reply_start c ops)"
    using assms(1,2) by (simp add: within_def reply_start_def to_come_def)
  from within_run [OF assms(3) this] have w: "0 \<le> output_len (shared s)" "output_len (shared s) + to_come s \<le> OUTPUT_BUFSIZE"
    "\<And>i. pc_within OUTPUT_BUFSIZE s (place s i)" by (auto simp: within_def)
  have least: "pc_size (place s i) \<le> to_come s" for i
    using op_size_pos by (cases i) (simp_all add: to_come_def add_increasing add_increasing2)
  have "0 \<le> to_come s" using least [of Polling] op_size_pos(3) [of "place s Polling"] by simp
  moreover have "0 \<le> p \<and> p + int (length bs) \<le> OUTPUT_BUFSIZE" if "place s i = Copying bs p" for i bs p
    using w(3) [of i] least [of i] that by simp
  moreover have "0 \<le> p \<and> p < OUTPUT_BUFSIZE" if "place s i = PuttingByte b p" for i b p
    using w(3) [of i] least [of i] that by simp
  ultimately show ?thesis using w(1,2) by fastforce
qed

theorem race_stays_in_buffer_witness:
  "\<exists>s. race_step\<^sup>*\<^sup>* (reply_start sample_client both_scripts) s \<and> script s Polling = [Flush 0, Clear] \<and>
    place s Polling = Copying (''+OK'' @ [CR, LF]) 3 \<and> output_len (shared s) \<le> OUTPUT_BUFSIZE"
proof -
  let ?s0 = "reply_start sample_client both_scripts"
  let ?t = "begin_call Polling [Flush 0, Clear] (Copying (''+OK'' @ [CR, LF]) (output_len (shared ?s0))) ?s0"
  have "reply_step Polling ?s0 ?t"
    by (rule append_load) (simp_all add: reply_start_def both_scripts_def set_script_def)
  then have "race_step ?s0 ?t" by (auto simp: race_step_def)
  then have run: "race_step\<^sup>*\<^sup>* ?s0 ?t" by blast
  have len: "output_len sample_client = 3" by (simp add: sample_client_def)
  have "sum_list (map op_size (both_scripts Polling)) = 5" "sum_list (map op_size (both_scripts Answering)) = 8201"
    by (simp_all add: both_scripts_def set_script_def get_script_def sprint_d_def dec_8192)
  then have "output_len (shared ?t) \<le> OUTPUT_BUFSIZE"
    using race_stays_in_buffer [OF _ _ run] len by (simp add: OUTPUT_BUFSIZE_def)
  then show ?thesis using run len
    by (intro exI [of _ ?t]) (simp add: begin_call_def reply_start_def)
qed

end
