(* ===== verification/Dangling.thy ===== *)
theory Dangling
  imports System
begin

text \<open>
  A connection that closes while the engine still works on its request: \<open>client_close\<close> frees the client,
  and the request keeps the pointer to it.
\<close>

lemma request_outlives_client:
  assumes q: "mpmc_new js jd 4096 = Some q" and s: "server_reachable e q s"
    and free: "engine s = []" "mpmc_items (endq s) = []" "answering s = None"
    and read: "on_read e i c (wld s) rr ws = Ret (ret, out, c', w', ws')"
    and r: "submitted (trace w') = submitted (trace (wld s)) @ [r]" "req_type r = 2"
  shows "\<exists>s'. (server_step e)\<^sup>*\<^sup>* (after_read i out c' w' s) s' \<and> answering s' = Some r \<and> conns s' i = None \<and>
    sent s' i = sent s i @ out"
proof -
  let ?s1 = "after_read i out c' w' s"
  let ?s2 = "?s1\<lparr>conns := (conns ?s1)(i := None)\<rparr>"
  have s2: "server_step e ?s1 ?s2" by (rule step_close [where c = c']) (simp add: after_read_def)
  have e: "engine ?s2 = [] @ r # []" "endq ?s2 = endq s" using free(1) r(1) by (simp_all add: after_read_def)
  have qinv: "mpmc_inv (endq s)" using server_reachable_inv [OF s q] by (simp add: server_inv_def)
  obtain q1 where q1: "mpmc_enq r (endq s) = (True, q1)" "mpmc_inv q1" "mpmc_items q1 = [r]"
    using mpmc_enq_idle [OF qinv free(2)] by blast
  obtain q2 where q2: "mpmc_deq q1 = (Some r, q2)" using mpmc.deq_item [OF q1(2,3)] by blast
  let ?s3 = "?s2\<lparr>wld := wld ?s2, engine := [] @ [], endq := q1,
    finished := (if req_type r = 1 then finished ?s2 @ [r] else finished ?s2)\<rparr>"
  have s3: "server_step e ?s2 ?s3"
    by (rule step_done [OF e(1)]) (use q1(1) e(2) r(2) in \<open>simp_all add: end_req_def\<close>)
  let ?s4 = "?s3\<lparr>endq := q2, answering := Some r\<rparr>"
  have s4: "server_step e ?s3 ?s4" by (rule step_take) (use free(3) q2 in \<open>simp_all add: after_read_def\<close>)
  show ?thesis using server_steps [OF s2 s3 s4] by (intro exI [of _ ?s4]) (simp add: after_read_def)
qed

section \<open>Properties\<close>

text \<open>
  C24: when a client closes its connection after sending a \<open>get\<close>, there is a run in which the answering
  thread takes the request after the client was freed: it would write the reply through the pointer of
  the request into freed memory, and nothing is sent.
\<close>

theorem freed_client_answered:
  assumes q: "mpmc_new js jd 4096 = Some q" and s: "server_reachable e q s"
    and free: "engine s = []" "mpmc_items (endq s) = []" "answering s = None" and c: "conns s i = Some c"
    and inv: "parser_inv c" "output_inv c" and idle: "unread c = []" "\<not> output_valid c"
    and got: "got = resp_command [name, pre @ dec n]" "buf_idx c + int (length got) \<le> BUFSIZE"
    and name: "list_all2 same_letter name ''get''" and key: "length pre = 4" "int n \<le> INT_MAX"
    and engine: "\<forall>es. lr_make_req e es \<noteq> - 1"
  shows "\<exists>c' w' s' r. on_read e i c (wld s) (Received got) [] = Ret (None, [], c', w', []) \<and>
    (server_step e)\<^sup>*\<^sup>* (after_read i [] c' w' s) s' \<and> answering s' = Some r \<and> req_client r = Some i \<and>
    conns s' i = None \<and> sent s' i = sent s i"
proof -
  obtain c' w' r where r: "on_read e i c (wld s) (Received got) [] = Ret (None, [], c', w', [])"
    "submitted (trace w') = submitted (trace (wld s)) @ [r]" "req_client r = Some i" "req_type r = 2"
    using on_read_get [OF inv idle got name key engine, of i "wld s" "[]"] by blast
  from request_outlives_client [OF q s free r(1,2,4)] r(1,3) show ?thesis by auto
qed

theorem freed_client_answered_witness:
  "\<exists>q s s' r. server_reachable sample_env q s \<and> conns s 5 \<noteq> None \<and> server_reachable sample_env q s' \<and>
    answering s' = Some r \<and> req_client r = Some 5 \<and> conns s' 5 = None"
proof -
  let ?got = "resp_command [''GET'', ''user'' @ dec 7]"
  obtain q where q: "mpmc_new (\<lambda>_. 0) (\<lambda>_. alloc_req) 4096 = Some q" "mpmc_items q = []"
    using sample_queue by blast
  obtain s c where s: "server_reachable sample_env q s" "engine s = []" "mpmc_items (endq s) = []" "answering s = None"
    "conns s 5 = Some c" "parser_inv c" "output_inv c" "unread c = []" "\<not> output_valid c" and c: "buf_idx c = 0"
    using sample_open [OF q, of sample_env] by blast
  have len: "buf_idx c + int (length ?got) \<le> BUFSIZE"
    by (simp add: resp_command_def length_resp_bulk length_dec_one BUFSIZE_def c)
  have name: "list_all2 same_letter ''GET'' ''get''" by (simp add: same_letter_def c_char_def)
  have engine: "\<forall>es. lr_make_req sample_env es \<noteq> - 1" by (simp add: sample_env_def)
  obtain c' w' s' r where r: "on_read sample_env 5 c (wld s) (Received ?got) [] = Ret (None, [], c', w', [])"
    and s': "(server_step sample_env)\<^sup>*\<^sup>* (after_read 5 [] c' w' s) s'" "answering s' = Some r" "req_client r = Some 5"
      "conns s' 5 = None"
    using freed_client_answered [OF q(1) s(1-9) refl len name _ _ engine] by (auto simp: INT_MAX_def)
  have "server_reachable sample_env q (after_read 5 [] c' w' s)" by (rule serve_step [OF s(1) step_read [OF s(5) r]])
  then have "server_reachable sample_env q s'" by (rule server_run_reachable [OF _ s'(1)])
  then show ?thesis using s(1,5) s'(2-4) by blast
qed

end
