(* ===== verification/Overflow.thy ===== *)
theory Overflow
  imports System
begin

text \<open>
  Replies that pile up: \<open>client_output_require\<close> is empty, so nothing keeps \<open>output_len\<close> below
  \<open>OUTPUT_BUFSIZE\<close>, and \<open>on_read\<close> flushes only after a reply that sets \<open>output_valid\<close>, which an error
  reply does not. A client that sends nothing but \<open>get\<close> without a key gets no reply, and after enough
  of them the error replies are written past the end of the buffer.
\<close>

definition get_error :: "byte list" where
  "get_error = ''-ERR '' @ ''wrong number of arguments for '' @ [CHR 0x27] @ ''get'' @ [CHR 0x27] @ '' command'' @ [CR, LF]"

text \<open>One call of \<open>on_read\<close> after the other, each with what it receives; the bytes sent are collected.\<close>

fun reads :: "env \<Rightarrow> nat \<Rightarrow> byte list list \<Rightarrow> client \<Rightarrow> world \<Rightarrow> (byte list \<times> client \<times> world) outcome" where
  "reads e cid [] c w = Ret ([], c, w)"
| "reads e cid (got # gots) c w =
     and_then (on_read e cid c w (Received got) []) (\<lambda>(ret, out, c1, w1, ws).
     and_then (reads e cid gots c1 w1) (\<lambda>(out', c2, w2). Ret (out @ out', c2, w2)))"

text \<open>A connection that waits for a command and has sent all that \<open>output_valid\<close> asks it to send.\<close>

definition waiting :: "client \<Rightarrow> bool" where
  "waiting c \<longleftrightarrow> parser_inv c \<and> output_inv c \<and> buf_idx c = 0 \<and> buf_len c = 0 \<and> \<not> output_valid c"

lemma length_get_error: "length get_error = 50"
  by (simp add: get_error_def)

lemma get_no_key_exec:
  assumes e: "ended_arg c 0 name" and len: "args_len c = 1" and name: "list_all2 same_letter name ''get''"
  shows "exec_command e cid c w = Ret (wrong_args ''get'', c, w)"
proof -
  have str: "arg_string c 0 = Some name" by (rule ended_arg_string [OF e]) (simp_all add: len)
  obtain b bs where b: "name = b # bs" "same_letter b (CHR ''g'')"
    using name by (auto simp: list_all2_Cons2)
  have size: "args_size c 0 \<noteq> 0" using e b by (auto simp: ended_arg_def)
  have "iscmd c ''get'' = Some True"
    using islstr_loop_match [OF name] str by (simp add: iscmd_def islstr_def)
  moreover have "iscmd c ''set'' = Some False" "iscmd c ''mset'' = Some False"
    using str b by (auto simp: iscmd_def islstr_def same_letter_def c_char_def)
  ultimately show ?thesis using len size by (simp add: exec_command_def commands_def exec_get_def)
qed

text \<open>The error reply is the sequence of its four writes.\<close>

lemma write_error_put:
  assumes "NUL \<notin> set m"
  shows "client_write_error m = reply.put_all [''-ERR '', m, [CR], [LF]]"
proof -
  have m: "cstr m = m" using assms by (induction m) (auto simp: cstr_def)
  show ?thesis
    using client_write_put [of "''-ERR ''"] client_write_put [of m]
    by (simp add: fun_eq_iff client_write_error_def m client_write_byte_put reply.put_all_fun del: reply.put_all.simps)
qed

lemma write_error_fits:
  assumes inv: "output_inv c" and m: "NUL \<notin> set m"
  shows "output_len c + int (length m) + 7 \<le> OUTPUT_BUFSIZE \<Longrightarrow>
      \<exists>c'. client_write_error m c = Some c' \<and> output_inv c' \<and> input_same c c' \<and> output_valid c' = output_valid c \<and>
        output_len c' = output_len c + int (length m) + 7 \<and>
        output_bytes c' = output_bytes c @ ''-ERR '' @ m @ [CR, LF]"
    and "\<not> output_len c + int (length m) + 7 \<le> OUTPUT_BUFSIZE \<Longrightarrow> client_write_error m c = None"
proof -
  note put = write_error_put [OF m]
  have bytes: "int (length (output_bytes d)) = output_len d" if "output_inv d" for d
    using that by (simp add: output_bytes_def output_inv_def)
  {
    assume fits: "output_len c + int (length m) + 7 \<le> OUTPUT_BUFSIZE"
    then obtain c' where c': "client_write_error m c = Some c'"
      using reply.put_all_fits [OF inv, of "[''-ERR '', m, [CR], [LF]]"] bytes [OF inv] put by auto
    have out: "output_inv c'" "output_bytes c' = output_bytes c @ ''-ERR '' @ m @ [CR, LF]"
      using reply.put_all_some [OF inv, of "[''-ERR '', m, [CR], [LF]]" c'] c' put by simp_all
    have "output_valid c' = output_valid c"
      using c' by (auto simp: client_write_error_def client_write_def client_write_byte_def Option.bind_eq_Some_conv
          split: if_splits)
    moreover have "output_len c' = output_len c + int (length m) + 7"
      using bytes [OF inv] bytes [OF out(1)] out(2) by simp
    ultimately show "\<exists>c'. client_write_error m c = Some c' \<and> output_inv c' \<and> input_same c c' \<and>
        output_valid c' = output_valid c \<and> output_len c' = output_len c + int (length m) + 7 \<and>
        output_bytes c' = output_bytes c @ ''-ERR '' @ m @ [CR, LF]"
      using c' out untouched.client_write_error_keeps [OF c'] by blast
  }
  assume full: "\<not> output_len c + int (length m) + 7 \<le> OUTPUT_BUFSIZE"
  show "client_write_error m c = None"
  proof (rule ccontr)
    assume "client_write_error m c \<noteq> None"
    then obtain c' where "client_write_error m c = Some c'" by blast
    then have "output_inv c'" "output_bytes c' = output_bytes c @ ''-ERR '' @ m @ [CR, LF]"
      using reply.put_all_some [OF inv, of "[''-ERR '', m, [CR], [LF]]" c'] put by simp_all
    then show False using full bytes [OF inv] bytes [of c'] by (simp add: output_inv_def)
  qed
qed

text \<open>The result of one \<open>get\<close> without a key.\<close>

lemma waiting_store:
  assumes w: "waiting c" and got: "int (length got) \<le> BUFSIZE" "got \<noteq> []"
  shows "\<exists>c1. on_read e cid c w (Received got) ws = on_data e cid c1 w ws \<and> parser_inv c1 \<and> unread c1 = got \<and>
    output_inv c1 \<and> output_len c1 = output_len c \<and> output_bytes c1 = output_bytes c \<and> \<not> output_valid c1"
proof -
  have inv: "parser_inv c" and idle: "buf_idx c = 0" "buf_len c = 0" using w by (simp_all add: waiting_def)
  have fits: "take (nat (to_size_t (BUFSIZE - buf_idx c - buf_len c))) got = got"
    using got(1) idle by (simp add: to_size_t_id BUFSIZE_def)
  obtain c1 where c1: "store_received got c = Some c1"
    using got(1) idle by (simp add: store_received_def get_buffer_def)
  have "unread c = []" using idle by (simp add: unread_def)
  with store_received_unread [OF inv c1] have p: "parser_inv c1" "unread c1 = got" by simp_all
  moreover have "output_inv c1 = output_inv c" "output_len c1 = output_len c" "output_bytes c1 = output_bytes c"
    "output_valid c1 = output_valid c"
    using c1 by (auto simp: store_received_def output_bytes_def output_inv_def split: if_splits)
  ultimately show ?thesis using w fits c1 got(2) by (intro exI [of _ c1]) (simp add: on_read_def waiting_def)
qed

lemma get_no_key_data:
  assumes inv: "parser_inv c" "output_inv c" and u: "unread c = resp_command [name]" and v: "\<not> output_valid c"
    and name: "list_all2 same_letter name ''get''"
  shows "output_len c + 50 \<le> OUTPUT_BUFSIZE \<Longrightarrow>
      \<exists>c'. on_data e cid c w ws = Ret (None, [], c', w, ws) \<and> waiting c' \<and>
        output_len c' = output_len c + 50 \<and> output_bytes c' = output_bytes c @ get_error"
    and "\<not> output_len c + 50 \<le> OUTPUT_BUFSIZE \<Longrightarrow> on_data e cid c w ws = Undef"
proof -
  have "unread c = resp_command [name] @ []" using u by simp
  from read_command_ended [OF inv(1) _ this] obtain c1 where
    read: "client_read_command c = Some (None, c1)" "unread c1 = []" and len: "args_len c1 = 1"
    and arg: "ended_arg c1 0 name" by auto
  note d = read_drained [OF inv(1) read]
  have same: "output_bytes c1 = output_bytes c" "output_len c1 = output_len c" "output_inv c1 = output_inv c"
    "output_valid c1 = output_valid c"
    using parsed_facts(4) [OF inv(1) read_command_facts [OF inv(1) read(1)]]
    by (simp_all add: output_bytes_def output_inv_def)
  have exec: "exec_command e cid c1 w = Ret (wrong_args ''get'', c1, w)"
    by (rule get_no_key_exec [OF arg len name])
  define m where "m = ''wrong number of arguments for '' @ [CHR 0x27] @ ''get'' @ [CHR 0x27] @ '' command''"
  have m: "NUL \<notin> set m" "length m = 43" "get_error = ''-ERR '' @ m @ [CR, LF]" "wrong_args ''get'' = Some (Message m)"
    by (simp_all add: m_def get_error_def wrong_args_def)
  have loop: "client_exec_commands exec_fuel e cid c w =
      and_then (defined (client_write_error m c1)) (\<lambda>c3. Ret (True, c3, w))"
    unfolding exec_fuel_def add_2_eq_Suc' client_exec_commands.simps(2) by (simp add: read(1) exec m(4))
  have out: "output_inv c1" using same inv by simp
  note err = write_error_fits [OF out m(1), unfolded m(2) same(2)]
  {
    assume "output_len c + 50 \<le> OUTPUT_BUFSIZE"
    then obtain c3 where c3: "client_write_error m c1 = Some c3" "output_inv c3" "input_same c1 c3"
      "output_valid c3 = output_valid c1" "output_len c3 = output_len c + 50"
      "output_bytes c3 = output_bytes c1 @ ''-ERR '' @ m @ [CR, LF]"
      using err(1) by auto
    have idle: "buf_idx c3 = 0" "buf_len c3 = 0" using c3(3) d by (simp_all add: input_same_def)
    have p: "parser_inv c3" by (rule input_same_inv [OF c3(3) d(1)])
    have "compact c3 = Ret c3" using idle by (simp add: compact_def BUFSIZE_def)
    then have "on_data e cid c w ws = Ret (None, [], c3, w, ws)"
      using loop c3(1,4) same(4) v by (simp add: on_data_def)
    then show "\<exists>c'. on_data e cid c w ws = Ret (None, [], c', w, ws) \<and> waiting c' \<and>
        output_len c' = output_len c + 50 \<and> output_bytes c' = output_bytes c @ get_error"
      using c3 idle p same v m(3) by (auto simp: waiting_def)
  }
  assume "\<not> output_len c + 50 \<le> OUTPUT_BUFSIZE"
  then show "on_data e cid c w ws = Undef" using loop err(2) by (simp add: on_data_def)
qed

lemma gets_pile_up:
  assumes "waiting c" and name: "list_all2 same_letter name ''get''"
  shows "(\<exists>c'. output_len c + 50 * int n \<le> OUTPUT_BUFSIZE \<and>
      reads e cid (replicate n (resp_command [name])) c w = Ret ([], c', w) \<and> waiting c' \<and>
      output_bytes c' = output_bytes c @ concat (replicate n get_error)) \<or>
    OUTPUT_BUFSIZE < output_len c + 50 * int n \<and>
      reads e cid (replicate n (resp_command [name])) c w = Undef"
  using assms(1)
proof (induction n arbitrary: c)
  case 0
  then show ?case by (simp add: waiting_def output_inv_def)
next
  case (Suc n)
  have len: "int (length (resp_command [name])) \<le> BUFSIZE" "resp_command [name] \<noteq> []"
    using list_all2_lengthD [OF name] by (simp_all add: resp_command_def length_resp_bulk length_dec_one BUFSIZE_def)
  obtain c1 where c1: "on_read e cid c w (Received (resp_command [name])) [] = on_data e cid c1 w []"
    "parser_inv c1" "unread c1 = resp_command [name]" "output_inv c1" "output_len c1 = output_len c"
    "output_bytes c1 = output_bytes c" "\<not> output_valid c1"
    using waiting_store [OF Suc.prems len] by blast
  note data = get_no_key_data [OF c1(2,4,3,7) name, of e cid w "[]", unfolded c1(5,6)]
  show ?case
  proof (cases "output_len c + 50 \<le> OUTPUT_BUFSIZE")
    case True
    then obtain c2 where c2: "on_data e cid c1 w [] = Ret (None, [], c2, w, [])" "waiting c2"
      "output_len c2 = output_len c + 50" "output_bytes c2 = output_bytes c @ get_error"
      using data(1) by blast
    then show ?thesis using Suc.IH [OF c2(2)] c1(1) by (auto simp: algebra_simps)
  next
    case False
    then show ?thesis using data(2) c1(1) by simp
  qed
qed

section \<open>Properties\<close>

text \<open>
  C20: a connection that only sends \<open>get\<close> without a key, one command per read: as long as the
  replies fit into the reply buffer, nothing is sent and 50 bytes are added to it each time; the first
  \<open>on_read\<close> whose reply does not fit is undefined, it writes past the end of the buffer.
\<close>

theorem errors_pile_up:
  assumes "waiting c" and "list_all2 same_letter name ''get''"
  shows "if output_len c + 50 * int n \<le> OUTPUT_BUFSIZE
    then \<exists>c'. reads e cid (replicate n (resp_command [name])) c w = Ret ([], c', w) \<and> waiting c' \<and>
      output_bytes c' = output_bytes c @ concat (replicate n get_error)
    else reads e cid (replicate n (resp_command [name])) c w = Undef"
  using gets_pile_up [OF assms, of n e cid w] by auto

theorem errors_pile_up_witness:
  "(\<exists>c'. reads sample_env 5 (replicate 2 (resp_command [''GET''])) (client_of []) init_world =
      Ret ([], c', init_world) \<and> waiting c' \<and> output_bytes c' = get_error @ get_error) \<and>
   reads sample_env 5 (replicate 3000000 (resp_command [''GET''])) (client_of []) init_world = Undef"
proof -
  have w: "waiting (client_of [])"
    using client_of_inv [of "[]"]
    by (simp add: waiting_def client_of_def client_new_def output_inv_def OUTPUT_BUFSIZE_def BUFSIZE_def)
  have name: "list_all2 same_letter ''GET'' ''get''" by (simp add: same_letter_def c_char_def)
  have len: "output_len (client_of []) = 0" "output_bytes (client_of []) = []"
    by (simp_all add: client_of_def client_new_def output_bytes_def)
  note r = errors_pile_up [OF w name, of _ sample_env 5 init_world, unfolded len]
  have "\<not> 0 + 50 * int 3000000 \<le> OUTPUT_BUFSIZE" by (simp add: OUTPUT_BUFSIZE_def)
  then have "reads sample_env 5 (replicate 3000000 (resp_command [''GET''])) (client_of []) init_world = Undef"
    using r [of 3000000] by meson
  moreover have "0 + 50 * int 2 \<le> OUTPUT_BUFSIZE" by (simp add: OUTPUT_BUFSIZE_def)
  then have "\<exists>c'. reads sample_env 5 (replicate 2 (resp_command [''GET''])) (client_of []) init_world =
      Ret ([], c', init_world) \<and> waiting c' \<and> output_bytes c' = [] @ concat (replicate 2 get_error)"
    using r [of 2] by meson
  ultimately show ?thesis by (simp add: numeral_2_eq_2)
qed

end
