(* ===== verification/Spec2Isabelle.thy ===== *)
theory Spec2Isabelle
  imports LinkedQueue PriorityQueue SpscThreads MpmcLinear HashMap Util TelnetWords ServerTypes ServerThreads StaleInput
    PollerProps GlobProps LengthCut UdpThreads Batch ReplyRace Dangling Overflow
begin

text \<open>
  A verification development of \<open>nohost_server\<close>, a key-value server in C and C++ that speaks the
  Redis protocol and hands its requests to an asynchronous storage engine.

  \<^bold>\<open>The program.\<close> A polling thread (\<open>polling_worker\<close> in \<open>poll_server.cpp\<close>) accepts connections and
  calls \<open>on_read\<close> on those that are readable. \<open>on_read\<close> receives into the input buffer of the
  connection's \<open>client_t\<close> and runs \<open>client_exec_commands\<close> (\<open>client.cc\<close>), which reads one command after
  the other (\<open>client_read_command\<close>) and runs its handler (\<open>exec.cc\<close>). A handler writes replies to the
  client's output buffer or submits a request (\<open>make_req\<close> in \<open>request.cc\<close>) to the storage engine. The
  engine calls \<open>end_req\<close> for every finished request, which puts it on a ring of \<open>lfmpmc.h\<close>; an
  answering thread (\<open>end_req_q_handler\<close>) takes it off and sends the reply. \<open>poll_server_buse.cpp\<close> and
  \<open>poll_server_busefs.cpp\<close> are variants for other engines, \<open>multi_server.cpp\<close> has one polling thread per
  socket. \<open>udp_server.cpp\<close> is an older server: its main thread receives datagrams and passes them over
  a ring of \<open>lockfreeq.h\<close> to a handler thread that reads them with \<open>command.c\<close>. The queue, the heap,
  the hash map, the glob matcher and the pattern limits are utilities that the servers carry along.

  \<^bold>\<open>The model.\<close> A C function is a HOL function with the source's name. A struct is a record, a buffer
  a function from indices to bytes with the bounds tested at each access, a pointer a number or an
  index. C integers are HOL integers with the conversions and overflow tests written out, the counters
  of the rings 64-bit words. A call returns \<open>Ret\<close>, ends the process (\<open>Exit\<close>), is undefined (\<open>Undef\<close>; in
  smaller functions \<open>None\<close> of an option) or has not returned when the input is used up (\<open>Loops\<close>). What
  the operating system returns (\<open>recv\<close>, \<open>write\<close>, \<open>accept\<close>, \<open>poll\<close>, \<open>socket\<close> and so on) and what
  uninitialised memory holds are arguments. The storage engine, which is not in the repository, is the
  environment \<open>env\<close> in the theory \<open>Request\<close>; the request and DMA allocators that \<open>command.c\<close> needs are the
  environment \<open>cenv\<close> in \<open>Command\<close>; \<open>std::hash\<close> is an argument in \<open>HashMap\<close>.

  \<^bold>\<open>The theories and what they show.\<close>

  \<^item> \<open>Prelude\<close>: bytes, C integers, memories, outcomes, decimal printing, \<open>atoi\<close>. \<open>Fifo\<close>: the contract of
    a queue, as a locale, with a fixed capacity in \<open>bounded_fifo\<close>, and \<open>run_simulation\<close>, by which the
    runs of threads correspond to runs of whole calls.

  \<^item> \<open>LinkedQueue\<close> (\<open>queue.c\<close>): the list in a store of nodes refines a list, answer by answer, with any
    allocator; \<open>destroy_queue\<close> frees its nodes. It interprets \<open>fifo\<close>.

  \<^item> \<open>PriorityQueue\<close> (\<open>priority_queue.c\<close>): \<open>PQ_push\<close> keeps the heap order, draining gives back the items
    pushed; \<open>PQ_pop\<close> repairs one level only: where it puts the last node, when that keeps the order of the
    items, and that it does not always. Heaps stay below \<open>2 ^ 30\<close> cells, so that the \<open>int\<close> sizes of the code do not overflow.

  \<^item> \<open>Ring\<close>, \<open>SpscQueue\<close>, \<open>SpscThreads\<close> (\<open>lockfreeq.h\<close>) and \<open>MpmcQueue\<close>, \<open>MpmcThreads\<close>, \<open>MpmcLinear\<close> (\<open>lfmpmc.h\<close>): the rings
    called one operation after the other refine bounded queues; with the single accesses of the
    threads interleaved they stay first in, first out, lose nothing and have no race on a slot.
    In \<open>MpmcLinear\<close> they do what some sequence of whole calls does, each at the moment it takes its
    ticket. \<open>isempty\<close> of \<open>lfmpmc.h\<close> loses an item. In \<open>MpmcThreads\<close> the histories stay below \<open>2 ^ 63\<close> items, so
    that the signed difference of the code does not wrap; \<open>SpscThreads\<close> has no such bound.

  \<^item> \<open>HashMap\<close> (\<open>hashMap.cc\<close>): insertion returns unless the key is new and its hash value taken, in which
    case it never returns. \<open>Util\<close> (\<open>util.cc\<close>, \<open>Slice::compare\<close>): \<open>atop\<close>, and the key range of a pattern.
    \<open>Glob\<close>, \<open>GlobProps\<close> (\<open>match.cc\<close>): the matcher decides an inductively defined relation.

  \<^item> \<open>Client\<close> (\<open>client.cc\<close>, \<open>server.h\<close>): the client record, the reply buffer and its flush.
    \<open>ClientParser\<close> (\<open>client_read_command\<close>): commands are read back as encoded, and what becomes of cut
    ones. \<open>ParserSafety\<close>: on which inputs reading is defined, and that it advances. \<open>TelnetWords\<close>: lines
    of words.

  \<^item> \<open>Request\<close> (\<open>request.cc\<close>), \<open>Exec\<close>, \<open>Replies\<close> and \<open>ExecProps\<close> (\<open>exec.cc\<close>, \<open>client_exec_commands\<close>): every
    handler and the dispatch; what \<open>set\<close> and \<open>get\<close> submit; that the loop ends. The locale \<open>reply_growth\<close>
    lifts what holds of the single writes to a connection to all handlers: they leave its input alone.
    \<open>Growth\<close> does the same for the requests they make, up to \<open>on_read\<close>, in the locale \<open>world_growth\<close>.
    \<open>Overflow\<close>: error replies are not flushed and pile up until one is written past the end of the buffer.

  \<^item> \<open>Server\<close> (\<open>on_read\<close>, \<open>end_req\<close>, \<open>end_req_q_handler\<close>): reads keep the buffer indices valid, except
    that the one of \<open>multi_server.cpp\<close> may receive past the end of the buffer. \<open>System\<close>: the threads, the
    engine and the connections as one step relation, in which a call on the ring is a step: no request
    is lost or duplicated, the ledger of the DMA buffers by their tags, and that a \<open>get\<close> can be served.
    \<open>ServerTypes\<close>: which requests the engine and the queue can hold and that a buffer is freed as it was
    allocated, as a type invariant of the steps. \<open>ServerThreads\<close>: with the single accesses to the ring interleaved the server
    refines \<open>System\<close>, by \<open>run_simulation\<close>; the histories stay below \<open>2 ^ 63\<close> items here too.
    \<open>StaleInput\<close>: a read that would block takes old input for new.
    \<open>Batch\<close>: any number of \<open>get\<close>s and \<open>set\<close>s sent at once are served, but not in order. \<open>Dangling\<close>: a
    client can be freed before its request is answered.

  \<^item> \<open>ReplyRace\<close> (\<open>client.cc\<close>): the polling and the answering thread on one reply buffer, each access to
    \<open>output_len\<close> and to the bytes a step: what is lost and read beyond the end, and that all copies stay in
    bounds while the bytes to come fit. As a check of these steps, under a mutex that the code does not take
    they would be runs of whole calls (\<open>run_simulation\<close> once more, and its converse).

  \<^item> \<open>Poller\<close>, \<open>PollerProps\<close>: the table of the polling thread and the start of the servers. The locale
    \<open>reader\<close> says what the worker needs of \<open>on_read\<close>; it is interpreted for the three variants. The
    polling thread uses no client that it has freed, and a round is undefined only where a call of \<open>on_read\<close>
    is; closing up the table against a list function.

  \<^item> \<open>Command\<close>, \<open>CommandProps\<close> (\<open>command.c\<close>): the incremental parser; whole commands are submitted as
    encoded, a command cut in its value is not. \<open>LengthCut\<close>: what it makes of a cut length line. \<open>Udp\<close>,
    \<open>UdpProps\<close> (\<open>udp_server.cpp\<close>): the two threads over the contract \<open>bounded_fifo\<close> of \<open>SpscQueue\<close>;
    datagrams are submitted in order; which memory is lost; replies that overflow. \<open>UdpThreads\<close>: the
    same threads with their single accesses to the ring, which refine the former by the locale
    \<open>run_simulation\<close>.

  \<^bold>\<open>Bounds and fuel.\<close> \<open>client_exec_commands\<close> has the fuel \<open>exec_fuel\<close>, two more than the input buffer has
  bytes: every command takes a byte off the buffer, and \<open>exec_commands_terminate\<close> shows that one pass more
  than there are unread bytes is enough and that further fuel changes nothing. \<open>request_loop\<close> has two more than the input has bytes, which
  \<open>GetRequest_roundtrip\<close> shows to be enough for commands. The loops of \<open>hashMapInsert\<close>
  and \<open>destroy_queue\<close> are \<open>partial_function\<close>s, so that returning is something to show: the second
  returns, the first not always. The loops of \<open>lfmpmc.h\<close> take as input which of their
  \<open>compare_exchange_weak\<close> succeed, the system calls' loops the results of the calls.

  \<^bold>\<open>Not modelled.\<close> Threads interleave sequentially consistently: the memory orders of the atomics are not
  modelled. In \<open>System\<close> and \<open>ServerThreads\<close> what a thread does between two
  accesses to a ring is one step; the races on the reply buffer are in \<open>ReplyRace\<close>, without the rest of
  the server. A freed client is one that is gone: what the code does through the dangling pointer is not
  modelled. Timing and statistics that are only
  printed, \<open>client_print_args\<close>, the destructors, the disabled \<open>remove_directory\<close>, the calls of
  \<open>libmemio\<close> under \<open>ENABLE_LIBFTL\<close> in \<open>command.c\<close> other than \<open>alloc_dma\<close>, the vendored RocksDB headers
  except \<open>Slice::compare\<close>, and the scripts are left out.
\<close>

end
